(* ===== verification/Prelude.thy ===== *)
theory Prelude
  imports Main "HOL-Library.Word" "HOL-Library.Monad_Syntax"
begin

text \<open>
  What the components share: the machine integers of the Rust sources as words, byte strings and their
  little- and big-endian integers, \<open>Result\<close> values as a sum whose left side is the error, and the
  \<open>(0..n).map(..).collect::<Result<_, _>>()\<close> loop that reads \<open>n\<close> items one after the other.
  \<open>usize\<close> counts are \<open>nat\<close>; where the source can overflow a fixed width the models use words or write
  the bound out.
\<close>

unbundle bit_operations_syntax

type_synonym u8 = "8 word"
type_synonym u16 = "16 word"
type_synonym u32 = "32 word"
type_synonym u64 = "64 word"
type_synonym bytes = "u8 list"

named_theorems wire_simps \<open>lengths and readings of encoded fields\<close>
named_theorems result_simps \<open>successful runs of fallible code\<close>

section \<open>Result\<close>

text \<open>The \<open>?\<close> operator: the first error ends the computation.\<close>

fun rbind :: "'e + 'a \<Rightarrow> ('a \<Rightarrow> 'e + 'b) \<Rightarrow> 'e + 'b" where
  "rbind (Inl e) f = Inl e"
| "rbind (Inr x) f = f x"

fun rmap :: "('a \<Rightarrow> 'b) \<Rightarrow> 'e + 'a \<Rightarrow> 'e + 'b" where
  "rmap f (Inl e) = Inl e"
| "rmap f (Inr x) = Inr (f x)"

fun ok_or :: "'e \<Rightarrow> 'a option \<Rightarrow> 'e + 'a" where
  "ok_or e None = Inl e"
| "ok_or e (Some x) = Inr x"

fun is_ok :: "'e + 'a \<Rightarrow> bool" where
  "is_ok (Inl e) = False"
| "is_ok (Inr x) = True"

text \<open>\<open>n\<close> items read in order from a mutable reader, ended by the first error.\<close>

fun read_n :: "nat \<Rightarrow> ('r \<Rightarrow> 'e + ('a \<times> 'r)) \<Rightarrow> 'r \<Rightarrow> 'e + ('a list \<times> 'r)" where
  "read_n 0 item r = Inr ([], r)"
| "read_n (Suc n) item r =
     rbind (item r) (\<lambda>(x, r1). rbind (read_n n item r1) (\<lambda>(xs, r2). Inr (x # xs, r2)))"

section \<open>Byte strings and their integers\<close>

text \<open>The low byte of a value: Rust's \<open>as u8\<close>.\<close>

definition byte :: "nat \<Rightarrow> u8" where
  "byte n = word_of_nat n"

text \<open>The \<open>n\<close> low bytes of a value, least significant first, and the value of such bytes.\<close>

fun le_bytes :: "nat \<Rightarrow> nat \<Rightarrow> bytes" where
  "le_bytes 0 v = []"
| "le_bytes (Suc n) v = byte v # le_bytes n (v div 256)"

fun le_val :: "bytes \<Rightarrow> nat" where
  "le_val [] = 0"
| "le_val (b # bs) = unat b + 256 * le_val bs"

definition be_bytes :: "nat \<Rightarrow> nat \<Rightarrow> bytes" where
  "be_bytes n v = rev (le_bytes n v)"

definition be_val :: "bytes \<Rightarrow> nat" where
  "be_val bs = le_val (rev bs)"

text \<open>\<open>slice.get(at..at + n)\<close>: the \<open>n\<close> elements at \<open>at\<close>, if the slice holds them.\<close>

definition slice :: "'a list \<Rightarrow> nat \<Rightarrow> nat \<Rightarrow> 'a list option" where
  "slice xs at n = (if at + n \<le> length xs then Some (take n (drop at xs)) else None)"

text \<open>\<open>v.next_multiple_of(m)\<close>\<close>

definition next_multiple_of :: "nat \<Rightarrow> nat \<Rightarrow> nat" where
  "next_multiple_of v m = (v + m - 1) div m * m"

text \<open>\<open>copy_from_slice\<close>, and the raw copies of the sources: \<open>src\<close> overwrites \<open>dst\<close> from \<open>at\<close> on.\<close>

definition overwrite :: "'a list \<Rightarrow> nat \<Rightarrow> 'a list \<Rightarrow> 'a list" where
  "overwrite dst at src = take at dst @ src @ drop (at + length src) dst"

section \<open>Facts about results\<close>

lemma rbind_Inr_iff [result_simps]: "rbind r f = Inr y \<longleftrightarrow> (\<exists>x. r = Inr x \<and> f x = Inr y)"
  by (cases r) auto

lemma rbind_Inl_iff: "rbind r f = Inl e \<longleftrightarrow> r = Inl e \<or> (\<exists>x. r = Inr x \<and> f x = Inl e)"
  by (cases r) auto

lemma rmap_Inr_iff [result_simps]: "rmap f r = Inr y \<longleftrightarrow> (\<exists>x. r = Inr x \<and> y = f x)"
  by (cases r) auto

lemma ok_or_Inr_iff [result_simps]: "ok_or e m = Inr x \<longleftrightarrow> m = Some x"
  by (cases m) auto

lemma ok_or_Inl_iff [simp]: "ok_or e m = Inl e' \<longleftrightarrow> m = None \<and> e' = e"
  by (cases m) auto

lemma rbind_cong [fundef_cong]:
  "r = r' \<Longrightarrow> (\<And>x. r' = Inr x \<Longrightarrow> f x = f' x) \<Longrightarrow> rbind r f = rbind r' f'"
  by (cases r') auto

lemma is_ok_iff: "is_ok r \<longleftrightarrow> (\<exists>x. r = Inr x)"
  by (cases r) auto

lemma rbind_case_prod_simp [simp]: "rbind (Inr (x, y)) (\<lambda>(a, b). f a b) = f x y"
  by simp

lemma read_n_length: "read_n n item r = Inr (xs, r') \<Longrightarrow> length xs = n"
  by (induction n arbitrary: r xs) (auto simp: result_simps)

text \<open>A loop over items that were written one after the other reads them back.\<close>

lemma read_n_written:
  assumes "\<And>x rest. x \<in> set xs \<Longrightarrow> item (R (enc x @ rest)) = Inr (x, R rest)"
  shows "read_n (length xs) item (R (concat (map enc xs) @ rest)) = Inr (xs, R rest)"
  using assms by (induction xs) auto

section \<open>Facts about byte strings\<close>

lemma unat_u8_less [simp]: "unat (b :: u8) < 256"
  using unsigned_less [of b] by simp

lemma unat_u16_less [simp]: "unat (b :: u16) < 65536"
  using unsigned_less [of b] by simp

lemma unat_u32_less [simp]: "unat (b :: u32) < 4294967296"
  using unsigned_less [of b] by simp

lemma unat_u64_less [simp]: "unat (b :: u64) < 18446744073709551616"
  using unsigned_less [of b] by simp

lemma unat_byte: "unat (byte n) = n mod 256"
  by (simp add: byte_def unat_of_nat)

lemma unat_byte_small [simp]: "n < 256 \<Longrightarrow> unat (byte n) = n"
  by (simp add: unat_byte)

lemma byte_unat [simp]: "byte (unat b) = b"
  by (simp add: byte_def)

lemma length_le_bytes [simp, wire_simps]: "length (le_bytes n v) = n"
  by (induction n arbitrary: v) auto

lemma length_be_bytes [simp, wire_simps]: "length (be_bytes n v) = n"
  by (simp add: be_bytes_def)

lemma le_val_bound: "le_val bs < 256 ^ length bs"
proof (induction bs)
  case Nil
  then show ?case by simp
next
  case (Cons b bs)
  have "unat b < 256" by simp
  moreover have "256 * le_val bs + 256 \<le> 256 * 256 ^ length bs"
    using Cons.IH by simp
  ultimately show ?case unfolding le_val.simps length_Cons power_Suc by linarith
qed

lemma be_val_bound: "be_val bs < 256 ^ length bs"
  using le_val_bound [of "rev bs"] by (simp add: be_val_def)

lemma le_val_le_bytes: "le_val (le_bytes n v) = v mod 256 ^ n"
proof (induction n arbitrary: v)
  case 0
  then show ?case by simp
next
  case (Suc n)
  have "v mod (256 * 256 ^ n) = 256 * (v div 256 mod 256 ^ n) + v mod 256"
    by (rule mod_mult2_eq)
  with Suc show ?case by (simp add: unat_byte)
qed

lemma le_val_le_bytes_small [simp, wire_simps]: "v < 256 ^ n \<Longrightarrow> le_val (le_bytes n v) = v"
  by (simp add: le_val_le_bytes)

lemma be_val_be_bytes [simp, wire_simps]: "v < 256 ^ n \<Longrightarrow> be_val (be_bytes n v) = v"
  by (simp add: be_val_def be_bytes_def)

lemma le_bytes_le_val [simp]: "le_bytes (length bs) (le_val bs) = bs"
proof (induction bs)
  case Nil
  then show ?case by simp
next
  case (Cons b bs)
  have less: "unat b < 256" by simp
  then have "(unat b + 256 * le_val bs) div 256 = le_val bs" by simp
  moreover have "byte (unat b + 256 * le_val bs) = b"
    by (rule word_unat_eq_iff [THEN iffD2]) (simp add: unat_byte)
  ultimately show ?case using Cons.IH by simp
qed

lemma unat_of_le_bytes [simp]:
  "(word_of_nat (le_val (le_bytes 2 (unat (x :: u16)))) :: u16) = x"
  "(word_of_nat (le_val (le_bytes 4 (unat (y :: u32)))) :: u32) = y"
  "(word_of_nat (le_val (le_bytes 8 (unat (z :: u64)))) :: u64) = z"
  by simp_all

lemma word_of_nat_mod: "(word_of_nat (v mod 2 ^ LENGTH('a)) :: 'a::len word) = word_of_nat v"
  by (simp add: word_of_nat_eq_iff take_bit_eq_mod)

lemma list_of_2: "length xs = 2 \<Longrightarrow> xs = [xs ! 0, xs ! 1]"
  by (auto simp: numeral_2_eq_2 length_Suc_conv)

lemma list_of_4: "length xs = 4 \<Longrightarrow> xs = [xs ! 0, xs ! 1, xs ! 2, xs ! 3]"
  by (auto simp: eval_nat_numeral length_Suc_conv)

section \<open>Facts about lists\<close>

lemma slice_append [simp]: "slice (xs @ ys) (length xs) n = slice ys 0 n"
  by (simp add: slice_def)

lemma slice_prefix: "length xs = n \<Longrightarrow> slice (xs @ ys) 0 n = Some xs"
  by (simp add: slice_def)

lemma slice_Some_iff:
  "slice xs at n = Some ys \<longleftrightarrow> at + n \<le> length xs \<and> ys = take n (drop at xs)"
  by (auto simp: slice_def)

lemma slice_length: "slice xs at n = Some ys \<Longrightarrow> length ys = n"
  by (auto simp: slice_def split: if_splits)

lemma length_overwrite [simp]: "at + length src \<le> length dst \<Longrightarrow> length (overwrite dst at src) = length dst"
  by (simp add: overwrite_def)

lemma overwrite_read: 
  "at + length src \<le> length dst \<Longrightarrow> take (length src) (drop at (overwrite dst at src)) = src"
  by (simp add: overwrite_def)

lemma overwrite_nth_outside:
  assumes "at + length src \<le> length dst" "i < length dst" "i < at \<or> at + length src \<le> i"
  shows "overwrite dst at src ! i = dst ! i"
  using assms by (auto simp: overwrite_def nth_append)

lemma next_multiple_of_ge: "0 < m \<Longrightarrow> v \<le> next_multiple_of v m"
proof -
  assume m: "0 < m"
  have "v + m - 1 < (v + m - 1) div m * m + m"
    using m by (metis div_mult_mod_eq mod_less_divisor nat_add_left_cancel_less)
  then show ?thesis using m by (simp add: next_multiple_of_def)
qed

lemma next_multiple_of_less: "0 < m \<Longrightarrow> next_multiple_of v m < v + m"
  unfolding next_multiple_of_def
  by (rule le_less_trans [OF div_times_less_eq_dividend]) simp

lemma next_multiple_of_dvd [simp]: "m dvd next_multiple_of v m"
  by (simp add: next_multiple_of_def)

end
