(* ===== verification/Utf8.thy ===== *)
theory Utf8
  imports Prelude
begin

text \<open>
  Rust's \<open>char\<close> and \<open>str\<close>: a character is a Unicode scalar value, a string the list of its characters, and
  \<open>to_utf8\<close> the bytes it takes. \<open>utf8_next\<close> is one step of \<open>core::str::from_utf8\<close>'s validation, with the
  three outcomes its \<open>Utf8Error\<close> distinguishes: a whole character, \<open>error_len() = Some n\<close>, and
  \<open>error_len() = None\<close> (the input ends inside a character).
\<close>

type_synonym scalar = nat
type_synonym str = "scalar list"

definition is_scalar :: "nat \<Rightarrow> bool" where
  "is_scalar c \<longleftrightarrow> c < 0xD800 \<or> 0xE000 \<le> c \<and> c < 0x110000"

definition str_ok :: "str \<Rightarrow> bool" where
  "str_ok s \<longleftrightarrow> list_all is_scalar s"

definition encode_utf8 :: "scalar \<Rightarrow> bytes" where
  "encode_utf8 c =
     (if c < 0x80 then [byte c]
      else if c < 0x800 then [byte (0xC0 + c div 64), byte (0x80 + c mod 64)]
      else if c < 0x10000 then
        [byte (0xE0 + c div 4096), byte (0x80 + c div 64 mod 64), byte (0x80 + c mod 64)]
      else
        [byte (0xF0 + c div 262144), byte (0x80 + c div 4096 mod 64),
         byte (0x80 + c div 64 mod 64), byte (0x80 + c mod 64)])"

definition to_utf8 :: "str \<Rightarrow> bytes" where
  "to_utf8 s = concat (map encode_utf8 s)"

datatype scan = Whole scalar nat | Broken nat | Cut

definition cont :: "nat \<Rightarrow> bool" where
  "cont b \<longleftrightarrow> 0x80 \<le> b \<and> b < 0xC0"

definition second3 :: "nat \<Rightarrow> nat \<Rightarrow> bool" where
  "second3 b0 b1 \<longleftrightarrow> cont b1 \<and> (b0 = 0xE0 \<longrightarrow> 0xA0 \<le> b1) \<and> (b0 = 0xED \<longrightarrow> b1 < 0xA0)"

definition second4 :: "nat \<Rightarrow> nat \<Rightarrow> bool" where
  "second4 b0 b1 \<longleftrightarrow> cont b1 \<and> (b0 = 0xF0 \<longrightarrow> 0x90 \<le> b1) \<and> (b0 = 0xF4 \<longrightarrow> b1 < 0x90)"

fun scan2 :: "nat \<Rightarrow> nat list \<Rightarrow> scan" where
  "scan2 b0 [] = Cut"
| "scan2 b0 (b1 # _) = (if cont b1 then Whole ((b0 - 0xC0) * 64 + (b1 - 0x80)) 2 else Broken 1)"

fun scan3 :: "nat \<Rightarrow> nat list \<Rightarrow> scan" where
  "scan3 b0 [] = Cut"
| "scan3 b0 (b1 # bs) =
     (if \<not> second3 b0 b1 then Broken 1
      else (case bs of [] \<Rightarrow> Cut
            | b2 # _ \<Rightarrow> if cont b2 then Whole ((b0 - 0xE0) * 4096 + (b1 - 0x80) * 64 + (b2 - 0x80)) 3
                        else Broken 2))"

fun scan4 :: "nat \<Rightarrow> nat list \<Rightarrow> scan" where
  "scan4 b0 [] = Cut"
| "scan4 b0 (b1 # bs) =
     (if \<not> second4 b0 b1 then Broken 1
      else (case bs of [] \<Rightarrow> Cut
            | b2 # bs' \<Rightarrow>
                if \<not> cont b2 then Broken 2
                else (case bs' of [] \<Rightarrow> Cut
                      | b3 # _ \<Rightarrow>
                          if cont b3
                          then Whole ((b0 - 0xF0) * 262144 + (b1 - 0x80) * 4096 + (b2 - 0x80) * 64 + (b3 - 0x80)) 4
                          else Broken 3)))"

fun scan_nats :: "nat list \<Rightarrow> scan" where
  "scan_nats [] = Cut"
| "scan_nats (b0 # bs) =
     (if b0 < 0x80 then Whole b0 1
      else if 0xC2 \<le> b0 \<and> b0 < 0xE0 then scan2 b0 bs
      else if 0xE0 \<le> b0 \<and> b0 < 0xF0 then scan3 b0 bs
      else if 0xF0 \<le> b0 \<and> b0 < 0xF5 then scan4 b0 bs
      else Broken 1)"

definition utf8_next :: "bytes \<Rightarrow> scan" where
  "utf8_next bs = scan_nats (map unat (take 4 bs))"

text \<open>\<open>String::from_utf8\<close>\<close>

function from_utf8 :: "bytes \<Rightarrow> str option" where
  "from_utf8 bs =
     (if bs = [] then Some []
      else (case utf8_next bs of
              Whole c n \<Rightarrow> (if n = 0 then None else map_option (\<lambda>cs. c # cs) (from_utf8 (drop n bs)))
            | Broken n \<Rightarrow> None
            | Cut \<Rightarrow> None))"
  by pat_completeness auto
termination
  by (relation "measure length") auto

declare from_utf8.simps [simp del]

section \<open>One character\<close>

lemma length_encode_utf8: "0 < length (encode_utf8 c)" "length (encode_utf8 c) \<le> 4"
  by (auto simp: encode_utf8_def)

lemma encode_utf8_not_Nil [simp]: "encode_utf8 c \<noteq> []"
  by (simp add: encode_utf8_def)

lemma take4_append: "take 4 (encode_utf8 c @ rest) = encode_utf8 c @ take (4 - length (encode_utf8 c)) rest"
  using length_encode_utf8 [of c] by simp

text \<open>Encoding a character and scanning it gives the character back, whatever follows.\<close>

lemma scan_encode_small:
  assumes "c < 0x800"
  shows "scan_nats (map unat (encode_utf8 c) @ r) = Whole c (length (encode_utf8 c))"
proof (cases "c < 0x80")
  case True
  then show ?thesis by (simp add: encode_utf8_def)
next
  case False
  have "c div 64 < 32" "2 \<le> c div 64" using assms False by auto
  moreover have "c mod 64 < 64" by simp
  ultimately show ?thesis using False assms by (simp add: encode_utf8_def cont_def)
qed

lemma div_64_parts:
  "c div 4096 * 64 + c div 64 mod 64 = (c div 64 :: nat)" "c div 64 * 64 + c mod 64 = c"
  "c div 262144 * 64 + c div 4096 mod 64 = c div 4096"
  using div_mult_mod_eq [of "c div 64" 64] div_mult2_eq [of c 64 64]
    div_mult_mod_eq [of "c div 4096" 64] div_mult2_eq [of c 4096 64] by simp_all

lemma scan_encode_3:
  assumes "0x800 \<le> c" "c < 0x10000" "is_scalar c"
  shows "scan_nats (map unat (encode_utf8 c) @ r) = Whole c 3"
proof -
  have lows: "c div 64 mod 64 < 64" "c mod 64 < 64" by simp_all
  have val: "c div 4096 * 4096 + c div 64 mod 64 * 64 + c mod 64 = c"
    using div_64_parts [of c] by linarith
  have hi: "c div 4096 < 16" using assms val by linarith
  have e0: "32 \<le> c div 64 mod 64" if "c div 4096 = 0"
    using that assms val lows by linarith
  have ed: "c div 64 mod 64 < 32" if "c div 4096 = 13"
  proof -
    have "c < 0xE000" using that val lows by linarith
    then have "c < 0xD800" using assms(3) unfolding is_scalar_def by linarith
    then show ?thesis using that val by linarith
  qed
  have "second3 (0xE0 + c div 4096) (0x80 + c div 64 mod 64)"
    using e0 ed lows by (auto simp: second3_def cont_def)
  moreover have "encode_utf8 c =
      [byte (0xE0 + c div 4096), byte (0x80 + c div 64 mod 64), byte (0x80 + c mod 64)]"
    using assms by (simp add: encode_utf8_def)
  ultimately show ?thesis using hi lows val by (simp add: cont_def)
qed

lemma scan_encode_4:
  assumes "0x10000 \<le> c" "is_scalar c"
  shows "scan_nats (map unat (encode_utf8 c) @ r) = Whole c 4"
proof -
  have lows: "c div 4096 mod 64 < 64" "c div 64 mod 64 < 64" "c mod 64 < 64" by simp_all
  have val: "c div 262144 * 262144 + c div 4096 mod 64 * 4096 + c div 64 mod 64 * 64 + c mod 64 = c"
    using div_64_parts [of c] by linarith
  have lim: "c < 0x110000" using assms unfolding is_scalar_def by linarith
  then have hi: "c div 262144 \<le> 4" using val by linarith
  have f0: "16 \<le> c div 4096 mod 64" if "c div 262144 = 0" using that assms val lows by linarith
  have f4: "c div 4096 mod 64 < 16" if "c div 262144 = 4" using that lim val by linarith
  have "second4 (0xF0 + c div 262144) (0x80 + c div 4096 mod 64)"
    using f0 f4 lows by (auto simp: second4_def cont_def)
  then show ?thesis using assms hi lows val by (simp add: encode_utf8_def cont_def)
qed

lemma scan_encode:
  assumes "is_scalar c"
  shows "scan_nats (map unat (encode_utf8 c) @ r) = Whole c (length (encode_utf8 c))"
proof -
  consider "c < 0x800" | "0x800 \<le> c" "c < 0x10000" | "0x10000 \<le> c" by linarith
  then show ?thesis
  proof cases
    case 1
    then show ?thesis by (rule scan_encode_small)
  next
    case 2
    then have "length (encode_utf8 c) = 3" by (simp add: encode_utf8_def)
    with 2 show ?thesis using scan_encode_3 [OF _ _ assms] by simp
  next
    case 3
    then have "length (encode_utf8 c) = 4" by (simp add: encode_utf8_def)
    with 3 show ?thesis using scan_encode_4 [OF _ assms] by simp
  qed
qed

lemma utf8_next_encode [simp]:
  assumes "is_scalar c"
  shows "utf8_next (encode_utf8 c @ rest) = Whole c (length (encode_utf8 c))"
  unfolding utf8_next_def take4_append map_append by (rule scan_encode [OF assms])

section \<open>Strings\<close>

lemma to_utf8_simps [simp]:
  "to_utf8 [] = []"
  "to_utf8 (c # s) = encode_utf8 c @ to_utf8 s"
  "to_utf8 (s @ t) = to_utf8 s @ to_utf8 t"
  by (simp_all add: to_utf8_def)

lemma str_ok_simps [simp]:
  "str_ok []"
  "str_ok (c # s) \<longleftrightarrow> is_scalar c \<and> str_ok s"
  "str_ok (s @ t) \<longleftrightarrow> str_ok s \<and> str_ok t"
  by (simp_all add: str_ok_def)

lemma from_utf8_to_utf8 [simp]: "str_ok s \<Longrightarrow> from_utf8 (to_utf8 s) = Some s"
proof (induction s)
  case Nil
  then show ?case by (simp add: from_utf8.simps)
next
  case (Cons c s)
  then show ?case
    using length_encode_utf8 [of c] by (subst from_utf8.simps) simp
qed

end
