(* ===== verification/Sbe.thy ===== *)
theory Sbe
  imports Utf8
begin

text \<open>
  The daemon's wire format, \<open>serve/sbe.rs\<close>: the bounds-checked \<open>Reader\<close> over a message, the fixed \<open>Block\<close>
  it hands out, and the \<open>Writer\<close> and \<open>Fields\<close> that build messages. A Rust \<open>String\<close> is the list of its
  characters (\<open>Utf8.str\<close>); an \<open>f32\<close> field is its bits. The locale \<open>wire_codec\<close> is the contract between
  what one side writes and the other reads; \<open>wire_reader\<close> the bounds every reading function keeps.
\<close>

section \<open>Definitions\<close>

definition SCHEMA :: u16 where "SCHEMA = 7"

definition VERSION :: u16 where "VERSION = 1"

record blob =
  blob_offset :: u64
  blob_length :: u64

record reader =
  rd_bytes :: bytes
  rd_at :: nat

datatype bad = Bad

text \<open>A fixed block is a newtype around its bytes.\<close>

type_synonym block = bytes

text \<open>\<open>u16_at\<close> and \<open>u32_at\<close> index a slice that every caller has cut to a length that holds the field.\<close>

definition u16_at :: "bytes \<Rightarrow> nat \<Rightarrow> u16" where
  "u16_at b at = word_of_nat (le_val [b ! at, b ! (at + 1)])"

definition u32_at :: "bytes \<Rightarrow> nat \<Rightarrow> u32" where
  "u32_at b at = word_of_nat (le_val [b ! at, b ! (at + 1), b ! (at + 2), b ! (at + 3)])"

definition rd_take :: "reader \<Rightarrow> nat \<Rightarrow> bad + (bytes \<times> reader)" where
  "rd_take r n =
     (if rd_at r + n \<ge> 2 ^ 64 then Inl Bad
      else (case slice (rd_bytes r) (rd_at r) n of
              None \<Rightarrow> Inl Bad
            | Some out \<Rightarrow> Inr (out, r\<lparr>rd_at := rd_at r + n\<rparr>)))"

definition rd_open :: "bytes \<Rightarrow> bad + (u16 \<times> block \<times> reader)" where
  "rd_open bs =
     rbind (rd_take \<lparr>rd_bytes = bs, rd_at = 0\<rparr> 8) (\<lambda>(head, r).
       if u16_at head 4 \<noteq> SCHEMA then Inl Bad
       else rbind (rd_take r (unat (u16_at head 0))) (\<lambda>(block, r). Inr (u16_at head 2, block, r)))"

definition rd_group :: "reader \<Rightarrow> bad + ((nat \<times> nat) \<times> reader)" where
  "rd_group r = rbind (rd_take r 4) (\<lambda>(h, r). Inr ((unat (u16_at h 0), unat (u16_at h 2)), r))"

definition rd_entry :: "nat \<Rightarrow> reader \<Rightarrow> bad + (block \<times> reader)" where
  "rd_entry len r = rd_take r len"

definition rd_text :: "reader \<Rightarrow> bad + (str \<times> reader)" where
  "rd_text r =
     rbind (rd_take r 4) (\<lambda>(h, r).
     rbind (rd_take r (unat (u32_at h 0))) (\<lambda>(t, r).
     rbind (ok_or Bad (from_utf8 t)) (\<lambda>s. Inr (s, r))))"

definition blk_u8 :: "block \<Rightarrow> nat \<Rightarrow> bad + u8" where
  "blk_u8 b at = (if at < length b then Inr (b ! at) else Inl Bad)"

definition blk_u32 :: "block \<Rightarrow> nat \<Rightarrow> bad + u32" where
  "blk_u32 b at = rmap (\<lambda>x. u32_at x 0) (ok_or Bad (slice b at 4))"

definition blk_u64 :: "block \<Rightarrow> nat \<Rightarrow> bad + u64" where
  "blk_u64 b at = rmap (\<lambda>x. word_of_nat (le_val x)) (ok_or Bad (slice b at 8))"

definition blk_f32 :: "block \<Rightarrow> nat \<Rightarrow> bad + u32" where
  "blk_f32 b at = blk_u32 b at"

definition blk_blob :: "block \<Rightarrow> nat \<Rightarrow> bad + blob" where
  "blk_blob b at =
     rbind (blk_u64 b at) (\<lambda>off. rbind (blk_u64 b (at + 8)) (\<lambda>len.
       Inr \<lparr>blob_offset = off, blob_length = len\<rparr>))"

text \<open>Writing: \<open>as u16\<close> and \<open>as u32\<close> truncate, which \<open>le_bytes\<close> does too.\<close>

definition wr_new :: "u16 \<Rightarrow> bytes \<Rightarrow> bytes" where
  "wr_new template block =
     le_bytes 2 (length block) @ le_bytes 2 (unat template) @ le_bytes 2 (unat SCHEMA) @ le_bytes 2 (unat VERSION)
       @ block"

definition wr_group :: "nat \<Rightarrow> nat \<Rightarrow> bytes \<Rightarrow> bytes" where
  "wr_group len count w = w @ le_bytes 2 len @ le_bytes 2 count"

definition wr_bytes :: "bytes \<Rightarrow> bytes \<Rightarrow> bytes" where
  "wr_bytes b w = w @ b"

definition wr_text :: "str \<Rightarrow> bytes \<Rightarrow> bytes" where
  "wr_text t w = w @ le_bytes 4 (length (to_utf8 t)) @ to_utf8 t"

definition f_u64 :: "u64 \<Rightarrow> bytes \<Rightarrow> bytes" where
  "f_u64 v f = f @ le_bytes 8 (unat v)"

definition f_u32 :: "u32 \<Rightarrow> bytes \<Rightarrow> bytes" where
  "f_u32 v f = f @ le_bytes 4 (unat v)"

definition f_u16 :: "u16 \<Rightarrow> bytes \<Rightarrow> bytes" where
  "f_u16 v f = f @ le_bytes 2 (unat v)"

definition f_u8 :: "u8 \<Rightarrow> bytes \<Rightarrow> bytes" where
  "f_u8 v f = f @ [v]"

text \<open>The pieces of a message as the writer appends them, and a reader's position.\<close>

abbreviation group_bytes :: "nat \<Rightarrow> nat \<Rightarrow> bytes" where
  "group_bytes len count \<equiv> wr_group len count []"

abbreviation text_bytes :: "str \<Rightarrow> bytes" where
  "text_bytes t \<equiv> wr_text t []"

definition text_ok :: "str \<Rightarrow> bool" where
  "text_ok t \<longleftrightarrow> str_ok t \<and> length (to_utf8 t) < 2 ^ 32"

definition rd_ok :: "reader \<Rightarrow> bool" where
  "rd_ok r \<longleftrightarrow> rd_at r \<le> length (rd_bytes r) \<and> length (rd_bytes r) < 2 ^ 63"

definition rd_ahead :: "reader \<Rightarrow> bytes" where
  "rd_ahead r = drop (rd_at r) (rd_bytes r)"

definition rd_skip :: "nat \<Rightarrow> reader \<Rightarrow> reader" where
  "rd_skip n r = r\<lparr>rd_at := rd_at r + n\<rparr>"

definition rd_moved :: "reader \<Rightarrow> reader \<Rightarrow> bool" where
  "rd_moved r r' \<longleftrightarrow> rd_ok r' \<and> rd_bytes r' = rd_bytes r \<and> rd_at r \<le> rd_at r'"

section \<open>The reader's bounds\<close>

lemma rd_moved_trans [trans]: "rd_moved r r1 \<Longrightarrow> rd_moved r1 r2 \<Longrightarrow> rd_moved r r2"
  by (simp add: rd_moved_def)

lemma rd_moved_ok: "rd_moved r r' \<Longrightarrow> rd_ok r'"
  by (simp add: rd_moved_def)

text \<open>
  A reading function only moves forward, never past the message's end, and leaves the bytes alone. The loop
  \<open>read_n\<close> over such a function is one again.
\<close>

locale wire_reader =
  fixes dec :: "reader \<Rightarrow> bad + ('a \<times> reader)"
  assumes dec_within:
    "rd_ok r \<Longrightarrow> dec r = Inr (x, r') \<Longrightarrow> rd_moved r r'"
begin

lemma read_n_within: "rd_ok r \<Longrightarrow> read_n n dec r = Inr (xs, r') \<Longrightarrow> rd_moved r r'"
proof (induction n arbitrary: r xs)
  case 0
  then show ?case by (simp add: rd_moved_def)
next
  case (Suc n)
  from Suc.prems(2) obtain x r1 ys where step: "dec r = Inr (x, r1)" and rest: "read_n n dec r1 = Inr (ys, r')"
    by (auto simp: result_simps)
  have "rd_moved r r1" using Suc.prems(1) step by (rule dec_within)
  also have "rd_moved r1 r'" using rd_moved_ok [OF calculation] rest by (rule Suc.IH)
  finally show ?case .
qed

end

lemma rd_take_Inr:
  "rd_take r n = Inr (out, r') \<longleftrightarrow>
     rd_at r + n < 2 ^ 64 \<and> slice (rd_bytes r) (rd_at r) n = Some out \<and> r' = rd_skip n r"
  by (auto simp: rd_take_def rd_skip_def split: option.splits)

interpretation take_reader: wire_reader "\<lambda>r. rd_take r n" for n
  by unfold_locales (auto simp: rd_take_Inr slice_Some_iff rd_ok_def rd_skip_def rd_moved_def)

interpretation group_reader: wire_reader rd_group
  by unfold_locales (auto simp: rd_group_def result_simps dest: take_reader.dec_within)

interpretation entry_reader: wire_reader "rd_entry len" for len
  by unfold_locales (auto simp: rd_entry_def dest: take_reader.dec_within)

interpretation text_reader: wire_reader rd_text
proof
  fix r r' :: reader and s :: str
  assume ok: "rd_ok r" and run: "rd_text r = Inr (s, r')"
  then obtain h r1 t where one: "rd_take r 4 = Inr (h, r1)"
    and two: "rd_take r1 (unat (u32_at h 0)) = Inr (t, r')"
    by (auto simp: rd_text_def result_simps)
  have "rd_moved r r1" using ok one by (rule take_reader.dec_within)
  also have "rd_moved r1 r'" using rd_moved_ok [OF calculation] two by (rule take_reader.dec_within)
  finally show "rd_moved r r'" .
qed

section \<open>Reading back what was written\<close>

lemma rd_ahead_skip [wire_simps]: "rd_ahead (rd_skip n r) = drop n (rd_ahead r)"
  by (simp add: rd_ahead_def rd_skip_def add.commute)

lemma rd_skip_skip [wire_simps]: "rd_skip m (rd_skip n r) = rd_skip (n + m) r"
  by (simp add: rd_skip_def add.assoc)

lemma rd_ok_skip: "rd_ok r \<Longrightarrow> n \<le> length (rd_ahead r) \<Longrightarrow> rd_ok (rd_skip n r)"
  by (auto simp: rd_ok_def rd_skip_def rd_ahead_def)

lemma rd_ok_skip_prefix: "rd_ok r \<Longrightarrow> rd_ahead r = xs @ ys \<Longrightarrow> rd_ok (rd_skip (length xs) r)"
  by (simp add: rd_ok_skip)

text \<open>
  The contract between a writer and a reader of one kind of item: positioned before an item's bytes, the reader
  gives the item back and stands right after them. Written one after the other, items read back one after the
  other.
\<close>

locale wire_codec =
  fixes enc :: "'a \<Rightarrow> bytes" and dec :: "reader \<Rightarrow> bad + ('a \<times> reader)" and valid :: "'a \<Rightarrow> bool"
  assumes dec_enc:
    "rd_ok r \<Longrightarrow> valid x \<Longrightarrow> rd_ahead r = enc x @ rest \<Longrightarrow> dec r = Inr (x, rd_skip (length (enc x)) r)"
begin

lemma dec_step:
  assumes "rd_ok r" "valid x" "rd_ahead r = enc x @ rest"
  obtains r' where "dec r = Inr (x, r')" "r' = rd_skip (length (enc x)) r" "rd_ok r'" "rd_ahead r' = rest"
  using that dec_enc [OF assms] rd_ok_skip_prefix [OF assms(1,3)] assms(3) by (simp add: rd_ahead_skip)

lemma read_n_enc:
  assumes "rd_ok r" "list_all valid xs" "rd_ahead r = concat (map enc xs) @ rest"
  shows "read_n (length xs) dec r = Inr (xs, rd_skip (length (concat (map enc xs))) r)"
  using assms
proof (induction xs arbitrary: r)
  case Nil
  then show ?case by (simp add: rd_skip_def)
next
  case (Cons x xs)
  have ahead: "rd_ahead r = enc x @ (concat (map enc xs) @ rest)" and valid: "valid x"
    using Cons.prems by simp_all
  obtain r' where r': "dec r = Inr (x, r')" "r' = rd_skip (length (enc x)) r" "rd_ok r'"
    "rd_ahead r' = concat (map enc xs) @ rest"
    using Cons.prems(1) valid ahead by (rule dec_step)
  then have "read_n (length xs) dec r' = Inr (xs, rd_skip (length (concat (map enc xs))) r')"
    using Cons by simp
  then show ?case using r'(1,2) by (simp add: rd_skip_skip)
qed

lemma read_n_step:
  assumes "rd_ok r" "list_all valid xs" "rd_ahead r = concat (map enc xs) @ rest"
  obtains r' where "read_n (length xs) dec r = Inr (xs, r')" "r' = rd_skip (length (concat (map enc xs))) r"
    "rd_ok r'" "rd_ahead r' = rest"
  using that read_n_enc [OF assms] rd_ok_skip_prefix [OF assms(1,3)] assms(3) by (simp add: rd_ahead_skip)

end

lemma rd_take_ahead:
  assumes "rd_ok r" "rd_ahead r = xs @ rest" "length xs = n"
  shows "rd_take r n = Inr (xs, rd_skip n r)"
proof -
  have "length (rd_ahead r) = n + length rest" using assms by simp
  then have len: "rd_at r + n \<le> length (rd_bytes r)"
    using assms(1) unfolding rd_ahead_def rd_ok_def length_drop by linarith
  moreover have "take n (drop (rd_at r) (rd_bytes r)) = xs" using assms by (simp add: rd_ahead_def)
  ultimately show ?thesis using assms(1) by (simp add: rd_take_Inr slice_Some_iff rd_ok_def)
qed

lemma u16_at_field [wire_simps]:
  assumes "length pre = at"
  shows "u16_at (pre @ le_bytes 2 m @ rest) at = word_of_nat m"
proof -
  have "[(pre @ le_bytes 2 m @ rest) ! at, (pre @ le_bytes 2 m @ rest) ! (at + 1)] = le_bytes 2 m"
    using list_of_2 [of "le_bytes 2 m"] assms by (simp add: nth_append)
  then show ?thesis
    using word_of_nat_mod [of m, where 'a = 16] by (simp add: u16_at_def le_val_le_bytes)
qed

lemma u32_at_field [wire_simps]:
  assumes "length pre = at"
  shows "u32_at (pre @ le_bytes 4 m @ rest) at = word_of_nat m"
proof -
  let ?b = "pre @ le_bytes 4 m @ rest"
  have "[?b ! at, ?b ! (at + 1), ?b ! (at + 2), ?b ! (at + 3)] = le_bytes 4 m"
    using list_of_4 [of "le_bytes 4 m"] assms by (simp add: nth_append)
  then show ?thesis
    using word_of_nat_mod [of m, where 'a = 32] by (simp add: u32_at_def le_val_le_bytes)
qed

lemma unat_word_of_nat_u16: "m < 65536 \<Longrightarrow> unat (word_of_nat m :: u16) = m"
  by (simp add: unat_of_nat)

lemma unat_word_of_nat_u32: "m < 4294967296 \<Longrightarrow> unat (word_of_nat m :: u32) = m"
  by (simp add: unat_of_nat)

interpretation text_codec: wire_codec text_bytes rd_text text_ok
proof
  fix r :: reader and t :: str and rest :: bytes
  assume ok: "rd_ok r" and valid: "text_ok t" and ahead: "rd_ahead r = text_bytes t @ rest"
  let ?n = "length (to_utf8 t)"
  have head: "rd_take r 4 = Inr (le_bytes 4 ?n, rd_skip 4 r)"
    using ahead by (intro rd_take_ahead [OF ok, where rest = "to_utf8 t @ rest"]) (simp_all add: wr_text_def)
  have ok1: "rd_ok (rd_skip 4 r)"
    using ahead by (intro rd_ok_skip [OF ok]) (simp add: wr_text_def)
  have body: "rd_take (rd_skip 4 r) ?n = Inr (to_utf8 t, rd_skip ?n (rd_skip 4 r))"
    using ahead by (intro rd_take_ahead [OF ok1, where rest = rest]) (simp_all add: wire_simps wr_text_def)
  have "unat (u32_at (le_bytes 4 ?n) 0) = ?n"
    using valid u32_at_field [of "[]" 0 ?n "[]"] by (simp add: text_ok_def unat_word_of_nat_u32)
  then show "rd_text r = Inr (t, rd_skip (length (text_bytes t)) r)"
    using head body valid by (simp add: rd_text_def text_ok_def wr_text_def wire_simps)
qed

interpretation group_codec: wire_codec "\<lambda>(len, count). group_bytes len count" rd_group
  "\<lambda>(len, count). len < 65536 \<and> count < 65536"
proof
  fix r :: reader and x :: "nat \<times> nat" and rest :: bytes
  assume ok: "rd_ok r" and valid: "case x of (len, count) \<Rightarrow> len < 65536 \<and> count < 65536"
    and ahead: "rd_ahead r = (case x of (len, count) \<Rightarrow> group_bytes len count) @ rest"
  obtain len count where x: "x = (len, count)" by (cases x)
  have "rd_take r 4 = Inr (le_bytes 2 len @ le_bytes 2 count, rd_skip 4 r)"
    using ahead by (intro rd_take_ahead [OF ok, where rest = rest]) (simp_all add: x wr_group_def)
  moreover have "unat (u16_at (le_bytes 2 len @ le_bytes 2 count) 0) = len"
    "unat (u16_at (le_bytes 2 len @ le_bytes 2 count) 2) = count"
    using valid u16_at_field [of "[]" 0 len] u16_at_field [of "le_bytes 2 len" 2 count "[]"]
    by (simp_all add: x unat_word_of_nat_u16)
  ultimately show "rd_group r = Inr (x, rd_skip (length (case x of (len, count) \<Rightarrow> group_bytes len count)) r)"
    by (simp add: rd_group_def x wr_group_def)
qed

interpretation entry_codec: wire_codec "\<lambda>b. b" "rd_entry len" "\<lambda>b. length b = len" for len
  by unfold_locales (auto simp: rd_entry_def intro: rd_take_ahead)

text \<open>Opening a message gives its template and block, the reader standing right after the block.\<close>

lemma rd_open_wr_new:
  assumes "length block < 65536" "length rest < 2 ^ 32"
  shows "rd_open (wr_new t block @ rest) =
    Inr (t, block, rd_skip (8 + length block) \<lparr>rd_bytes = wr_new t block @ rest, rd_at = 0\<rparr>)"
proof -
  let ?head = "le_bytes 2 (length block) @ le_bytes 2 (unat t) @ le_bytes 2 (unat SCHEMA) @ le_bytes 2 (unat VERSION)"
  let ?r = "\<lparr>rd_bytes = wr_new t block @ rest, rd_at = 0\<rparr>"
  have msg: "wr_new t block @ rest = ?head @ block @ rest" by (simp add: wr_new_def)
  have ok: "rd_ok ?r" using assms by (simp add: rd_ok_def wr_new_def)
  have head: "rd_take ?r 8 = Inr (?head, rd_skip 8 ?r)"
    by (intro rd_take_ahead [OF ok, where rest = "block @ rest"]) (simp_all add: rd_ahead_def msg)
  have ok1: "rd_ok (rd_skip 8 ?r)" by (intro rd_ok_skip [OF ok]) (simp add: rd_ahead_def msg)
  have body: "rd_take (rd_skip 8 ?r) (length block) = Inr (block, rd_skip (length block) (rd_skip 8 ?r))"
    by (intro rd_take_ahead [OF ok1, where rest = rest]) (simp_all add: rd_skip_def rd_ahead_def msg)
  have fields: "unat (u16_at ?head 0) = length block" "u16_at ?head 2 = t" "u16_at ?head 4 = SCHEMA"
    using assms u16_at_field [of "[]" 0 "length block"]
      u16_at_field [of "le_bytes 2 (length block)" 2 "unat t"]
      u16_at_field [of "le_bytes 2 (length block) @ le_bytes 2 (unat t)" 4 "unat SCHEMA"]
    by (simp_all add: unat_word_of_nat_u16)
  show ?thesis
    unfolding rd_open_def head using fields body by (simp add: wire_simps)
qed

text \<open>A block's fields, at the offsets where \<open>Fields\<close> put them.\<close>

lemma slice_field: "length pre = at \<Longrightarrow> length f = n \<Longrightarrow> slice (pre @ f @ rest) at n = Some f"
  by (simp add: slice_def)

lemma blk_u64_field [wire_simps]:
  assumes "length pre = at"
  shows "blk_u64 (pre @ le_bytes 8 (unat v) @ rest) at = Inr v"
  using assms by (simp add: blk_u64_def slice_field)

lemma blk_u32_field [wire_simps]:
  assumes "length pre = at"
  shows "blk_u32 (pre @ le_bytes 4 (unat v) @ rest) at = Inr v"
  using assms u32_at_field [of "[]" 0 "unat v" "[]"] by (simp add: blk_u32_def slice_field)

lemma blk_u8_field [wire_simps]:
  assumes "length pre = at"
  shows "blk_u8 (pre @ v # rest) at = Inr v"
  using assms by (simp add: blk_u8_def nth_append)

lemma blk_blob_field [wire_simps]:
  assumes "length pre = at"
  shows "blk_blob (pre @ le_bytes 8 (unat (blob_offset b)) @ le_bytes 8 (unat (blob_length b)) @ rest) at = Inr b"
proof -
  have "blk_u64 (pre @ le_bytes 8 (unat (blob_offset b)) @ le_bytes 8 (unat (blob_length b)) @ rest) (at + 8)
      = Inr (blob_length b)"
    using assms blk_u64_field [of "pre @ le_bytes 8 (unat (blob_offset b))" "at + 8"] by simp
  with assms show ?thesis by (simp add: blk_blob_def blk_u64_field)
qed

text \<open>Walking a block: a field that starts after the first piece is read from the rest.\<close>

lemma slice_walk: "length f \<le> at \<Longrightarrow> slice (f @ rest) at n = slice rest (at - length f) n"
  by (cases "at + n \<le> length f + length rest") (auto simp: slice_def)

lemma blk_u64_walk:
  "8 \<le> at \<Longrightarrow> blk_u64 (le_bytes 8 m @ rest) at = blk_u64 rest (at - 8)"
  "4 \<le> at \<Longrightarrow> blk_u64 (le_bytes 4 m @ rest) at = blk_u64 rest (at - 4)"
  "blk_u64 (le_bytes 8 m @ rest) 0 = Inr (word_of_nat m)"
  "blk_u64 (le_bytes 8 m) 0 = Inr (word_of_nat m)"
  using word_of_nat_mod [of m, where 'a = 64]
  by (simp_all add: blk_u64_def slice_walk slice_prefix slice_prefix [where ys = "[]", simplified] le_val_le_bytes)

lemma blk_u32_walk:
  "8 \<le> at \<Longrightarrow> blk_u32 (le_bytes 8 m @ rest) at = blk_u32 rest (at - 8)"
  "4 \<le> at \<Longrightarrow> blk_u32 (le_bytes 4 m @ rest) at = blk_u32 rest (at - 4)"
  "blk_u32 (le_bytes 4 m @ rest) 0 = Inr (word_of_nat m)"
  "blk_u32 (le_bytes 4 m) 0 = Inr (word_of_nat m)"
  using u32_at_field [of "[]" 0 m "[]"]
  by (simp_all add: blk_u32_def slice_walk slice_prefix slice_prefix [where ys = "[]", simplified])

lemma blk_u8_walk:
  "8 \<le> at \<Longrightarrow> blk_u8 (le_bytes 8 m @ rest) at = blk_u8 rest (at - 8)"
  "4 \<le> at \<Longrightarrow> blk_u8 (le_bytes 4 m @ rest) at = blk_u8 rest (at - 4)"
  "blk_u8 (v # rest) 0 = Inr v"
  by (auto simp: blk_u8_def nth_append)

lemmas blk_walk = blk_u64_walk blk_u32_walk blk_u8_walk

lemmas field_defs = f_u64_def f_u32_def f_u16_def f_u8_def

end
