(* ===== verification/Shm.thy ===== *)
theory Shm
  imports Sbe
begin

text \<open>
  A client's shared memory, \<open>serve/shm.rs\<close> and the reading side of \<open>serve/client.rs\<close>: the control block, the
  request area, the response ring and the data area of one mapping. The mapping is a store from addresses to
  bytes, so the ring's frames, the counters and the data area live in one memory and what one operation writes is
  visible to every other. System calls are parameters: \<open>os\<close> is the \<open>errno\<close> of the call that failed, if one did.
  The client runs at the same time as the daemon: what \<open>append\<close> sees of it while it waits is the list of its
  polls, each the tail word the client left and whether \<open>gone\<close> says it has gone. A finite list that runs out is a
  daemon still waiting (\<open>None\<close>).
\<close>

section \<open>Definitions\<close>

definition MAGIC :: u32 where "MAGIC = 0x59484354"
definition SHM_VERSION :: u32 where "SHM_VERSION = 1"
definition DOORBELL_REQUEST :: u8 where "DOORBELL_REQUEST = 1"
definition DOORBELL_CANCEL :: u8 where "DOORBELL_CANCEL = 2"
definition WRAP :: nat where "WRAP = 0xFFFFFFFF"
definition REQUEST :: nat where "REQUEST = 4096"
definition REQUEST_BYTES :: nat where "REQUEST_BYTES = 2 ^ 20"
definition RING_BYTES :: nat where "RING_BYTES = 2 ^ 20"
definition HEAD :: nat where "HEAD = 64"
definition SEQ :: nat where "SEQ = 128"
definition TAIL :: nat where "TAIL = 192"

text \<open>Where the ring and the data area start.\<close>

definition RING :: nat where "RING = REQUEST + REQUEST_BYTES"
definition DATA :: nat where "DATA = REQUEST + REQUEST_BYTES + RING_BYTES"

record shared =
  sh_mem :: "nat \<Rightarrow> u8"
  sh_size :: nat

text \<open>Raw stores and loads of the mapping: \<open>put\<close>, \<open>word\<close> and \<open>copy_nonoverlapping\<close>.\<close>

definition poke :: "nat \<Rightarrow> bytes \<Rightarrow> (nat \<Rightarrow> u8) \<Rightarrow> nat \<Rightarrow> u8" where
  "poke at bs m = (\<lambda>i. if at \<le> i \<and> i < at + length bs then bs ! (i - at) else m i)"

definition peek :: "nat \<Rightarrow> nat \<Rightarrow> (nat \<Rightarrow> u8) \<Rightarrow> bytes" where
  "peek at n m = map (\<lambda>i. m (at + i)) [0..<n]"

definition put :: "nat \<Rightarrow> bytes \<Rightarrow> shared \<Rightarrow> shared" where
  "put at bs s = s\<lparr>sh_mem := poke at bs (sh_mem s)\<rparr>"

definition load :: "nat \<Rightarrow> nat \<Rightarrow> shared \<Rightarrow> nat" where
  "load n at s = le_val (peek at n (sh_mem s))"

abbreviation store64 :: "nat \<Rightarrow> nat \<Rightarrow> shared \<Rightarrow> shared" where
  "store64 at v \<equiv> put at (le_bytes 8 v)"

abbreviation store32 :: "nat \<Rightarrow> nat \<Rightarrow> shared \<Rightarrow> shared" where
  "store32 at v \<equiv> put at (le_bytes 4 v)"

definition shared_new :: "nat option \<Rightarrow> nat \<Rightarrow> nat + shared" where
  "shared_new os data =
     (let size = REQUEST + REQUEST_BYTES + RING_BYTES + data;
          layout = [REQUEST, REQUEST_BYTES, REQUEST + REQUEST_BYTES, RING_BYTES,
                    REQUEST + REQUEST_BYTES + RING_BYTES, data];
          shm = \<lparr>sh_mem = (\<lambda>_. 0), sh_size = size\<rparr>;
          shm = store32 0 (unat MAGIC) shm;
          shm = store32 4 (unat SHM_VERSION) shm;
          shm = store64 8 size shm;
          shm = fold (\<lambda>(i, v). store64 (16 + 8 * i) v) (List.enumerate 0 layout) shm
      in case os of Some e \<Rightarrow> Inl e | None \<Rightarrow> Inr shm)"

definition request_area :: "shared \<Rightarrow> bytes" where
  "request_area s = peek REQUEST REQUEST_BYTES (sh_mem s)"

text \<open>\<open>Shared::data\<close>: the address of a range of the data area, if it is in it.\<close>

definition data_at :: "shared \<Rightarrow> u64 \<Rightarrow> u64 \<Rightarrow> nat option" where
  "data_at s offset len =
     (let end = unat offset + unat len
      in if end \<ge> 2 ^ 64 then None
         else if end \<le> sh_size s - DATA then Some (DATA + unat offset) else None)"

definition shm_read :: "shared \<Rightarrow> u64 \<Rightarrow> u64 \<Rightarrow> bytes option" where
  "shm_read s offset len = map_option (\<lambda>at. peek at (unat len) (sh_mem s)) (data_at s offset len)"

definition shm_write :: "shared \<Rightarrow> u64 \<Rightarrow> u64 \<Rightarrow> bytes \<Rightarrow> bool \<times> shared" where
  "shm_write s offset room bs =
     (case data_at s offset room of
        None \<Rightarrow> (False, s)
      | Some at \<Rightarrow> if length bs \<le> unat room then (True, put at bs s) else (False, s))"

definition frame_bytes :: "nat \<Rightarrow> nat" where
  "frame_bytes len = next_multiple_of (4 + len) 8"

definition ring_at :: "nat \<Rightarrow> nat" where
  "ring_at pos = RING + pos mod RING_BYTES"

definition ring_skip :: "nat \<Rightarrow> nat \<Rightarrow> nat" where
  "ring_skip at need = (if at mod RING_BYTES + need > RING_BYTES then RING_BYTES - at mod RING_BYTES else 0)"

text \<open>The waiting loop's test, in 64-bit arithmetic: whether \<open>end - tail\<close> bytes still exceed the ring.\<close>

definition ring_full :: "nat \<Rightarrow> nat \<Rightarrow> bool" where
  "ring_full end tail \<longleftrightarrow> (end + (2 ^ 64 - tail)) mod 2 ^ 64 > RING_BYTES"

fun ring_wait :: "nat \<Rightarrow> (nat \<times> bool) list \<Rightarrow> shared \<Rightarrow> (bool \<times> shared) option" where
  "ring_wait end [] s = None"
| "ring_wait end ((tail, gone) # polls) s =
     (let s = store64 TAIL tail s
      in if \<not> ring_full end (load 8 TAIL s) then Some (True, s)
         else if gone then Some (False, s)
         else ring_wait end polls s)"

text \<open>What \<open>append\<close> writes once there is room: the wrap mark if the frame is skipped to the ring's start, the
  frame, then the head and the sequence number.\<close>

definition ring_commit :: "bytes \<Rightarrow> shared \<Rightarrow> shared" where
  "ring_commit msg s =
     (let need = frame_bytes (length msg);
          at = load 8 HEAD s;
          skip = ring_skip at need;
          s = (if skip > 0 then store32 (ring_at at) WRAP s else s);
          at = at + skip;
          frame = ring_at at;
          s = store32 frame (length msg) s;
          s = put (frame + 4) msg s;
          s = store64 HEAD (at + need) s
      in store32 SEQ (load 4 SEQ s + 1) s)"

definition append_frame :: "bytes \<Rightarrow> (nat \<times> bool) list \<Rightarrow> shared \<Rightarrow> (bool \<times> shared) option" where
  "append_frame msg polls s =
     (let need = frame_bytes (length msg);
          at = load 8 HEAD s;
          skip = ring_skip at need
      in case ring_wait (at + skip + need) polls s of
           None \<Rightarrow> None
         | Some (False, s) \<Rightarrow> Some (False, s)
         | Some (True, s) \<Rightarrow> Some (True, ring_commit msg s))"

text \<open>The client's loop in \<open>Daemon::next\<close>: one look at the ring, and looks until a message or an empty ring. The
  layout is the one the control block gives.\<close>

datatype look = Got bytes | Again | Empty

definition client_look :: "shared \<Rightarrow> look \<times> shared" where
  "client_look s =
     (let ring = load 8 32 s; bytes = load 8 40 s; at = load 8 TAIL s
      in if at < load 8 HEAD s then
           let frame = ring + at mod bytes; len = load 4 frame s
           in if len = WRAP then (Again, store64 TAIL (at + bytes - at mod bytes) s)
              else (Got (peek (frame + 4) len (sh_mem s)), store64 TAIL (at + next_multiple_of (4 + len) 8) s)
         else (Empty, s))"

fun client_next :: "nat \<Rightarrow> shared \<Rightarrow> (bytes option \<times> shared) option" where
  "client_next 0 s = None"
| "client_next (Suc fuel) s =
     (case client_look s of
        (Got m, s) \<Rightarrow> Some (Some m, s)
      | (Empty, s) \<Rightarrow> Some (None, s)
      | (Again, s) \<Rightarrow> client_next fuel s)"

text \<open>One side of a channel at a time: \<open>ring_put\<close> is a pass of \<open>append\<close>'s loop that finds room and commits.\<close>

definition ring_put :: "shared \<Rightarrow> bytes \<Rightarrow> shared option" where
  "ring_put s msg =
     (let need = frame_bytes (length msg); at = load 8 HEAD s
      in if ring_full (at + ring_skip at need + need) (load 8 TAIL s) then None else Some (ring_commit msg s))"

text \<open>
  The frames a ring holds between two positions: the abstraction that the ring's correctness is stated with. A
  frame never wraps; a wrap mark sends the reader to the ring's next start and is always followed by a frame.
\<close>

inductive ring_holds :: "shared \<Rightarrow> nat \<Rightarrow> nat \<Rightarrow> bytes list \<Rightarrow> bool" for s where
  drained: "ring_holds s h h []"
| frame: "8 dvd at \<Longrightarrow> at mod RING_BYTES + frame_bytes (length m) \<le> RING_BYTES \<Longrightarrow> length m < WRAP \<Longrightarrow>
    load 4 (ring_at at) s = length m \<Longrightarrow> peek (ring_at at + 4) (length m) (sh_mem s) = m \<Longrightarrow>
    ring_holds s (at + frame_bytes (length m)) h ms \<Longrightarrow> ring_holds s at h (m # ms)"
| wrapped: "8 dvd at \<Longrightarrow> load 4 (ring_at at) s = WRAP \<Longrightarrow> 0 < at mod RING_BYTES \<Longrightarrow>
    ring_holds s (at + (RING_BYTES - at mod RING_BYTES)) h (m # ms) \<Longrightarrow> ring_holds s at h (m # ms)"

definition ring_rep :: "shared \<Rightarrow> bytes list \<Rightarrow> bool" where
  "ring_rep s ms \<longleftrightarrow>
     load 8 32 s = RING \<and> load 8 40 s = RING_BYTES \<and> 8 dvd load 8 HEAD s \<and>
     load 8 HEAD s - load 8 TAIL s \<le> RING_BYTES \<and> ring_holds s (load 8 TAIL s) (load 8 HEAD s) ms"

text \<open>The counters are 64-bit and never reset: the ring is meant for less than \<open>2 ^ 63\<close> bytes ever.\<close>

definition counters_low :: "shared \<Rightarrow> bool" where
  "counters_low s \<longleftrightarrow> load 8 HEAD s + 2 * RING_BYTES < 2 ^ 63"

text \<open>A schedule of the two sides of a channel: messages offered (and refused while there is no room) and looks.\<close>

datatype 'm turn = Offer 'm | Look

fun channel_run :: "('s \<Rightarrow> 'm \<Rightarrow> 's option) \<Rightarrow> ('s \<Rightarrow> 'm option \<times> 's) \<Rightarrow> 'm turn list \<Rightarrow> 's \<Rightarrow> 'm list \<times> 'm list \<times> 's" where
  "channel_run give grab [] s = ([], [], s)"
| "channel_run give grab (Offer m # ts) s =
     (case give s m of
        None \<Rightarrow> channel_run give grab ts s
      | Some s1 \<Rightarrow> (case channel_run give grab ts s1 of (sent, got, s2) \<Rightarrow> (m # sent, got, s2)))"
| "channel_run give grab (Look # ts) s =
     (case grab s of
        (None, s1) \<Rightarrow> channel_run give grab ts s1
      | (Some m, s1) \<Rightarrow> (case channel_run give grab ts s1 of (sent, got, s2) \<Rightarrow> (sent, m # got, s2)))"

definition ring_give :: "shared \<Rightarrow> bytes \<Rightarrow> shared option" where
  "ring_give s m = (if counters_low s then ring_put s m else None)"

text \<open>Two looks are enough: a wrap mark is followed by a frame.\<close>

definition ring_take :: "shared \<Rightarrow> bytes option \<times> shared" where
  "ring_take s = (case client_next 2 s of None \<Rightarrow> (None, s) | Some r \<Rightarrow> r)"

section \<open>Stores and loads\<close>

lemma peek_poke_same [simp]: "length bs = n \<Longrightarrow> peek at n (poke at bs m) = bs"
  by (auto simp: peek_def poke_def intro: nth_equalityI)

lemma peek_poke_other:
  "at + n \<le> a \<or> a + length bs \<le> at \<Longrightarrow> peek at n (poke a bs m) = peek at n m"
  by (auto simp: peek_def poke_def)

lemma length_peek [simp]: "length (peek at n m) = n"
  by (simp add: peek_def)

lemma peek_cong: "(\<And>i. i < n \<Longrightarrow> m (at + i) = m' (at + i)) \<Longrightarrow> peek at n m = peek at n m'"
  by (simp add: peek_def)

lemma put_simps [simp]: "sh_size (put at bs s) = sh_size s" "sh_mem (put at bs s) = poke at bs (sh_mem s)"
  by (simp_all add: put_def)

lemma load_put_same: "length bs = n \<Longrightarrow> load n at (put at bs s) = le_val bs"
  by (simp add: load_def)

lemma load_store64 [simp]: "v < 2 ^ 64 \<Longrightarrow> load 8 at (store64 at v s) = v"
  by (simp add: load_put_same)

lemma load_store32 [simp]: "v < 2 ^ 32 \<Longrightarrow> load 4 at (store32 at v s) = v"
  by (simp add: load_put_same)

lemma load_put_other:
  "at + n \<le> a \<or> a + length bs \<le> at \<Longrightarrow> load n at (put a bs s) = load n at s"
  by (simp add: load_def peek_poke_other)

lemma load_bound: "load n at s < 256 ^ n"
  using le_val_bound [of "peek at n (sh_mem s)"] by (simp add: load_def)

lemma load8_bound: "load 8 at s < 2 ^ 64"
  using load_bound [of 8 at s] by simp

lemmas layout_defs = REQUEST_def REQUEST_BYTES_def RING_BYTES_def HEAD_def SEQ_def TAIL_def RING_def DATA_def

section \<open>The data area\<close>

lemma data_at_Some:
  "data_at s offset len = Some at \<longleftrightarrow>
     unat offset + unat len < 2 ^ 64 \<and> unat offset + unat len \<le> sh_size s - DATA \<and> at = DATA + unat offset"
  by (auto simp: data_at_def Let_def)

text \<open>What a write accepts, it stores, where a read of the same range finds it; a write outside the area is refused.\<close>

lemma shm_write_read:
  assumes "shm_write s offset room bs = (True, s')" "unat len = length bs"
  shows "shm_read s' offset len = Some bs"
proof -
  obtain at where at: "data_at s offset room = Some at" "length bs \<le> unat room" "s' = put at bs s"
    using assms(1) by (auto simp: shm_write_def split: option.splits if_splits)
  then have "data_at s' offset len = Some at" using assms(2) by (auto simp: data_at_Some)
  then show ?thesis using at assms(2) by (simp add: shm_read_def)
qed

section \<open>The ring holds the messages appended and not yet read\<close>

lemma RING_BYTES_pos [simp]: "0 < RING_BYTES"
  by (simp add: RING_BYTES_def)

lemma dvd_RING_BYTES [simp]: "8 dvd RING_BYTES"
  by (simp add: RING_BYTES_def)

lemma frame_bytes_bounds:
  "4 + n \<le> frame_bytes n" "frame_bytes n < n + 12" "8 \<le> frame_bytes n" "8 dvd frame_bytes n"
proof -
  show *: "4 + n \<le> frame_bytes n" "8 dvd frame_bytes n"
    using next_multiple_of_ge [of 8 "4 + n"] by (simp_all add: frame_bytes_def)
  show "frame_bytes n < n + 12"
    using next_multiple_of_less [of 8 "4 + n"] by (simp add: frame_bytes_def)
  show "8 \<le> frame_bytes n"
    using * by (intro dvd_imp_le) auto
qed

lemma ring_at_bounds: "RING \<le> ring_at p" "ring_at p < RING + RING_BYTES"
  by (simp_all add: ring_at_def)

lemma ring_at_offset: "p mod RING_BYTES + i < RING_BYTES \<Longrightarrow> ring_at p + i = ring_at (p + i)"
  unfolding ring_at_def by (metis add.assoc mod_add_left_eq mod_less)

lemma mod_RING_room: "8 dvd p \<Longrightarrow> p mod RING_BYTES + 8 \<le> RING_BYTES"
proof -
  assume "8 dvd p"
  then have "8 dvd p mod RING_BYTES" by (simp add: dvd_mod)
  moreover have "p mod RING_BYTES < RING_BYTES" by simp
  ultimately show ?thesis
    by (metis add.commute dvd_RING_BYTES dvd_diff_nat le_diff_conv2 less_imp_le_nat nat_dvd_not_less
        not_le zero_less_diff le_add_diff_inverse2 diff_diff_cancel)
qed

lemma mod_apart:
  assumes "p < q" "q < p + R"
  shows "p mod R \<noteq> q mod (R :: nat)"
proof
  assume "p mod R = q mod R"
  then have "R dvd q - p" using assms(1) by (metis mod_eq_dvd_iff_nat less_imp_le)
  then show False using assms by (auto dest: dvd_imp_le)
qed

lemma mod_RING_less: "p mod RING_BYTES < RING_BYTES"
  by simp

lemma next_start_gt: "at < at + (RING_BYTES - at mod RING_BYTES)"
  using mod_RING_less [of at] by linarith

lemma ring_holds_le: "ring_holds s at h ms \<Longrightarrow> at \<le> h"
proof (induction rule: ring_holds.induct)
  case (wrapped at h m ms)
  then show ?case using mod_RING_less [of at] by linarith
qed auto

lemma ring_holds_Nil: "ring_holds s at h [] \<longleftrightarrow> at = h"
  by (auto intro: ring_holds.drained elim: ring_holds.cases)

lemma ring_holds_append:
  "ring_holds s a b xs \<Longrightarrow> ring_holds s b c ys \<Longrightarrow> ring_holds s a c (xs @ ys)"
  by (induction rule: ring_holds.induct) (auto intro: ring_holds.intros)

lemma peek_ring_cong:
  assumes "\<And>p. at \<le> p \<Longrightarrow> p < at + n \<Longrightarrow> m' (ring_at p) = m (ring_at p)"
    "at mod RING_BYTES + n \<le> RING_BYTES" "j + k \<le> n"
  shows "peek (ring_at at + j) k m' = peek (ring_at at + j) k m"
proof (rule peek_cong)
  fix i assume "i < k"
  then have "ring_at at + j + i = ring_at (at + (j + i))"
    using assms(2,3) ring_at_offset [of at "j + i"] by (simp add: add.assoc)
  then show "m' (ring_at at + j + i) = m (ring_at at + j + i)"
    using assms(1,3) \<open>i < k\<close> by simp
qed

text \<open>Only the bytes between the two positions matter.\<close>

lemma ring_holds_cong:
  assumes "ring_holds s at h ms"
    and "\<And>p. at \<le> p \<Longrightarrow> p < h \<Longrightarrow> sh_mem s' (ring_at p) = sh_mem s (ring_at p)"
  shows "ring_holds s' at h ms"
  using assms
proof (induction rule: ring_holds.induct)
  case (drained h)
  show ?case by (rule ring_holds.drained)
next
  case (frame at m h ms)
  let ?n = "frame_bytes (length m)"
  have le: "at + ?n \<le> h" using frame.hyps(6) by (rule ring_holds_le)
  have same: "peek (ring_at at + j) k (sh_mem s') = peek (ring_at at + j) k (sh_mem s)" if "j + k \<le> ?n" for j k
    using frame.prems le by (intro peek_ring_cong [OF _ frame.hyps(2) that]) auto
  have four: "0 + 4 \<le> ?n" "4 + length m \<le> ?n" using frame_bytes_bounds [of "length m"] by simp_all
  have "load 4 (ring_at at) s' = length m" "peek (ring_at at + 4) (length m) (sh_mem s') = m"
    using same [OF four(1)] same [OF four(2)] frame.hyps by (simp_all add: load_def)
  moreover have "ring_holds s' (at + ?n) h ms" using frame.IH frame.prems by simp
  ultimately show ?case using frame.hyps(1-3) ring_holds.frame by blast
next
  case (wrapped at h m ms)
  have le: "at + (RING_BYTES - at mod RING_BYTES) \<le> h" using wrapped.hyps(4) by (rule ring_holds_le)
  have room: "at mod RING_BYTES + 8 \<le> RING_BYTES" using wrapped.hyps(1) by (rule mod_RING_room)
  have "peek (ring_at at + 0) 4 (sh_mem s') = peek (ring_at at + 0) 4 (sh_mem s)"
    using wrapped.prems le room by (intro peek_ring_cong [where n = 8]) auto
  then have "load 4 (ring_at at) s' = WRAP" using wrapped.hyps(2) by (simp add: load_def)
  moreover have "ring_holds s' (at + (RING_BYTES - at mod RING_BYTES)) h (m # ms)"
  proof (rule wrapped.IH)
    fix p assume "at + (RING_BYTES - at mod RING_BYTES) \<le> p" "p < h"
    moreover from this(1) have "at \<le> p" using next_start_gt [of at] by linarith
    ultimately show "sh_mem s' (ring_at p) = sh_mem s (ring_at p)" using wrapped.prems by simp
  qed
  ultimately show ?case using wrapped.hyps(1,3) by (blast intro: ring_holds.wrapped)
qed

lemma ring_full_iff:
  assumes "tail \<le> end" "end < 2 ^ 64"
  shows "ring_full end tail \<longleftrightarrow> end - tail > RING_BYTES"
proof -
  have wrap: "(x + 2 ^ 64) mod 2 ^ 64 = x" if "x < 2 ^ 64" for x :: nat using that by simp
  have "end + (2 ^ 64 - tail) = (end - tail) + 2 ^ 64" using assms by linarith
  moreover have "end - tail < 2 ^ 64" using assms by linarith
  ultimately have "(end + (2 ^ 64 - tail)) mod 2 ^ 64 = end - tail" using wrap by metis
  then show ?thesis unfolding ring_full_def by metis
qed

lemma ring_skip_cases:
  obtains "ring_skip at need = 0" "at mod RING_BYTES + need \<le> RING_BYTES"
  | "ring_skip at need = RING_BYTES - at mod RING_BYTES" "0 < ring_skip at need"
    "at mod RING_BYTES + need > RING_BYTES" "(at + ring_skip at need) mod RING_BYTES = 0"
proof (cases "at mod RING_BYTES + need > RING_BYTES")
  case True
  have "at + (RING_BYTES - at mod RING_BYTES) = (at div RING_BYTES + 1) * RING_BYTES"
    using mod_RING_less [of at] div_mult_mod_eq [of at RING_BYTES] unfolding add_mult_distrib by linarith
  then have "(at + (RING_BYTES - at mod RING_BYTES)) mod RING_BYTES = 0" by simp
  with True that(2) show ?thesis using mod_RING_less [of at] by (simp add: ring_skip_def)
next
  case False
  with that(1) show ?thesis by (simp add: ring_skip_def)
qed

text \<open>
  A ring that has room for a frame: the frame's place, and what is free. The positions from the old head on are
  free: none of them is at the address of a position still to be read.
\<close>

definition ring_room :: "shared \<Rightarrow> bytes \<Rightarrow> nat \<Rightarrow> nat \<Rightarrow> nat \<Rightarrow> nat \<Rightarrow> bool" where
  "ring_room s msg h t skip need \<longleftrightarrow>
     h = load 8 HEAD s \<and> t = load 8 TAIL s \<and> need = frame_bytes (length msg) \<and> skip = ring_skip h need \<and>
     t \<le> h \<and> 8 dvd h \<and> h + skip + need - t \<le> RING_BYTES \<and> h + 2 * RING_BYTES < 2 ^ 63"

lemma ring_roomD:
  assumes "ring_room s msg h t skip need"
  shows "load 8 HEAD s = h" "load 8 TAIL s = t" "frame_bytes (length msg) = need" "ring_skip h need = skip"
    "t \<le> h" "8 dvd h" "h + skip + need - t \<le> RING_BYTES" "h + 2 * RING_BYTES < 2 ^ 63"
  using assms unfolding ring_room_def by auto

lemma need_bounds:
  assumes "ring_room s msg h t skip need"
  shows "4 + length msg \<le> need" "8 \<le> need" "need \<le> RING_BYTES" "skip + need \<le> RING_BYTES"
  using frame_bytes_bounds [of "length msg"] ring_roomD [OF assms] by linarith+

lemma room_cases:
  assumes "ring_room s msg h t skip need"
  obtains "skip = 0" "h mod RING_BYTES + need \<le> RING_BYTES"
  | "skip = RING_BYTES - h mod RING_BYTES" "8 \<le> skip" "need \<le> h mod RING_BYTES"
    "(h + skip) mod RING_BYTES = 0"
proof (cases rule: ring_skip_cases [of h need])
  case 1
  then show ?thesis using that(1) ring_roomD(4) [OF assms] by metis
next
  case 2
  note skip = 2 [unfolded ring_roomD(4) [OF assms]]
  have "need \<le> h mod RING_BYTES" using skip(1) need_bounds(4) [OF assms] mod_RING_less [of h] by linarith
  moreover have "8 \<le> skip" using mod_RING_room [OF ring_roomD(6) [OF assms]] skip(1) by linarith
  ultimately show ?thesis using skip that(2) by metis
qed

lemma frame_fits: 
  assumes "ring_room s msg h t skip need"
  shows "(h + skip) mod RING_BYTES + need \<le> RING_BYTES"
  using need_bounds(3) [OF assms] by (cases rule: room_cases [OF assms]) simp_all

lemma frame8:
  assumes "ring_room s msg h t skip need"
  shows "8 dvd h + skip"
proof (cases rule: room_cases [OF assms])
  case 1
  then show ?thesis using ring_roomD(6) [OF assms] by simp
next
  case 2
  then have "RING_BYTES dvd h + skip" by auto
  then show ?thesis using dvd_RING_BYTES dvd_trans by blast
qed

lemma free_apart:
  assumes "ring_room s msg h t skip need" "t \<le> p" "p < h" "h \<le> q" "q < h + skip + need"
  shows "ring_at p \<noteq> ring_at q"
proof -
  have "p < q" "q < p + RING_BYTES" using assms(2-) ring_roomD(7) [OF assms(1)] by linarith+
  then show ?thesis using mod_apart by (simp add: ring_at_def)
qed

lemma frame_address:
  "ring_room s msg h t skip need \<Longrightarrow> i < need \<Longrightarrow> ring_at (h + skip) + i = ring_at (h + skip + i)"
  using frame_fits by (intro ring_at_offset) fastforce

lemma mark_address: "8 dvd h \<Longrightarrow> i < 4 \<Longrightarrow> ring_at h + i = ring_at (h + i)"
  using mod_RING_room [of h] by (intro ring_at_offset) simp

lemma mark_before_frame:
  assumes "ring_room s msg h t skip need" "0 < skip"
  shows "ring_at (h + skip) + 4 + length msg \<le> ring_at h"
proof (cases rule: room_cases [OF assms(1)])
  case 1
  then show ?thesis using assms(2) by simp
next
  case 2
  then show ?thesis using need_bounds(1) [OF assms(1)] unfolding ring_at_def by linarith
qed

text \<open>What a commit writes, in those terms.\<close>

definition marked :: "nat \<Rightarrow> nat \<Rightarrow> shared \<Rightarrow> shared" where
  "marked skip h s = (if skip > 0 then store32 (ring_at h) WRAP s else s)"

lemma commit_eq:
  assumes "ring_room s msg h t skip need"
  shows "ring_commit msg s =
    (let s3 = store64 HEAD (h + skip + need) (put (ring_at (h + skip) + 4) msg
                (store32 (ring_at (h + skip)) (length msg) (marked skip h s)))
     in store32 SEQ (load 4 SEQ s3 + 1) s3)"
  unfolding ring_commit_def marked_def ring_roomD(1-4) [OF assms] Let_def by simp

lemma commit_control:
  assumes "ring_room s msg h t skip need"
  shows "load 8 HEAD (ring_commit msg s) = h + skip + need" "load 8 TAIL (ring_commit msg s) = t"
    "load 8 32 (ring_commit msg s) = load 8 32 s" "load 8 40 (ring_commit msg s) = load 8 40 s"
proof -
  have "h + skip + need < 2 ^ 64" using need_bounds(4) [OF assms] ring_roomD(8) [OF assms] by simp
  moreover have "RING \<le> ring_at (h + skip)" "RING \<le> ring_at h" by (rule ring_at_bounds)+
  ultimately show "load 8 HEAD (ring_commit msg s) = h + skip + need" "load 8 TAIL (ring_commit msg s) = t"
    "load 8 32 (ring_commit msg s) = load 8 32 s" "load 8 40 (ring_commit msg s) = load 8 40 s"
    using ring_roomD(2) [OF assms] unfolding commit_eq [OF assms] Let_def marked_def
    by (simp_all add: load_put_other layout_defs)
qed

lemma commit_mem:
  assumes "ring_room s msg h t skip need" "RING \<le> a"
  shows "sh_mem (ring_commit msg s) a =
    poke (ring_at (h + skip) + 4) msg
      (poke (ring_at (h + skip)) (le_bytes 4 (length msg)) (sh_mem (marked skip h s))) a"
  using assms(2) unfolding commit_eq [OF assms(1)] Let_def by (simp add: poke_def layout_defs)

lemma marked_keeps:
  assumes "ring_room s msg h t skip need" "t \<le> p" "p < h"
  shows "sh_mem (marked skip h s) (ring_at p) = sh_mem s (ring_at p)"
proof (cases rule: room_cases [OF assms(1)])
  case 1
  then show ?thesis by (simp add: marked_def)
next
  case 2
  have "ring_at p \<noteq> ring_at h + i" if "i < 4" for i
    using that 2(2) free_apart [OF assms, of "h + i"] mark_address [OF ring_roomD(6) [OF assms(1)] that]
    by simp
  from this [of "ring_at p - ring_at h"] have "ring_at p < ring_at h \<or> ring_at h + 4 \<le> ring_at p" by linarith
  then show ?thesis by (auto simp: marked_def poke_def)
qed

lemma commit_keeps:
  assumes "ring_room s msg h t skip need" "t \<le> p" "p < h"
  shows "sh_mem (ring_commit msg s) (ring_at p) = sh_mem s (ring_at p)"
proof -
  have frame: "ring_at p \<noteq> ring_at (h + skip) + i" if "i < need" for i
    using that free_apart [OF assms, of "h + skip + i"] frame_address [OF assms(1) that] by simp
  have "ring_at p < ring_at (h + skip) \<or> ring_at (h + skip) + need \<le> ring_at p"
    using frame [of "ring_at p - ring_at (h + skip)"] by linarith
  then show ?thesis
    using need_bounds(1) [OF assms(1)] commit_mem [OF assms(1) ring_at_bounds(1)] marked_keeps [OF assms]
    by (auto simp: poke_def)
qed

lemma commit_peek:
  assumes "ring_room s msg h t skip need" "RING \<le> a"
  shows "peek a n (sh_mem (ring_commit msg s)) =
    peek a n (poke (ring_at (h + skip) + 4) msg
      (poke (ring_at (h + skip)) (le_bytes 4 (length msg)) (sh_mem (marked skip h s))))"
  using assms(2) by (intro peek_cong commit_mem [OF assms(1)]) simp

lemma commit_frame:
  assumes "ring_room s msg h t skip need"
  shows "ring_holds (ring_commit msg s) (h + skip) (h + skip + need) [msg]"
proof -
  let ?f = "ring_at (h + skip)" and ?s = "ring_commit msg s"
  have le: "RING \<le> ?f" "RING \<le> ?f + 4" using ring_at_bounds(1) [of "h + skip"] by simp_all
  have len: "length msg < 2 ^ 32" "length msg < WRAP"
    using need_bounds(1,3) [OF assms] by (simp_all add: RING_BYTES_def WRAP_def)
  have "load 4 ?f ?s = length msg"
    using len(1) commit_peek [OF assms le(1)] by (simp add: load_def peek_poke_other)
  moreover have "peek (?f + 4) (length msg) (sh_mem ?s) = msg"
    using commit_peek [OF assms le(2)] by simp
  ultimately show ?thesis
    using frame8 [OF assms] frame_fits [OF assms] len(2) ring_roomD(3) [OF assms]
    ring_holds.frame [OF _ _ _ _ _ ring_holds.drained] by metis
qed

lemma commit_holds:
  assumes "ring_room s msg h t skip need"
  shows "ring_holds (ring_commit msg s) h (h + skip + need) [msg]"
proof (cases rule: room_cases [OF assms])
  case 1
  then show ?thesis using commit_frame [OF assms] by simp
next
  case 2
  have pos: "0 < skip" using 2(2) by linarith
  have far: "ring_at (h + skip) + 4 + length msg \<le> ring_at h" using assms pos by (rule mark_before_frame)
  have "peek (ring_at h) 4 (sh_mem (ring_commit msg s)) = le_bytes 4 WRAP"
    using pos far commit_peek [OF assms ring_at_bounds(1)] by (simp add: peek_poke_other marked_def)
  then have mark: "load 4 (ring_at h) (ring_commit msg s) = WRAP" by (simp add: load_def WRAP_def)
  have "0 < h mod RING_BYTES" using 2(3) need_bounds(2) [OF assms] by linarith
  then show ?thesis
    using ring_roomD(6) [OF assms] mark commit_frame [OF assms] 2(1)
    by (metis (no_types) ring_holds.wrapped)
qed

lemma commit_rep:
  assumes room: "ring_room s msg h t skip need" and rep: "ring_rep s ms"
  shows "ring_rep (ring_commit msg s) (ms @ [msg])"
proof -
  have "ring_holds s t h ms" using rep unfolding ring_rep_def ring_roomD(1,2) [OF room] by blast
  then have "ring_holds (ring_commit msg s) t h ms"
    by (rule ring_holds_cong) (rule commit_keeps [OF room])
  then have "ring_holds (ring_commit msg s) t (h + skip + need) (ms @ [msg])"
    using commit_holds [OF room] by (rule ring_holds_append)
  moreover have "8 dvd h + skip + need"
    using frame8 [OF room] frame_bytes_bounds(4) [of "length msg"] ring_roomD(3) [OF room] by simp
  ultimately show ?thesis
    using rep ring_roomD(7) [OF room] unfolding ring_rep_def commit_control [OF room] by simp
qed

section \<open>The ring is a first-in first-out channel\<close>

text \<open>
  What a channel promises its two sides: it stands for a list of pending messages, putting one appends it, and
  taking gives the oldest. Whatever the schedule, the messages taken and the ones still pending are the ones sent,
  in order.
\<close>

locale fifo_channel =
  fixes rep :: "'s \<Rightarrow> 'm list \<Rightarrow> bool" and give :: "'s \<Rightarrow> 'm \<Rightarrow> 's option"
    and grab :: "'s \<Rightarrow> 'm option \<times> 's" and fits :: "'m \<Rightarrow> bool"
  assumes give_rep: "rep s ms \<Longrightarrow> fits m \<Longrightarrow> give s m = Some s' \<Longrightarrow> rep s' (ms @ [m])"
    and grab_Nil: "rep s [] \<Longrightarrow> grab s = (None, s)"
    and grab_Cons: "rep s (m # ms) \<Longrightarrow> \<exists>s'. grab s = (Some m, s') \<and> rep s' ms"
begin

lemma run_fifo:
  assumes "rep s ms" "list_all (\<lambda>t. case t of Offer m \<Rightarrow> fits m | Look \<Rightarrow> True) ts"
    "channel_run give grab ts s = (sent, got, s')"
  shows "\<exists>ms'. rep s' ms' \<and> ms @ sent = got @ ms'"
  using assms
proof (induction ts arbitrary: s ms sent got)
  case Nil
  then show ?case by auto
next
  case (Cons t ts)
  show ?case
  proof (cases t)
    case (Offer m)
    show ?thesis
    proof (cases "give s m")
      case None
      with Cons Offer show ?thesis by simp
    next
      case (Some s1)
      with Cons.prems Offer obtain sent' where "channel_run give grab ts s1 = (sent', got, s')" "sent = m # sent'"
        by (auto split: prod.splits)
      moreover have "rep s1 (ms @ [m])" using Cons.prems Offer Some by (intro give_rep) simp_all
      ultimately show ?thesis using Cons.IH [of s1 "ms @ [m]" sent' got] Cons.prems(2) by simp
    qed
  next
    case Look
    show ?thesis
    proof (cases ms)
      case Nil
      with Cons.prems Look grab_Nil have "channel_run give grab ts s = (sent, got, s')" by simp
      with Cons.IH [of s ms sent got] Cons.prems(1,2) show ?thesis by simp
    next
      case (Cons m rest)
      obtain s1 where s1: "grab s = (Some m, s1)" "rep s1 rest"
        using grab_Cons Cons.prems(1) Cons by blast
      with Cons.prems Look obtain got' where "channel_run give grab ts s1 = (sent, got', s')" "got = m # got'"
        by (auto split: prod.splits)
      then show ?thesis using Cons.IH [of s1 rest sent got'] s1(2) Cons.prems(2) Cons by simp
    qed
  qed
qed

end

lemma ring_rep_tail_le: "ring_rep s ms \<Longrightarrow> load 8 TAIL s \<le> load 8 HEAD s"
  using ring_holds_le by (auto simp: ring_rep_def)

lemma ring_put_room:
  assumes "ring_rep s ms" "counters_low s" "length m < 2 ^ 62" "ring_put s m = Some s'"
  shows "ring_room s m (load 8 HEAD s) (load 8 TAIL s)
      (ring_skip (load 8 HEAD s) (frame_bytes (length m))) (frame_bytes (length m))"
    and "s' = ring_commit m s"
proof -
  let ?h = "load 8 HEAD s" and ?n = "frame_bytes (length m)"
  let ?e = "?h + ring_skip ?h ?n + ?n"
  have not_full: "\<not> ring_full ?e (load 8 TAIL s)" and s': "s' = ring_commit m s"
    using assms(4) by (auto simp: ring_put_def Let_def split: if_splits)
  have low: "?h + 2 * RING_BYTES < 2 ^ 63" using assms(2) by (simp add: counters_low_def)
  have "ring_skip ?h ?n \<le> RING_BYTES" by (simp add: ring_skip_def)
  moreover have "?n < 2 ^ 62 + 12" using frame_bytes_bounds(2) [of "length m"] assms(3) by linarith
  ultimately have "?e < 2 ^ 64" using low by simp
  then have "?e - load 8 TAIL s \<le> RING_BYTES"
    using not_full ring_full_iff ring_rep_tail_le [OF assms(1)] by fastforce
  then show "ring_room s m ?h (load 8 TAIL s) (ring_skip ?h ?n) ?n"
    using ring_rep_tail_le [OF assms(1)] assms(1) low by (simp add: ring_room_def ring_rep_def)
  show "s' = ring_commit m s" by (rule s')
qed

text \<open>Moving the tail changes none of the frames.\<close>

lemma tail_moved:
  assumes "ring_rep s ms" "load 8 TAIL s \<le> t'" "ring_holds s t' (load 8 HEAD s) ms'"
  shows "ring_rep (store64 TAIL t' s) ms'"
    and "load 8 TAIL (store64 TAIL t' s) = t'"
proof -
  have bound: "t' < 2 ^ 64" using ring_holds_le [OF assms(3)] load8_bound le_less_trans by blast
  have "ring_holds (store64 TAIL t' s) t' (load 8 HEAD s) ms'"
  proof (rule ring_holds_cong [OF assms(3)])
    fix p show "sh_mem (store64 TAIL t' s) (ring_at p) = sh_mem s (ring_at p)"
      using ring_at_bounds(1) [of p] by (simp add: poke_def layout_defs)
  qed
  then show "ring_rep (store64 TAIL t' s) ms'"
    using assms(1,2) bound by (auto simp: ring_rep_def load_put_other layout_defs)
  show "load 8 TAIL (store64 TAIL t' s) = t'" using bound by simp
qed

lemma look_drained: "ring_rep s [] \<Longrightarrow> client_look s = (Empty, s)"
  by (simp add: ring_rep_def ring_holds_Nil client_look_def Let_def)

lemma look_frame:
  assumes "ring_rep s (m # ms)" "load 4 (ring_at (load 8 TAIL s)) s \<noteq> WRAP"
  obtains s' where "client_look s = (Got m, s')" "ring_rep s' ms"
proof -
  let ?t = "load 8 TAIL s" and ?h = "load 8 HEAD s"
  have "ring_holds s ?t ?h (m # ms)" using assms(1) by (simp add: ring_rep_def)
  then show ?thesis
  proof (cases rule: ring_holds.cases)
    case frame
    have "?t < ?h" using ring_holds_le [OF frame(6)] frame_bytes_bounds(3) [of "length m"] by linarith
    then have "client_look s = (Got m, store64 TAIL (?t + frame_bytes (length m)) s)"
      using assms(1) frame by (simp add: client_look_def ring_rep_def Let_def ring_at_def frame_bytes_def)
    then show ?thesis using that tail_moved(1) [OF assms(1) _ frame(6)] by simp
  next
    case wrapped
    then show ?thesis using assms(2) by simp
  qed
qed

lemma look_wrap:
  assumes "ring_rep s (m # ms)" "load 4 (ring_at (load 8 TAIL s)) s = WRAP"
  obtains s' where "client_look s = (Again, s')" "ring_rep s' (m # ms)"
    "load 4 (ring_at (load 8 TAIL s')) s' \<noteq> WRAP"
proof -
  let ?t = "load 8 TAIL s" and ?h = "load 8 HEAD s"
  let ?t' = "?t + (RING_BYTES - ?t mod RING_BYTES)" let ?s = "store64 TAIL ?t' s"
  have "ring_holds s ?t ?h (m # ms)" using assms(1) by (simp add: ring_rep_def)
  then show ?thesis
  proof (cases rule: ring_holds.cases)
    case frame
    then show ?thesis using assms(2) by simp
  next
    case wrapped
    have lt: "?t < ?t'" by (rule next_start_gt)
    then have rep: "ring_rep ?s (m # ms)" and tail: "load 8 TAIL ?s = ?t'"
      using tail_moved [OF assms(1) less_imp_le wrapped(4)] by blast+
    have start: "?t' mod RING_BYTES = 0"
      using ring_skip_cases [of ?t RING_BYTES] wrapped(3) by (auto simp: ring_skip_def)
    have "?t < ?h" using ring_holds_le [OF wrapped(4)] lt by linarith
    then have look: "client_look s = (Again, ?s)"
      using assms mod_RING_less [of ?t]
      by (simp add: client_look_def ring_rep_def Let_def ring_at_def)
    have "ring_holds ?s ?t' (load 8 HEAD ?s) (m # ms)" using rep tail by (simp add: ring_rep_def)
    then have "load 4 (ring_at ?t') ?s \<noteq> WRAP"
      using start by (cases rule: ring_holds.cases) auto
    then show ?thesis using that [OF look rep] tail by simp
  qed
qed

lemma ring_take_Cons:
  assumes "ring_rep s (m # ms)"
  shows "\<exists>s'. ring_take s = (Some m, s') \<and> ring_rep s' ms"
proof (cases "load 4 (ring_at (load 8 TAIL s)) s = WRAP")
  case False
  with assms obtain s' where "client_look s = (Got m, s')" "ring_rep s' ms" by (rule look_frame)
  then show ?thesis by (simp add: ring_take_def numeral_2_eq_2)
next
  case True
  with assms obtain s1 where s1: "client_look s = (Again, s1)" "ring_rep s1 (m # ms)"
    "load 4 (ring_at (load 8 TAIL s1)) s1 \<noteq> WRAP" by (rule look_wrap)
  from s1(2,3) obtain s' where "client_look s1 = (Got m, s')" "ring_rep s' ms" by (rule look_frame)
  with s1(1) show ?thesis by (simp add: ring_take_def numeral_2_eq_2)
qed

interpretation ring: fifo_channel ring_rep ring_give ring_take "\<lambda>m. length m < 2 ^ 62"
proof
  fix s s' :: shared and ms :: "bytes list" and m :: bytes
  assume rep: "ring_rep s ms" and fits: "length m < 2 ^ 62" and give: "ring_give s m = Some s'"
  then have low: "counters_low s" and got: "ring_put s m = Some s'"
    by (auto simp: ring_give_def split: if_splits)
  show "ring_rep s' (ms @ [m])"
    unfolding ring_put_room(2) [OF rep low fits got]
    by (rule commit_rep [OF ring_put_room(1) [OF rep low fits got] rep])
next
  fix s assume "ring_rep s []"
  then show "ring_take s = (None, s)" by (simp add: ring_take_def look_drained numeral_2_eq_2)
next
  fix s m ms assume "ring_rep s (m # ms)"
  then show "\<exists>s'. ring_take s = (Some m, s') \<and> ring_rep s' ms" by (rule ring_take_Cons)
qed

section \<open>A new memory, and waiting for room\<close>

lemma poke_poke_same: "length xs = length ys \<Longrightarrow> poke at ys (poke at xs m) = poke at ys m"
  by (auto simp: poke_def)

lemma store64_twice [simp]: "store64 at v (store64 at u s) = store64 at v s"
  by (simp add: put_def poke_poke_same)

lemma load_zero: "load n at \<lparr>sh_mem = (\<lambda>_. 0), sh_size = n0\<rparr> = 0"
proof -
  have "le_val (replicate n 0) = 0" by (induction n) simp_all
  then show ?thesis by (simp add: load_def peek_def map_replicate_const)
qed

lemma shared_new_fields:
  assumes "shared_new None data = Inr s" "data < 2 ^ 62"
  shows "load 4 0 s = unat MAGIC" "load 8 8 s = sh_size s" "sh_size s = DATA + data"
    "load 8 32 s = RING" "load 8 40 s = RING_BYTES" "load 8 HEAD s = 0" "load 8 TAIL s = 0"
  using assms by (auto simp: shared_new_def Let_def load_put_other load_zero layout_defs MAGIC_def)

lemma shared_new_rep: "shared_new None data = Inr s \<Longrightarrow> data < 2 ^ 62 \<Longrightarrow> ring_rep s []"
  by (simp add: ring_rep_def shared_new_fields ring_holds.drained)

lemma ring_wait_True:
  assumes "ring_wait end polls s = Some (True, s')"
  shows "\<exists>(tail, gone) \<in> set polls. s' = store64 TAIL tail s \<and> \<not> ring_full end (load 8 TAIL s')"
  using assms
proof (induction polls arbitrary: s)
  case Nil
  then show ?case by simp
next
  case (Cons poll polls)
  obtain tail gone where poll: "poll = (tail, gone)" by (cases poll)
  show ?case
  proof (cases "ring_full end (load 8 TAIL (store64 TAIL tail s))")
    case True
    with Cons poll have "ring_wait end polls (store64 TAIL tail s) = Some (True, s')"
      by (auto simp: Let_def split: if_splits)
    from Cons.IH [OF this] show ?thesis by auto
  next
    case False
    with Cons.prems poll show ?thesis by (auto simp: Let_def)
  qed
qed

lemma load_HEAD_tail [simp]: "load 8 HEAD (store64 TAIL t s) = load 8 HEAD s"
  by (simp add: load_put_other layout_defs)

text \<open>An append that succeeds found room at one of its polls, and committed then.\<close>

lemma append_frame_put:
  assumes "append_frame msg polls s = Some (True, s')"
  shows "\<exists>(tail, gone) \<in> set polls. ring_put (store64 TAIL tail s) msg = Some s'"
proof -
  let ?h = "load 8 HEAD s" and ?n = "frame_bytes (length msg)"
  obtain s1 where wait: "ring_wait (?h + ring_skip ?h ?n + ?n) polls s = Some (True, s1)"
    and s': "s' = ring_commit msg s1"
    using assms by (auto simp: append_frame_def Let_def split: option.splits bool.splits)
  from ring_wait_True [OF wait] obtain tail gone where "(tail, gone) \<in> set polls"
    "s1 = store64 TAIL tail s" "\<not> ring_full (?h + ring_skip ?h ?n + ?n) (load 8 TAIL s1)" by auto
  with s' show ?thesis
    by (intro bexI [of _ "(tail, gone)"]) (simp_all add: ring_put_def Let_def)
qed

lemma store_tail_same: "store64 TAIL (load 8 TAIL s) s = s"
proof -
  have "poke at (peek at n m) m = m" for at n and m :: "nat \<Rightarrow> u8"
    by (rule ext) (auto simp: poke_def peek_def)
  moreover have "le_bytes 8 (load 8 TAIL s) = peek TAIL 8 (sh_mem s)"
    using le_bytes_le_val [of "peek TAIL 8 (sh_mem s)"] by (simp add: load_def)
  ultimately show ?thesis by (simp add: put_def)
qed

section \<open>Properties\<close>



text \<open>
  A blocking append that returns success has added exactly its message. While it waits the client moves the
  tail; whichever poll lets it through, if the ring then stood for the messages \<open>ms\<close> it now stands for \<open>ms\<close>
  followed by the new one, and nothing before was touched.
\<close>

theorem append_frame_adds:
  assumes "append_frame msg polls s = Some (True, s')" "counters_low s" "length msg < 2 ^ 62"
    and "\<And>tail gone. (tail, gone) \<in> set polls \<Longrightarrow> \<exists>ms. ring_rep (store64 TAIL tail s) ms"
  shows "\<exists>tail gone ms. (tail, gone) \<in> set polls \<and> ring_rep (store64 TAIL tail s) ms \<and> ring_rep s' (ms @ [msg])"
proof -
  from append_frame_put [OF assms(1)] obtain tail gone
    where poll: "(tail, gone) \<in> set polls" and put: "ring_put (store64 TAIL tail s) msg = Some s'" by auto
  from assms(4) [OF poll] obtain ms where rep: "ring_rep (store64 TAIL tail s) ms" by blast
  have "ring_give (store64 TAIL tail s) msg = Some s'"
    using put assms(2) by (simp add: ring_give_def counters_low_def)
  then have "ring_rep s' (ms @ [msg])" using rep assms(3) by (intro ring.give_rep) simp_all
  with poll rep show ?thesis by blast
qed

lemma ring_skip_le: "ring_skip at need \<le> RING_BYTES"
  by (simp add: ring_skip_def)

lemma append_drained:
  assumes "ring_rep s []" "counters_low s" "2 * frame_bytes (length msg) \<le> RING_BYTES"
  shows "append_frame msg ((load 8 TAIL s, gone) # polls) s = Some (True, ring_commit msg s)"
proof -
  let ?h = "load 8 HEAD s" and ?n = "frame_bytes (length msg)"
  have same: "load 8 TAIL s = ?h" using assms(1) by (simp add: ring_rep_def ring_holds_Nil)
  have "ring_skip ?h ?n + ?n \<le> RING_BYTES"
    using assms(3) by (cases rule: ring_skip_cases [of ?h ?n]) linarith+
  moreover have "?h + ring_skip ?h ?n + ?n < 2 ^ 64"
    using calculation assms(2) by (simp add: counters_low_def)
  ultimately have "\<not> ring_full (?h + ring_skip ?h ?n + ?n) (load 8 TAIL s)"
    using ring_full_iff [of "load 8 TAIL s" "?h + ring_skip ?h ?n + ?n"] same by simp
  then show ?thesis by (simp add: append_frame_def Let_def store_tail_same)
qed

text \<open>
  A client that has read everything is never waited for when the frame takes at most half the ring: the first
  look at the tail lets the append through, and the ring then holds exactly that message.
\<close>

theorem append_drained_returns:
  assumes "ring_rep s []" "counters_low s" "2 * frame_bytes (length msg) \<le> RING_BYTES"
  shows "\<exists>s'. append_frame msg [(load 8 TAIL s, False)] s = Some (True, s') \<and> ring_rep s' [msg]"
proof -
  have run: "append_frame msg [(load 8 TAIL s, False)] s = Some (True, ring_commit msg s)"
    using assms by (rule append_drained)
  have "length msg < 2 ^ 62"
    using assms(3) frame_bytes_bounds(1) [of "length msg"] by (simp add: RING_BYTES_def)
  moreover have "ring_give s msg = Some (ring_commit msg s)"
    using append_frame_put [OF run] assms(2) by (simp add: ring_give_def store_tail_same)
  ultimately have "ring_rep (ring_commit msg s) ([] @ [msg])"
    using assms(1) by (intro ring.give_rep) simp_all
  with run show ?thesis by simp
qed

theorem append_drained_returns_witness:
  "\<exists>s'. append_frame [7, 8, 9] [(load 8 TAIL (projr (shared_new None 64)), False)] (projr (shared_new None 64))
      = Some (True, s') \<and> ring_rep s' [[7, 8, 9]]"
proof -
  have new: "shared_new None 64 = Inr (projr (shared_new None 64))" by (simp add: shared_new_def Let_def)
  show ?thesis
    by (rule append_drained_returns)
      (simp_all add: shared_new_rep [OF new] shared_new_fields [OF new] counters_low_def RING_BYTES_def
        frame_bytes_def next_multiple_of_def)
qed

theorem append_frame_adds_witness:
  "\<exists>tail gone ms s'. (tail, gone) \<in> set [(0 :: nat, False)] \<and>
     ring_rep (store64 TAIL tail (projr (shared_new None 64))) ms \<and> ring_rep s' (ms @ [[7, 8, 9]])"
proof -
  let ?s = "projr (shared_new None 64)"
  have new: "shared_new None 64 = Inr ?s" by (simp add: shared_new_def Let_def)
  have low: "counters_low ?s" by (simp add: counters_low_def shared_new_fields [OF new] RING_BYTES_def)
  have tail: "store64 TAIL 0 ?s = ?s"
    using store_tail_same [of ?s] by (simp add: shared_new_fields [OF new])
  have run: "append_frame [7, 8, 9] [(0, False)] ?s = Some (True, ring_commit [7, 8, 9] ?s)"
    using append_drained [OF shared_new_rep [OF new] low, of "[7, 8, 9]" False "[]"]
    by (simp add: shared_new_fields [OF new] RING_BYTES_def frame_bytes_def next_multiple_of_def)
  have reps: "\<exists>ms. ring_rep (store64 TAIL t ?s) ms" if "(t, g) \<in> set [(0, False)]" for t g
    using that tail shared_new_rep [OF new] by auto
  have "length ([7, 8, 9] :: bytes) < 2 ^ 62" by simp
  then have "\<exists>tail gone ms. (tail, gone) \<in> set [(0, False)] \<and> ring_rep (store64 TAIL tail ?s) ms \<and>
      ring_rep (ring_commit [7, 8, 9] ?s) (ms @ [[7, 8, 9]])"
    by (rule append_frame_adds [OF run low]) (rule reps)
  then show ?thesis by (elim exE) (intro exI, assumption)
qed

text \<open>
  A frame longer than half the ring can wait for ever. Where the ring's head stands so that the frame does not
  fit before the ring's end, and the frame is longer than what precedes the head, no tail the client can ever
  announce makes room, not even after it has read every message: the append never succeeds, it only ends when the
  client leaves. The frame may be shorter than the ring itself.
\<close>

theorem append_can_wait_for_ever:
  assumes "load 8 HEAD s mod RING_BYTES < frame_bytes (length msg)"
    and "RING_BYTES < load 8 HEAD s mod RING_BYTES + frame_bytes (length msg)"
    and "counters_low s" "length msg < 2 ^ 62"
    and "list_all (\<lambda>(tail, gone). tail \<le> load 8 HEAD s) polls"
  shows "append_frame msg polls s = None \<or> (\<exists>s'. append_frame msg polls s = Some (False, s'))"
proof -
  let ?h = "load 8 HEAD s" and ?n = "frame_bytes (length msg)"
  have skip: "ring_skip ?h ?n + ?n > RING_BYTES"
    using assms(1,2) mod_RING_less [of ?h] by (simp add: ring_skip_def)
  have small: "?h + ring_skip ?h ?n + ?n < 2 ^ 64"
    using assms(3,4) ring_skip_le [of ?h ?n] frame_bytes_bounds(2) [of "length msg"]
    by (simp add: counters_low_def)
  have "append_frame msg polls s \<noteq> Some (True, s')" for s'
  proof
    assume "append_frame msg polls s = Some (True, s')"
    from append_frame_put [OF this] obtain tail gone where poll: "(tail, gone) \<in> set polls"
      and put: "ring_put (store64 TAIL tail s) msg = Some s'" by auto
    have le: "tail \<le> ?h" using assms(5) poll by (auto simp: list_all_iff)
    moreover from le have "tail < 2 ^ 64" using load8_bound le_less_trans by blast
    ultimately show False
      using put skip small ring_full_iff [of tail "?h + ring_skip ?h ?n + ?n"]
      by (auto simp: ring_put_def Let_def split: if_splits)
  qed
  then show ?thesis by (metis (full_types) option.exhaust surj_pair)
qed

theorem append_can_wait_for_ever_witness:
  "\<exists>s. ring_rep s [] \<and> frame_bytes (length (replicate 700000 (0 :: u8))) < RING_BYTES \<and>
     (\<forall>n. append_frame (replicate 700000 0) (replicate n (load 8 HEAD s, False)) s = None \<or>
       (\<exists>s'. append_frame (replicate 700000 0) (replicate n (load 8 HEAD s, False)) s = Some (False, s')))"
proof -
  let ?init = "projr (shared_new None 0)"
  let ?s = "store64 TAIL 600000 (store64 HEAD 600000 ?init)"
  have new: "shared_new None 0 = Inr ?init" by (simp add: shared_new_def Let_def)
  have at: "load 8 HEAD ?s = 600000" "load 8 TAIL ?s = 600000" "load 8 32 ?s = RING" "load 8 40 ?s = RING_BYTES"
    by (simp_all add: load_put_other layout_defs shared_new_fields [OF new, unfolded layout_defs])
  have rep: "ring_rep ?s []" by (simp add: ring_rep_def at ring_holds.drained)
  have need: "frame_bytes 700000 = 700008"
    by (simp add: frame_bytes_def next_multiple_of_def)
  have "append_frame (replicate 700000 0) (replicate n (600000, False)) ?s = None \<or>
      (\<exists>s'. append_frame (replicate 700000 0) (replicate n (600000, False)) ?s = Some (False, s'))" for n
    by (rule append_can_wait_for_ever)
      (simp_all add: at need RING_BYTES_def counters_low_def list_all_iff)
  then show ?thesis using rep need at by (intro exI [of _ ?s]) (simp add: RING_BYTES_def)
qed



end
