(* ===== verification/Protocol.thy ===== *)
theory Protocol
  imports Shm
begin

text \<open>
  The requests of \<open>interface/tachyon.xml\<close>: how the daemon reads them out of the request area
  (\<open>serve/mod.rs\<close>, \<open>read\<close> and the \<open>read_*\<close> functions) and how the command line writes them
  (\<open>serve/client.rs\<close>, \<open>serve/commands.rs\<close>). A \<open>Duration\<close> is its nanoseconds. The properties are round trips
  between the two sides: whatever bytes follow the request in the area, the daemon reads what the command line
  wrote.
\<close>

section \<open>Definitions\<close>

datatype role = System | User | Model

datatype kind = Choice | Score | Noul

record sampling =
  sm_softcap :: u32
  sm_temperature :: u32
  sm_top_p :: u32
  sm_min_p :: u32
  sm_penalty :: u32
  sm_top_k :: u32
  sm_allowed :: u64
  sm_seed :: u64

text \<open>\<open>1f32.to_bits()\<close>\<close>

definition F32_ONE :: u32 where "F32_ONE = 0x3F800000"

definition sampling_default :: sampling where
  "sampling_default =
     \<lparr>sm_softcap = 0, sm_temperature = 0, sm_top_p = F32_ONE, sm_min_p = 0, sm_penalty = F32_ONE,
      sm_top_k = 0, sm_allowed = 0, sm_seed = 0\<rparr>"

type_synonym duration = nat

definition DURATION_MAX :: duration where
  "DURATION_MAX = (2 ^ 64 - 1) * 10 ^ 9 + 999999999"

definition USIZE_MAX :: nat where "USIZE_MAX = 2 ^ 64 - 1"

record embed_ask =
  em_model :: str
  em_texts :: "str list"
  em_dims :: nat
  em_out :: blob

datatype asked = Asked kind str "(str \<times> str) list"

record decide_ask =
  de_model :: str
  de_state :: str
  de_conversation :: bool
  de_questions :: "asked list"
  de_out :: blob

datatype said = Said role str "(u8 \<times> blob) list"

record chat_ask =
  ch_model :: str
  ch_messages :: "said list"
  ch_sampling :: sampling
  ch_max_tokens :: nat
  ch_think :: bool
  ch_keep :: "duration option"

datatype ask =
    AskChat chat_ask
  | AskEmbed embed_ask
  | AskDecide decide_ask
  | AskLoad str "duration option" nat bool
  | AskUnload str
  | AskList
  | AskShutdown

text \<open>A keep-alive in milliseconds, as a signed 64-bit value: \<open>-1\<close> the default, any other negative one for good.\<close>

definition keep :: "u64 \<Rightarrow> duration option" where
  "keep ms =
     (if sint ms = -1 then None
      else if sint ms < 0 then Some DURATION_MAX
      else Some (unat ms * 10 ^ 6))"

definition role_at :: "u8 \<Rightarrow> role option" where
  "role_at k = (if unat k < 3 then Some ([System, User, Model] ! unat k) else None)"

definition kind_at :: "u8 \<Rightarrow> kind option" where
  "kind_at k = (if unat k < 3 then Some ([Choice, Score, Noul] ! unat k) else None)"

definition read_load :: "block \<Rightarrow> reader \<Rightarrow> bad + ask" where
  "read_load b r =
     rbind (rd_text r) (\<lambda>(model, r).
     rbind (blk_u64 b 8) (\<lambda>k.
     rbind (blk_u32 b 16) (\<lambda>context.
     rbind (blk_u8 b 20) (\<lambda>pin.
       Inr (AskLoad model (keep k) (unat context) (pin \<noteq> 0))))))"

definition read_sampling :: "block \<Rightarrow> bad + sampling" where
  "read_sampling b =
     rbind (blk_u64 b 8) (\<lambda>seed. rbind (blk_u32 b 28) (\<lambda>top_k. rbind (blk_f32 b 32) (\<lambda>temperature.
     rbind (blk_f32 b 36) (\<lambda>top_p. rbind (blk_f32 b 40) (\<lambda>min_p. rbind (blk_f32 b 44) (\<lambda>penalty.
       Inr (sampling_default\<lparr>sm_seed := seed, sm_top_k := top_k, sm_temperature := temperature,
              sm_top_p := top_p, sm_min_p := min_p, sm_penalty := penalty\<rparr>)))))))"

definition read_attached :: "nat \<Rightarrow> reader \<Rightarrow> bad + ((u8 \<times> blob) \<times> reader)" where
  "read_attached len r =
     rbind (rd_entry len r) (\<lambda>(e, r).
     rbind (blk_u8 e 16) (\<lambda>media. rbind (blk_blob e 0) (\<lambda>b. Inr ((media, b), r))))"

definition read_said :: "nat \<Rightarrow> reader \<Rightarrow> bad + (said \<times> reader)" where
  "read_said len r =
     rbind (rd_entry len r) (\<lambda>(e, r).
     rbind (blk_u8 e 0) (\<lambda>k.
     rbind (ok_or Bad (role_at k)) (\<lambda>role.
     rbind (rd_group r) (\<lambda>((alen, an), r).
     rbind (read_n an (read_attached alen) r) (\<lambda>(attached, r).
     rbind (rd_text r) (\<lambda>(t, r). Inr (Said role t attached, r)))))))"

definition read_chat :: "block \<Rightarrow> reader \<Rightarrow> bad + chat_ask" where
  "read_chat b r =
     rbind (rd_group r) (\<lambda>((len, n), r).
     rbind (read_n n (read_said len) r) (\<lambda>(messages, r).
     rbind (blk_u32 b 24) (\<lambda>most.
     rbind (rd_text r) (\<lambda>(model, r).
     rbind (read_sampling b) (\<lambda>sampling.
     rbind (blk_u8 b 48) (\<lambda>think.
     rbind (blk_u64 b 16) (\<lambda>k.
       Inr \<lparr>ch_model = model, ch_messages = messages, ch_sampling = sampling,
            ch_max_tokens = (if most = 0 then USIZE_MAX else unat most), ch_think = (think \<noteq> 0),
            ch_keep = keep k\<rparr>)))))))"

definition read_item :: "nat \<Rightarrow> reader \<Rightarrow> bad + (str \<times> reader)" where
  "read_item len r = rbind (rd_entry len r) (\<lambda>(_, r). rd_text r)"

definition read_embed :: "block \<Rightarrow> reader \<Rightarrow> bad + ask" where
  "read_embed b r =
     rbind (rd_group r) (\<lambda>((len, n), r).
     rbind (read_n n (read_item len) r) (\<lambda>(texts, r).
     rbind (rd_text r) (\<lambda>(model, r).
     rbind (blk_u32 b 24) (\<lambda>dims.
     rbind (blk_blob b 8) (\<lambda>out.
       Inr (AskEmbed \<lparr>em_model = model, em_texts = texts, em_dims = unat dims, em_out = out\<rparr>))))))"

definition read_option :: "nat \<Rightarrow> reader \<Rightarrow> bad + ((str \<times> str) \<times> reader)" where
  "read_option len r =
     rbind (rd_entry len r) (\<lambda>(_, r).
     rbind (rd_text r) (\<lambda>(label, r). rbind (rd_text r) (\<lambda>(about, r). Inr ((label, about), r))))"

definition read_asked :: "nat \<Rightarrow> reader \<Rightarrow> bad + (asked \<times> reader)" where
  "read_asked len r =
     rbind (rd_entry len r) (\<lambda>(e, r).
     rbind (blk_u8 e 0) (\<lambda>k.
     rbind (ok_or Bad (kind_at k)) (\<lambda>kind.
     rbind (rd_group r) (\<lambda>((olen, on), r).
     rbind (read_n on (read_option olen) r) (\<lambda>(options, r).
     rbind (rd_text r) (\<lambda>(instructions, r). Inr (Asked kind instructions options, r)))))))"

definition read_decide :: "block \<Rightarrow> reader \<Rightarrow> bad + ask" where
  "read_decide b r =
     rbind (rd_group r) (\<lambda>((len, n), r).
     rbind (read_n n (read_asked len) r) (\<lambda>(questions, r).
     rbind (rd_text r) (\<lambda>(model, r).
     rbind (rd_text r) (\<lambda>(state, r).
     rbind (blk_u8 b 24) (\<lambda>conversation.
     rbind (blk_blob b 8) (\<lambda>out.
       Inr (AskDecide \<lparr>de_model = model, de_state = state, de_conversation = (conversation \<noteq> 0),
              de_questions = questions, de_out = out\<rparr>)))))))"

definition read_request :: "bytes \<Rightarrow> u64 \<times> (bad + ask)" where
  "read_request bs =
     (case rd_open bs of
        Inl _ \<Rightarrow> (0, Inl Bad)
      | Inr (template, block, r) \<Rightarrow>
          let rid = (case blk_u64 block 0 of Inl _ \<Rightarrow> 0 | Inr v \<Rightarrow> v);
              ask = (if template = 1 then rmap AskChat (read_chat block r)
                     else if template = 2 then read_embed block r
                     else if template = 3 then read_decide block r
                     else if template = 4 then read_load block r
                     else if template = 5 then rmap (AskUnload \<circ> fst) (rd_text r)
                     else if template = 6 then Inr AskList
                     else if template = 7 then Inr AskShutdown
                     else Inl Bad)
          in (rid, ask))"

text \<open>The command line's side.\<close>

definition request :: "u16 \<Rightarrow> u64 \<Rightarrow> bytes \<Rightarrow> bytes" where
  "request template rid rest = wr_new template (f_u64 rid [] @ rest)"

definition cli_down :: "u64 \<Rightarrow> bytes" where
  "cli_down rid = request 7 rid []"

definition cli_ps :: "u64 \<Rightarrow> bytes" where
  "cli_ps rid = request 6 rid []"

definition cli_load :: "u64 \<Rightarrow> str \<Rightarrow> u64 \<Rightarrow> u32 \<Rightarrow> bool \<Rightarrow> bytes" where
  "cli_load rid name k context pin =
     wr_text name (request 4 rid (f_u8 (of_bool pin) (f_u32 context (f_u64 k []))))"

definition cli_unload :: "u64 \<Rightarrow> str \<Rightarrow> bytes" where
  "cli_unload rid name = wr_text name (request 5 rid [])"

definition attached_bytes :: "u8 \<times> blob \<Rightarrow> bytes" where
  "attached_bytes a = (case a of (media, b) \<Rightarrow> f_u8 media (f_u64 (blob_length b) (f_u64 (blob_offset b) [])))"

definition cli_sampling :: bytes where
  "cli_sampling =
     f_u8 0 (f_u32 F32_ONE (f_u32 0 (f_u32 F32_ONE (f_u32 0 (f_u32 0 (f_u32 0 (f_u64 (- 1) (f_u64 0 []))))))))"

definition cli_run :: "u64 \<Rightarrow> str \<Rightarrow> str \<Rightarrow> (u8 \<times> blob) list \<Rightarrow> bytes" where
  "cli_run rid name prompt attached =
     wr_text name (wr_text prompt
       (fold (\<lambda>a w. wr_bytes (attached_bytes a) w) attached
         (wr_group 17 (length attached) (wr_bytes [1] (wr_group 1 1 (request 1 rid cli_sampling))))))"

definition cli_embed :: "u64 \<Rightarrow> str \<Rightarrow> str list \<Rightarrow> u64 \<Rightarrow> nat option \<Rightarrow> bytes" where
  "cli_embed rid name texts room dims =
     wr_text name (fold wr_text texts (wr_group 0 (length texts)
       (request 2 rid (f_u32 (word_of_nat (case dims of None \<Rightarrow> 0 | Some d \<Rightarrow> d)) (f_u64 room (f_u64 0 []))))))"

fun kind_byte :: "kind \<Rightarrow> u8" where
  "kind_byte Choice = 0"
| "kind_byte Score = 1"
| "kind_byte Noul = 2"

fun asking_one :: "asked \<Rightarrow> bytes \<Rightarrow> bytes" where
  "asking_one (Asked kind instructions options) w =
     wr_text instructions
       (fold (\<lambda>(label, about) w. wr_text about (wr_text label w)) options
         (wr_group 0 (length options) (wr_bytes [kind_byte kind] w)))"

definition asking :: "asked list \<Rightarrow> bytes \<Rightarrow> bytes" where
  "asking asked w = fold asking_one asked (wr_group 1 (length asked) w)"

definition cli_decide :: "u64 \<Rightarrow> str \<Rightarrow> str \<Rightarrow> bool \<Rightarrow> asked list \<Rightarrow> u64 \<Rightarrow> bytes" where
  "cli_decide rid name state conversation asked room =
     wr_text state (wr_text name (asking asked
       (request 3 rid (f_u8 (of_bool conversation) (f_u64 room (f_u64 0 []))))))"

section \<open>Items\<close>

lemma open_step:
  assumes "length block < 65536" "length tail < 2 ^ 32"
  obtains r where "rd_open (wr_new t block @ tail) = Inr (t, block, r)" "rd_ok r" "rd_ahead r = tail"
proof
  let ?r = "rd_skip (8 + length block) \<lparr>rd_bytes = wr_new t block @ tail, rd_at = 0\<rparr>"
  show "rd_open (wr_new t block @ tail) = Inr (t, block, ?r)" using assms by (rule rd_open_wr_new)
  show "rd_ok ?r" "rd_ahead ?r = tail"
    using assms by (simp_all add: rd_ok_def rd_skip_def rd_ahead_def wr_new_def)
qed

lemma fold_wr_text: "fold wr_text ts w = w @ concat (map text_bytes ts)"
  by (induction ts arbitrary: w) (simp_all add: wr_text_def)

lemma fold_wr_bytes: "fold (\<lambda>a w. wr_bytes (f a) w) as w = w @ concat (map f as)"
  by (induction as arbitrary: w) (simp_all add: wr_bytes_def)

definition option_bytes :: "str \<times> str \<Rightarrow> bytes" where
  "option_bytes p = text_bytes (fst p) @ text_bytes (snd p)"

lemma fold_options:
  "fold (\<lambda>(label, about) w. wr_text about (wr_text label w)) os w = w @ concat (map option_bytes os)"
  by (induction os arbitrary: w) (auto simp: wr_text_def option_bytes_def)

definition asked_bytes :: "asked \<Rightarrow> bytes" where
  "asked_bytes a = asking_one a []"

lemma asked_bytes_eq:
  "asked_bytes (Asked kind instructions options) =
     [kind_byte kind] @ group_bytes 0 (length options) @ concat (map option_bytes options) @ text_bytes instructions"
  unfolding asked_bytes_def asking_one.simps fold_options by (simp add: wr_text_def wr_group_def wr_bytes_def)

lemma asking_one_append: "asking_one a w = w @ asked_bytes a"
proof (cases a)
  case (Asked k i os)
  show ?thesis
    unfolding Asked asked_bytes_eq unfolding asking_one.simps fold_options
    by (simp add: wr_text_def wr_group_def wr_bytes_def)
qed

lemma asking_eq: "asking as w = w @ group_bytes 1 (length as) @ concat (map asked_bytes as)"
proof -
  have "fold asking_one as v = v @ concat (map asked_bytes as)" for v
    by (induction as arbitrary: v) (simp_all add: asking_one_append)
  then show ?thesis by (simp add: asking_def wr_group_def)
qed

definition asked_ok :: "asked \<Rightarrow> bool" where
  "asked_ok a = (case a of Asked kind instructions options \<Rightarrow>
     text_ok instructions \<and> length options < 65536 \<and> list_all (\<lambda>(l, d). text_ok l \<and> text_ok d) options)"

lemma kind_at_byte [simp]: "kind_at (kind_byte k) = Some k"
  by (cases k) (simp_all add: kind_at_def)

interpretation attached_codec: wire_codec attached_bytes "read_attached 17" "\<lambda>_. True"
proof
  fix r :: reader and a :: "u8 \<times> blob" and rest :: bytes
  assume ok: "rd_ok r" and ahead: "rd_ahead r = attached_bytes a @ rest"
  obtain media b where a: "a = (media, b)" by (cases a)
  have eq: "attached_bytes a = le_bytes 8 (unat (blob_offset b)) @ le_bytes 8 (unat (blob_length b)) @ [media]"
    by (simp add: a attached_bytes_def field_defs)
  have len: "length (attached_bytes a) = 17" by (simp add: eq)
  have entry: "rd_entry 17 r = Inr (attached_bytes a, rd_skip 17 r)"
    using entry_codec.dec_enc [OF ok len ahead] len by simp
  have "blk_blob (attached_bytes a) 0 = Inr b"
    using blk_blob_field [of "[]" 0 b "[media]"] by (simp add: eq)
  moreover have "blk_u8 (attached_bytes a) 16 = Inr media"
    using blk_u8_field [of "le_bytes 8 (unat (blob_offset b)) @ le_bytes 8 (unat (blob_length b))" 16 media "[]"]
    by (simp add: eq)
  ultimately show "read_attached 17 r = Inr (a, rd_skip (length (attached_bytes a)) r)"
    using entry len by (simp add: read_attached_def a)
qed

interpretation item_codec: wire_codec text_bytes "read_item 0" text_ok
proof
  fix r :: reader and t :: str and rest :: bytes
  assume ok: "rd_ok r" and valid: "text_ok t" and ahead: "rd_ahead r = text_bytes t @ rest"
  have "rd_entry 0 r = Inr ([], r)"
    using entry_codec.dec_enc [OF ok, of "[]" 0 "rd_ahead r"] by (simp add: rd_skip_def)
  then show "read_item 0 r = Inr (t, rd_skip (length (text_bytes t)) r)"
    using text_codec.dec_enc [OF ok valid ahead] by (simp add: read_item_def)
qed

interpretation option_codec: wire_codec option_bytes "read_option 0" "\<lambda>(l, d). text_ok l \<and> text_ok d"
proof
  fix r :: reader and p :: "str \<times> str" and rest :: bytes
  assume ok: "rd_ok r" and valid: "case p of (l, d) \<Rightarrow> text_ok l \<and> text_ok d"
    and ahead: "rd_ahead r = option_bytes p @ rest"
  obtain l d where p: "p = (l, d)" by (cases p)
  have tl: "text_ok l" and td: "text_ok d" using valid p by simp_all
  have al: "rd_ahead r = text_bytes l @ (text_bytes d @ rest)" using ahead by (simp add: p option_bytes_def)
  have "rd_entry 0 r = Inr ([], r)"
    using entry_codec.dec_enc [OF ok, of "[]" 0 "rd_ahead r"] by (simp add: rd_skip_def)
  moreover obtain r1 where r1: "rd_text r = Inr (l, r1)" "r1 = rd_skip (length (text_bytes l)) r" "rd_ok r1"
    "rd_ahead r1 = text_bytes d @ rest"
    using ok tl al by (rule text_codec.dec_step)
  moreover have "rd_text r1 = Inr (d, rd_skip (length (text_bytes d)) r1)"
    using r1(3) td r1(4) by (rule text_codec.dec_enc)
  ultimately show "read_option 0 r = Inr (p, rd_skip (length (option_bytes p)) r)"
    by (simp add: read_option_def p option_bytes_def rd_skip_skip)
qed

interpretation asked_codec: wire_codec asked_bytes "read_asked 1" asked_ok
proof
  fix r :: reader and a :: asked and rest :: bytes
  assume ok: "rd_ok r" and valid: "asked_ok a" and ahead: "rd_ahead r = asked_bytes a @ rest"
  obtain k i os where a: "a = Asked k i os" by (cases a)
  have vi: "text_ok i" and n: "length os < 65536" and vo: "list_all (\<lambda>(l, d). text_ok l \<and> text_ok d) os"
    using valid by (simp_all add: a asked_ok_def)
  have a0: "rd_ahead r = [kind_byte k] @
      (group_bytes 0 (length os) @ concat (map option_bytes os) @ text_bytes i @ rest)"
    using ahead by (simp add: a asked_bytes_eq)
  have one: "length [kind_byte k] = 1" by simp
  obtain r1 where r1: "rd_entry 1 r = Inr ([kind_byte k], r1)" "r1 = rd_skip (length [kind_byte k]) r" "rd_ok r1"
    "rd_ahead r1 = group_bytes 0 (length os) @ concat (map option_bytes os) @ text_bytes i @ rest"
    using ok one a0 by (rule entry_codec.dec_step)
  have g: "(\<lambda>(len :: nat, count :: nat). len < 65536 \<and> count < 65536) (0, length os)" using n by simp
  obtain r2 where r2: "rd_group r1 = Inr ((0, length os), r2)"
    "r2 = rd_skip (length (group_bytes 0 (length os))) r1" "rd_ok r2"
    "rd_ahead r2 = concat (map option_bytes os) @ text_bytes i @ rest"
    using group_codec.dec_step [OF r1(3) g] r1(4) by auto
  obtain r3 where r3: "read_n (length os) (read_option 0) r2 = Inr (os, r3)"
    "r3 = rd_skip (length (concat (map option_bytes os))) r2" "rd_ok r3" "rd_ahead r3 = text_bytes i @ rest"
    using r2(3) vo r2(4) by (rule option_codec.read_n_step)
  have "rd_text r3 = Inr (i, rd_skip (length (text_bytes i)) r3)"
    using r3(3) vi r3(4) by (rule text_codec.dec_enc)
  then show "read_asked 1 r = Inr (a, rd_skip (length (asked_bytes a)) r)"
    using r1(1,2) r2(1,2) r3(1,2)
    by (simp add: read_asked_def a asked_bytes_eq blk_u8_def rd_skip_skip add.assoc)
qed

section \<open>The readers stay inside the request area\<close>

interpretation attached_reader: wire_reader "read_attached len" for len
proof
  fix r r' :: reader and x :: "u8 \<times> blob"
  assume "rd_ok r" "read_attached len r = Inr (x, r')"
  then show "rd_moved r r'"
    using entry_reader.dec_within [of r len] by (auto simp: read_attached_def result_simps)
qed

interpretation item_reader: wire_reader "read_item len" for len
proof
  fix r r' :: reader and x :: str
  assume ok: "rd_ok r" and run: "read_item len r = Inr (x, r')"
  then obtain e r1 where one: "rd_entry len r = Inr (e, r1)" and two: "rd_text r1 = Inr (x, r')"
    by (auto simp: read_item_def result_simps)
  have "rd_moved r r1" using ok one by (rule entry_reader.dec_within)
  also have "rd_moved r1 r'" using rd_moved_ok [OF calculation] two by (rule text_reader.dec_within)
  finally show "rd_moved r r'" .
qed

interpretation option_reader: wire_reader "read_option len" for len
proof
  fix r r' :: reader and x :: "str \<times> str"
  assume ok: "rd_ok r" and run: "read_option len r = Inr (x, r')"
  then obtain e r1 l r2 d where one: "rd_entry len r = Inr (e, r1)" and two: "rd_text r1 = Inr (l, r2)"
    and three: "rd_text r2 = Inr (d, r')"
    by (auto simp: read_option_def result_simps)
  have m1: "rd_moved r r1" using ok one by (rule entry_reader.dec_within)
  have m2: "rd_moved r1 r2" using rd_moved_ok [OF m1] two by (rule text_reader.dec_within)
  have m3: "rd_moved r2 r'" using rd_moved_ok [OF m2] three by (rule text_reader.dec_within)
  show "rd_moved r r'" using m1 m2 m3 rd_moved_trans by blast
qed

interpretation said_reader: wire_reader "read_said len" for len
proof
  fix r r' :: reader and x :: said
  assume ok: "rd_ok r" and run: "read_said len r = Inr (x, r')"
  then obtain e r1 alen an r2 as r3 t where one: "rd_entry len r = Inr (e, r1)"
    and two: "rd_group r1 = Inr ((alen, an), r2)" and three: "read_n an (read_attached alen) r2 = Inr (as, r3)"
    and four: "rd_text r3 = Inr (t, r')"
    by (auto simp: read_said_def result_simps)
  have m1: "rd_moved r r1" using ok one by (rule entry_reader.dec_within)
  have m2: "rd_moved r1 r2" using rd_moved_ok [OF m1] two by (rule group_reader.dec_within)
  have m3: "rd_moved r2 r3" using rd_moved_ok [OF m2] three by (rule attached_reader.read_n_within)
  have m4: "rd_moved r3 r'" using rd_moved_ok [OF m3] four by (rule text_reader.dec_within)
  show "rd_moved r r'" using m1 m2 m3 m4 rd_moved_trans by blast
qed

interpretation asked_reader: wire_reader "read_asked len" for len
proof
  fix r r' :: reader and x :: asked
  assume ok: "rd_ok r" and run: "read_asked len r = Inr (x, r')"
  then obtain e r1 olen on r2 os r3 t where one: "rd_entry len r = Inr (e, r1)"
    and two: "rd_group r1 = Inr ((olen, on), r2)" and three: "read_n on (read_option olen) r2 = Inr (os, r3)"
    and four: "rd_text r3 = Inr (t, r')"
    by (auto simp: read_asked_def result_simps)
  have m1: "rd_moved r r1" using ok one by (rule entry_reader.dec_within)
  have m2: "rd_moved r1 r2" using rd_moved_ok [OF m1] two by (rule group_reader.dec_within)
  have m3: "rd_moved r2 r3" using rd_moved_ok [OF m2] three by (rule option_reader.read_n_within)
  have m4: "rd_moved r3 r'" using rd_moved_ok [OF m3] four by (rule text_reader.dec_within)
  show "rd_moved r r'" using m1 m2 m3 m4 rd_moved_trans by blast
qed

section \<open>Requests\<close>

lemma unat_u32_option [simp]: "d < 2 ^ 32 \<Longrightarrow> unat (word_of_nat d :: u32) = d"
  by (simp add: unat_word_of_nat_u32)

lemma sampling_block:
  "length (f_u64 rid [] @ cli_sampling) = 49"
  "read_sampling (f_u64 rid [] @ cli_sampling) = Inr sampling_default"
  "blk_u32 (f_u64 rid [] @ cli_sampling) 24 = Inr 0" "blk_u8 (f_u64 rid [] @ cli_sampling) 48 = Inr 0"
  "blk_u64 (f_u64 rid [] @ cli_sampling) 16 = Inr (- 1)" "blk_u64 (f_u64 rid [] @ cli_sampling) 0 = Inr rid"
  by (simp_all add: cli_sampling_def field_defs blk_walk read_sampling_def blk_f32_def sampling_default_def
      F32_ONE_def)


text \<open>The block of every other request, its fields where the daemon looks for them.\<close>

lemma load_block:
  fixes rid k :: u64 and ctx :: u32 and pin :: bool
  defines "b \<equiv> f_u64 rid [] @ f_u8 (of_bool pin) (f_u32 ctx (f_u64 k []))"
  shows "length b = 21" "blk_u64 b 0 = Inr rid" "blk_u64 b 8 = Inr k" "blk_u32 b 16 = Inr ctx"
    "blk_u8 b 20 = Inr (of_bool pin)"
  by (simp_all add: b_def field_defs blk_walk)

lemma embed_block:
  fixes rid room :: u64 and dims :: u32
  defines "b \<equiv> f_u64 rid [] @ f_u32 dims (f_u64 room (f_u64 0 []))"
  shows "length b = 28" "blk_u64 b 0 = Inr rid" "blk_u32 b 24 = Inr dims"
    "blk_blob b 8 = Inr \<lparr>blob_offset = 0, blob_length = room\<rparr>"
  by (simp_all add: b_def field_defs blk_walk blk_blob_def)

lemma decide_block:
  fixes rid room :: u64 and conversation :: bool
  defines "b \<equiv> f_u64 rid [] @ f_u8 (of_bool conversation) (f_u64 room (f_u64 0 []))"
  shows "length b = 25" "blk_u64 b 0 = Inr rid" "blk_u8 b 24 = Inr (of_bool conversation)"
    "blk_blob b 8 = Inr \<lparr>blob_offset = 0, blob_length = room\<rparr>"
  by (simp_all add: b_def field_defs blk_walk blk_blob_def)

lemma plain_block:
  fixes rid :: u64
  shows "length (f_u64 rid [] @ []) = 8" "blk_u64 (f_u64 rid [] @ []) 0 = Inr rid"
  by (simp_all add: field_defs blk_walk)

lemma read_cli_load:
  assumes "text_ok name" "length (text_bytes name @ junk) < 2 ^ 32"
  shows "read_request (cli_load rid name k ctx pin @ junk) = (rid, Inr (AskLoad name (keep k) (unat ctx) pin))"
proof -
  let ?b = "f_u64 rid [] @ f_u8 (of_bool pin) (f_u32 ctx (f_u64 k []))"
  have msg: "cli_load rid name k ctx pin @ junk = wr_new 4 ?b @ text_bytes name @ junk"
    by (simp add: cli_load_def request_def wr_text_def)
  have short: "length ?b < 65536" by (simp add: field_defs)
  obtain r where r: "rd_open (cli_load rid name k ctx pin @ junk) = Inr (4, ?b, r)" "rd_ok r"
    "rd_ahead r = text_bytes name @ junk"
    unfolding msg using short assms(2) by (rule open_step)
  have "rd_text r = Inr (name, rd_skip (length (text_bytes name)) r)"
    using r(2) assms(1) r(3) by (rule text_codec.dec_enc)
  then show ?thesis by (simp add: read_request_def r(1) load_block read_load_def)
qed

lemma read_cli_unload:
  assumes "text_ok name" "length (text_bytes name @ junk) < 2 ^ 32"
  shows "read_request (cli_unload rid name @ junk) = (rid, Inr (AskUnload name))"
proof -
  let ?b = "f_u64 rid [] @ []"
  have msg: "cli_unload rid name @ junk = wr_new 5 ?b @ text_bytes name @ junk"
    by (simp add: cli_unload_def request_def wr_text_def)
  have short: "length ?b < 65536" by (simp add: field_defs)
  obtain r where r: "rd_open (cli_unload rid name @ junk) = Inr (5, ?b, r)" "rd_ok r"
    "rd_ahead r = text_bytes name @ junk"
    unfolding msg using short assms(2) by (rule open_step)
  have "rd_text r = Inr (name, rd_skip (length (text_bytes name)) r)"
    using r(2) assms(1) r(3) by (rule text_codec.dec_enc)
  then show ?thesis using plain_block(2) [of rid] by (simp add: read_request_def r(1))
qed

lemma read_cli_plain:
  assumes "length junk < 2 ^ 32"
  shows "read_request (cli_ps rid @ junk) = (rid, Inr AskList)"
    and "read_request (cli_down rid @ junk) = (rid, Inr AskShutdown)"
proof -
  let ?b = "f_u64 rid [] @ []"
  have b: "length ?b < 65536" by (simp add: field_defs)
  obtain r where r: "rd_open (cli_ps rid @ junk) = Inr (6, ?b, r)"
    unfolding cli_ps_def request_def using b assms by (rule open_step)
  then show "read_request (cli_ps rid @ junk) = (rid, Inr AskList)"
    using plain_block(2) [of rid] by (simp add: read_request_def)
  obtain r where r: "rd_open (cli_down rid @ junk) = Inr (7, ?b, r)"
    unfolding cli_down_def request_def using b assms by (rule open_step)
  then show "read_request (cli_down rid @ junk) = (rid, Inr AskShutdown)"
    using plain_block(2) [of rid] by (simp add: read_request_def)
qed

lemma read_cli_embed:
  assumes "text_ok name" "list_all text_ok texts" "length texts < 65536" "case dims of None \<Rightarrow> True | Some d \<Rightarrow> d < 2 ^ 32"
    and "length (cli_embed rid name texts room dims @ junk) < 2 ^ 32"
  shows "read_request (cli_embed rid name texts room dims @ junk) =
    (rid, Inr (AskEmbed \<lparr>em_model = name, em_texts = texts, em_dims = (case dims of None \<Rightarrow> 0 | Some d \<Rightarrow> d),
       em_out = \<lparr>blob_offset = 0, blob_length = room\<rparr>\<rparr>))"
proof -
  let ?d = "word_of_nat (case dims of None \<Rightarrow> 0 | Some d \<Rightarrow> d) :: u32"
  let ?b = "f_u64 rid [] @ f_u32 ?d (f_u64 room (f_u64 0 []))"
  let ?tail = "group_bytes 0 (length texts) @ concat (map text_bytes texts) @ text_bytes name @ junk"
  have msg: "cli_embed rid name texts room dims @ junk = wr_new 2 ?b @ ?tail"
    unfolding cli_embed_def fold_wr_text by (simp add: request_def wr_text_def wr_group_def)
  have small: "length ?tail < 2 ^ 32" using assms(5) unfolding msg by simp
  have short: "length ?b < 65536" by (simp add: field_defs)
  obtain r where r: "rd_open (cli_embed rid name texts room dims @ junk) = Inr (2, ?b, r)" "rd_ok r"
    "rd_ahead r = ?tail"
    unfolding msg using short small by (rule open_step)
  have g: "(\<lambda>(len :: nat, count :: nat). len < 65536 \<and> count < 65536) (0, length texts)" using assms(3) by simp
  obtain r1 where r1: "rd_group r = Inr ((0, length texts), r1)" "rd_ok r1"
    "rd_ahead r1 = concat (map text_bytes texts) @ text_bytes name @ junk"
    using group_codec.dec_step [OF r(2) g] r(3) by auto
  obtain r2 where r2: "read_n (length texts) (read_item 0) r1 = Inr (texts, r2)" "rd_ok r2"
    "rd_ahead r2 = text_bytes name @ junk"
    using r1(2) assms(2) r1(3) by (rule item_codec.read_n_step)
  have "rd_text r2 = Inr (name, rd_skip (length (text_bytes name)) r2)"
    using r2(2) assms(1) r2(3) by (rule text_codec.dec_enc)
  moreover have "unat ?d = (case dims of None \<Rightarrow> 0 | Some d \<Rightarrow> d)"
    using assms(4) by (auto split: option.splits)
  ultimately show ?thesis
    using r1(1) r2(1) by (simp add: read_request_def r(1) embed_block read_embed_def)
qed

lemma le_bytes_65536: "le_bytes 2 65536 = le_bytes 2 0"
proof -
  have "byte 65536 = 0" "byte 256 = 0" "byte 0 = 0" by (simp_all add: byte_def)
  then show ?thesis by (simp add: numeral_2_eq_2)
qed

lemma read_cli_decide:
  assumes "text_ok name" "text_ok state" "list_all asked_ok asked" "length asked < 65536"
    and "length (cli_decide rid name state conversation asked room @ junk) < 2 ^ 32"
  shows "read_request (cli_decide rid name state conversation asked room @ junk) =
    (rid, Inr (AskDecide \<lparr>de_model = name, de_state = state, de_conversation = conversation, de_questions = asked,
       de_out = \<lparr>blob_offset = 0, blob_length = room\<rparr>\<rparr>))"
proof -
  let ?b = "f_u64 rid [] @ f_u8 (of_bool conversation) (f_u64 room (f_u64 0 []))"
  let ?tail = "group_bytes 1 (length asked) @ concat (map asked_bytes asked) @ text_bytes name @ text_bytes state @ junk"
  have msg: "cli_decide rid name state conversation asked room @ junk = wr_new 3 ?b @ ?tail"
    unfolding cli_decide_def asking_eq by (simp add: request_def wr_text_def wr_group_def)
  have small: "length ?tail < 2 ^ 32" using assms(5) unfolding msg by simp
  have short: "length ?b < 65536" by (simp add: field_defs)
  obtain r where r: "rd_open (cli_decide rid name state conversation asked room @ junk) = Inr (3, ?b, r)" "rd_ok r"
    "rd_ahead r = ?tail"
    unfolding msg using short small by (rule open_step)
  have g: "(\<lambda>(len :: nat, count :: nat). len < 65536 \<and> count < 65536) (1, length asked)" using assms(4) by simp
  obtain r1 where r1: "rd_group r = Inr ((1, length asked), r1)" "rd_ok r1"
    "rd_ahead r1 = concat (map asked_bytes asked) @ text_bytes name @ text_bytes state @ junk"
    using group_codec.dec_step [OF r(2) g] r(3) by auto
  obtain r2 where r2: "read_n (length asked) (read_asked 1) r1 = Inr (asked, r2)" "rd_ok r2"
    "rd_ahead r2 = text_bytes name @ text_bytes state @ junk"
    using r1(2) assms(3) r1(3) by (rule asked_codec.read_n_step)
  obtain r3 where r3: "rd_text r2 = Inr (name, r3)" "rd_ok r3" "rd_ahead r3 = text_bytes state @ junk"
    using r2(2) assms(1) r2(3) by (rule text_codec.dec_step)
  have "rd_text r3 = Inr (state, rd_skip (length (text_bytes state)) r3)"
    using r3(2) assms(2) r3(3) by (rule text_codec.dec_enc)
  then show ?thesis
    using r1(1) r2(1) r3(1) by (simp add: read_request_def r(1) decide_block read_decide_def)
qed

lemma read_cli_run:
  assumes "text_ok name" "text_ok prompt" "length attached < 65536"
    and "length (cli_run rid name prompt attached @ junk) < 2 ^ 32"
  shows "read_request (cli_run rid name prompt attached @ junk) =
    (rid, Inr (AskChat \<lparr>ch_model = name, ch_messages = [Said User prompt attached], ch_sampling = sampling_default,
       ch_max_tokens = USIZE_MAX, ch_think = False, ch_keep = None\<rparr>))"
proof -
  let ?b = "f_u64 rid [] @ cli_sampling"
  let ?rest = "group_bytes 17 (length attached) @ concat (map attached_bytes attached) @ text_bytes prompt @
      text_bytes name @ junk"
  let ?tail = "group_bytes 1 1 @ [1] @ ?rest"
  have msg: "cli_run rid name prompt attached @ junk = wr_new 1 ?b @ ?tail"
    unfolding cli_run_def fold_wr_bytes by (simp add: request_def wr_text_def wr_group_def wr_bytes_def)
  have small: "length ?tail < 2 ^ 32" using assms(4) unfolding msg by simp
  have short: "length ?b < 65536" by (simp add: cli_sampling_def field_defs)
  obtain r where r: "rd_open (cli_run rid name prompt attached @ junk) = Inr (1, ?b, r)" "rd_ok r"
    "rd_ahead r = ?tail"
    unfolding msg using short small by (rule open_step)
  have g: "(\<lambda>(len :: nat, count :: nat). len < 65536 \<and> count < 65536) (1, 1)" by simp
  obtain r1 where r1: "rd_group r = Inr ((1, 1), r1)" "rd_ok r1" "rd_ahead r1 = [1] @ ?rest"
    using group_codec.dec_step [OF r(2) g] r(3) by auto
  obtain r2 where r2: "rd_entry 1 r1 = Inr ([1], r2)" "rd_ok r2" "rd_ahead r2 = ?rest"
    using entry_codec.dec_step [OF r1(2), of "[1]" 1 ?rest] r1(3) by auto
  have g2: "(\<lambda>(len :: nat, count :: nat). len < 65536 \<and> count < 65536) (17, length attached)" using assms(3) by simp
  obtain r3 where r3: "rd_group r2 = Inr ((17, length attached), r3)" "rd_ok r3"
    "rd_ahead r3 = concat (map attached_bytes attached) @ text_bytes prompt @ text_bytes name @ junk"
    using group_codec.dec_step [OF r2(2) g2] r2(3) by auto
  have all: "list_all (\<lambda>_. True) attached" by (induction attached) auto
  obtain r4 where r4: "read_n (length attached) (read_attached 17) r3 = Inr (attached, r4)" "rd_ok r4"
    "rd_ahead r4 = text_bytes prompt @ text_bytes name @ junk"
    using r3(2) all r3(3) by (rule attached_codec.read_n_step)
  obtain r5 where r5: "rd_text r4 = Inr (prompt, r5)" "rd_ok r5" "rd_ahead r5 = text_bytes name @ junk"
    using r4(2) assms(2) r4(3) by (rule text_codec.dec_step)
  have last: "rd_text r5 = Inr (name, rd_skip (length (text_bytes name)) r5)"
    using r5(2) assms(1) r5(3) by (rule text_codec.dec_enc)
  have "read_said 1 r1 = Inr (Said User prompt attached, r5)"
    using r2(1) r3(1) r4(1) r5(1) by (simp add: read_said_def blk_u8_def role_at_def)
  then show ?thesis
    using r1(1) last by (simp add: read_request_def r(1) sampling_block read_chat_def keep_def)
qed

section \<open>Properties\<close>

text \<open>
  C25. A chat request: what \<open>tachyon run\<close> writes into the request area (the prompt, the attachments by kind and
  blob, the model's name) is what the daemon reads, as one user message, sampled greedily, without a bound on the
  tokens and with the daemon's keep-alive, whatever an earlier and longer request left behind it.
\<close>

theorem chat_round_trip:
  assumes "text_ok name" "text_ok prompt" "length attached < 65536"
    and "length (cli_run rid name prompt attached @ junk) < 2 ^ 32"
  shows "read_request (cli_run rid name prompt attached @ junk) =
    (rid, Inr (AskChat \<lparr>ch_model = name, ch_messages = [Said User prompt attached], ch_sampling = sampling_default,
       ch_max_tokens = USIZE_MAX, ch_think = False, ch_keep = None\<rparr>))"
  using assms by (rule read_cli_run)

lemma small_texts: "text_ok (map of_char ''e4b'')" "text_ok (map of_char ''hi'')" "text_ok []"
  by (simp_all add: text_ok_def str_ok_def is_scalar_def to_utf8_def encode_utf8_def)

theorem chat_round_trip_witness:
  "read_request (cli_run 2 (map of_char ''e4b'') (map of_char ''hi'') [(0, \<lparr>blob_offset = 0, blob_length = 5\<rparr>)] @ [7, 7]) =
    (2, Inr (AskChat \<lparr>ch_model = map of_char ''e4b'',
       ch_messages = [Said User (map of_char ''hi'') [(0, \<lparr>blob_offset = 0, blob_length = 5\<rparr>)]],
       ch_sampling = sampling_default, ch_max_tokens = USIZE_MAX, ch_think = False, ch_keep = None\<rparr>))"
  by (rule chat_round_trip [OF small_texts(1,2)])
    (simp_all add: cli_run_def request_def wr_text_def wr_group_def wr_bytes_def wr_new_def attached_bytes_def
      cli_sampling_def field_defs to_utf8_def encode_utf8_def)

text \<open>
  A Decide request: the questions with their kinds, instructions and options, the model and the state written by
  \<open>tachyon decide\<close> are read back question by question, and the answer goes to the whole data area.
\<close>

theorem decide_round_trip:
  assumes "text_ok name" "text_ok state" "list_all asked_ok asked" "length asked < 65536"
    and "length (cli_decide rid name state conversation asked room @ junk) < 2 ^ 32"
  shows "read_request (cli_decide rid name state conversation asked room @ junk) =
    (rid, Inr (AskDecide \<lparr>de_model = name, de_state = state, de_conversation = conversation, de_questions = asked,
       de_out = \<lparr>blob_offset = 0, blob_length = room\<rparr>\<rparr>))"
  using assms by (rule read_cli_decide)

theorem decide_round_trip_witness:
  "read_request (cli_decide 3 (map of_char ''e4b'') (map of_char ''hi'') True
      [Asked Score (map of_char ''hi'') [(map of_char ''hi'', [])], Asked Noul [] []] 64 @ [9]) =
    (3, Inr (AskDecide \<lparr>de_model = map of_char ''e4b'', de_state = map of_char ''hi'', de_conversation = True,
       de_questions = [Asked Score (map of_char ''hi'') [(map of_char ''hi'', [])], Asked Noul [] []],
       de_out = \<lparr>blob_offset = 0, blob_length = 64\<rparr>\<rparr>))"
  by (rule decide_round_trip [OF small_texts(1,2)])
    (simp_all add: asked_ok_def small_texts del: list.map,
      simp_all add: cli_decide_def asking_def request_def wr_text_def wr_group_def wr_bytes_def wr_new_def
      field_defs to_utf8_def encode_utf8_def)

text \<open>
  An Embed request with fewer than 65,536 texts is read back: the texts in order, the model, the number of values
  kept of each embedding (0 when not asked), the output blob.
\<close>

theorem embed_round_trip:
  assumes "text_ok name" "list_all text_ok texts" "length texts < 65536" "case dims of None \<Rightarrow> True | Some d \<Rightarrow> d < 2 ^ 32"
    and "length (cli_embed rid name texts room dims @ junk) < 2 ^ 32"
  shows "read_request (cli_embed rid name texts room dims @ junk) =
    (rid, Inr (AskEmbed \<lparr>em_model = name, em_texts = texts, em_dims = (case dims of None \<Rightarrow> 0 | Some d \<Rightarrow> d),
       em_out = \<lparr>blob_offset = 0, blob_length = room\<rparr>\<rparr>))"
  using assms by (rule read_cli_embed)

theorem embed_round_trip_witness:
  "read_request (cli_embed 4 (map of_char ''e4b'') [map of_char ''hi'', []] 64 (Some 256) @ []) =
    (4, Inr (AskEmbed \<lparr>em_model = map of_char ''e4b'', em_texts = [map of_char ''hi'', []],
       em_dims = (case Some 256 of None \<Rightarrow> 0 | Some d \<Rightarrow> d),
       em_out = \<lparr>blob_offset = 0, blob_length = 64\<rparr>\<rparr>))"
  by (rule embed_round_trip [OF small_texts(1)])
    (simp_all add: small_texts del: list.map, simp_all add: cli_embed_def request_def wr_text_def wr_group_def wr_new_def
      field_defs to_utf8_def encode_utf8_def)

text \<open>
  C26. The requests that place models: Load with its keep-alive, context and pin, Unload, and, with no more than their
  number, List and Shutdown, are read back as written.
\<close>

theorem control_round_trip:
  assumes "text_ok name" "length (text_bytes name @ junk) < 2 ^ 32"
  shows "read_request (cli_load rid name k ctx pin @ junk) = (rid, Inr (AskLoad name (keep k) (unat ctx) pin)) \<and>
    read_request (cli_unload rid name @ junk) = (rid, Inr (AskUnload name)) \<and>
    read_request (cli_ps rid @ junk) = (rid, Inr AskList) \<and>
    read_request (cli_down rid @ junk) = (rid, Inr AskShutdown)"
  using read_cli_load [OF assms] read_cli_unload [OF assms] read_cli_plain [of junk] assms(2) by simp

theorem control_round_trip_witness:
  "read_request (cli_load 5 (map of_char ''e4b'') (- 2) 4096 True @ [1]) =
     (5, Inr (AskLoad (map of_char ''e4b'') (Some DURATION_MAX) 4096 True)) \<and>
   read_request (cli_unload 5 (map of_char ''e4b'') @ [1]) = (5, Inr (AskUnload (map of_char ''e4b'')))"
  using control_round_trip [OF small_texts(1), of "[1]" 5 "- 2" 4096 True]
  by (simp add: wr_text_def to_utf8_def encode_utf8_def keep_def)

text \<open>
  A group's count has 16 bits and the writer cuts it: of an Embed with exactly 65,536 texts the daemon reads no
  text at all, and takes the first text for the model's name. Nothing on either side refuses such a request.
\<close>

theorem embed_count_wraps:
  assumes "text_ok name" "list_all text_ok texts" "length texts = 65536"
    and "length (cli_embed rid name texts room None @ junk) < 2 ^ 32"
  shows "read_request (cli_embed rid name texts room None @ junk) =
    (rid, Inr (AskEmbed \<lparr>em_model = hd texts, em_texts = [], em_dims = 0,
       em_out = \<lparr>blob_offset = 0, blob_length = room\<rparr>\<rparr>))"
proof -
  obtain t ts where texts: "texts = t # ts" using assms(3) by (cases texts) auto
  have eq: "cli_embed rid name texts room None @ junk =
      cli_embed rid t [] room None @ (concat (map text_bytes ts) @ text_bytes name @ junk)"
    unfolding cli_embed_def fold_wr_text using assms(3)
    by (simp add: texts wr_text_def wr_group_def le_bytes_65536)
  have t: "text_ok t" using assms(2) by (simp add: texts)
  have len: "length (cli_embed rid t [] room None @ (concat (map text_bytes ts) @ text_bytes name @ junk)) < 2 ^ 32"
    using assms(4) unfolding eq .
  show ?thesis
    unfolding eq using read_cli_embed [OF t _ _ _ len] by (simp add: texts)
qed

theorem embed_count_wraps_witness:
  "read_request (cli_embed 4 (map of_char ''e4b'') (replicate 65536 []) 64 None @ []) =
    (4, Inr (AskEmbed \<lparr>em_model = hd (replicate 65536 []), em_texts = [], em_dims = 0,
       em_out = \<lparr>blob_offset = 0, blob_length = 64\<rparr>\<rparr>))"
proof (rule embed_count_wraps [OF small_texts(1)])
  show "list_all text_ok (replicate 65536 [])" using small_texts(3) by (simp add: list_all_iff)
  have "length (concat (map text_bytes (replicate n []))) = 4 * n" for n
    by (induction n) (simp_all add: wr_text_def to_utf8_def)
  then show "length (cli_embed 4 (map of_char ''e4b'') (replicate 65536 []) 64 None @ []) < 2 ^ 32"
    unfolding cli_embed_def fold_wr_text
    by (simp add: wr_text_def wr_group_def request_def wr_new_def field_defs to_utf8_def encode_utf8_def
        del: map_replicate)
qed simp

end
