(* ===== verification/Token.thy ===== *)
theory Token
  imports Utf8
begin

text \<open>
  The tokenizer's data and the way back from tokens to text, \<open>token/mod.rs\<close>: the \<open>Tokenizer\<close> record, a token's
  bytes, \<open>Detokenizer\<close> (whole characters only, as tokens arrive) and the \<open>tokenizer.tok\<close> file
  (\<open>to_bytes\<close>, \<open>from_bytes\<close>). A token and every table entry is a \<open>u32\<close>.
\<close>

section \<open>Definitions\<close>

definition NONE :: u32 where "NONE = 0xFFFFFFFF"

definition DIRECT :: nat where "DIRECT = 0x20000"

record tokenizer =
  tk_flags :: u32
  tk_unk :: u32
  tk_offsets :: "u32 list"
  tk_text :: bytes
  tk_special :: "u32 list"
  tk_bytes :: "u32 list"
  tk_chars :: "u32 list"
  tk_rare :: "u32 list"
  tk_joins :: "u32 list"
  tk_added :: "u32 list"
  tk_merges :: "u32 list"
  tk_words :: "u32 list"
  tk_frame :: "u32 \<times> u32"

definition tok_len :: "tokenizer \<Rightarrow> nat" where
  "tok_len t = length (tk_offsets t) - 1"

definition token_bytes :: "tokenizer \<Rightarrow> u32 \<Rightarrow> bytes" where
  "token_bytes t i =
     (case slice (tk_offsets t) (unat i) 2 of
        None \<Rightarrow> []
      | Some ends \<Rightarrow> take (unat (ends ! 1) - unat (ends ! 0)) (drop (unat (ends ! 0)) (tk_text t)))"

text \<open>The special tokens are sorted, so \<open>binary_search\<close> is membership.\<close>

definition is_special :: "tokenizer \<Rightarrow> u32 \<Rightarrow> bool" where
  "is_special t i \<longleftrightarrow> i \<in> set (tk_special t)"

definition special :: "tokenizer \<Rightarrow> str \<Rightarrow> u32 option" where
  "special t text = find (\<lambda>i. token_bytes t i = to_utf8 text) (tk_special t)"

text \<open>
  \<open>Detokenizer::flush\<close>: the text completed so far and the bytes kept. Each turn of the source's loop takes the
  longest valid prefix and one broken sequence; here a turn takes one character or one broken sequence.
\<close>

definition REPLACEMENT :: scalar where "REPLACEMENT = 0xFFFD"

lemma utf8_next_bounds:
  "utf8_next bs = Whole c n \<Longrightarrow> 0 < n \<and> n \<le> length bs"
  "utf8_next bs = Broken n \<Longrightarrow> bs \<noteq> [] \<Longrightarrow> 0 < n \<and> n \<le> length bs"
  unfolding utf8_next_def
  by (cases "map unat (take 4 bs)" rule: scan_nats.cases;
      auto simp: min_def split: if_splits list.splits elim!: scan2.elims scan3.elims scan4.elims
        dest!: arg_cong [where f = length])+

function flush :: "bool \<Rightarrow> bytes \<Rightarrow> str \<times> bytes" where
  "flush at_end bs =
     (if bs = [] then ([], [])
      else (case utf8_next bs of
              Whole c n \<Rightarrow> apfst (\<lambda>out. c # out) (flush at_end (drop n bs))
            | Broken n \<Rightarrow> apfst (\<lambda>out. replicate n REPLACEMENT @ out) (flush at_end (drop n bs))
            | Cut \<Rightarrow> if at_end then (replicate (length bs) REPLACEMENT, []) else ([], bs)))"
  by pat_completeness auto
termination
  by (relation "measure (length \<circ> snd)") (auto dest: utf8_next_bounds)

declare flush.simps [simp del]

text \<open>The detokenizer's state is its pending bytes.\<close>

definition detok_push :: "tokenizer \<Rightarrow> u32 \<Rightarrow> bytes \<Rightarrow> str \<times> bytes" where
  "detok_push t i pending = (if is_special t i then ([], pending) else flush False (pending @ token_bytes t i))"

definition detok_finish :: "bytes \<Rightarrow> str \<times> bytes" where
  "detok_finish pending = flush True pending"

fun detok_all :: "tokenizer \<Rightarrow> u32 list \<Rightarrow> bytes \<Rightarrow> str \<times> bytes" where
  "detok_all t [] pending = ([], pending)"
| "detok_all t (i # is) pending =
     (let (out, pending) = detok_push t i pending; (outs, pending) = detok_all t is pending in (out @ outs, pending))"

text \<open>\<open>tokenizer.tok\<close>: a magic, then sections of words, each behind its length.\<close>

definition TOK_MAGIC :: bytes where
  "TOK_MAGIC = map of_char ''TACHYTOK''"

fun text_words :: "bytes \<Rightarrow> u32 list" where
  "text_words [] = []"
| "text_words [a] = [word_of_nat (le_val [a])]"
| "text_words [a, b] = [word_of_nat (le_val [a, b])]"
| "text_words [a, b, c] = [word_of_nat (le_val [a, b, c])]"
| "text_words (a # b # c # d # bs) = word_of_nat (le_val [a, b, c, d]) # text_words bs"

definition word_bytes :: "u32 list \<Rightarrow> bytes" where
  "word_bytes ws = concat (map (\<lambda>w. le_bytes 4 (unat w)) ws)"

definition section_bytes :: "u32 list \<Rightarrow> bytes" where
  "section_bytes ws = le_bytes 4 (length ws) @ word_bytes ws"

definition tok_sections :: "tokenizer \<Rightarrow> u32 list list" where
  "tok_sections t =
     [[tk_flags t, tk_unk t, word_of_nat (length (tk_text t)), fst (tk_frame t), snd (tk_frame t)],
      tk_offsets t, text_words (tk_text t), tk_special t, tk_bytes t, tk_chars t, tk_rare t, tk_joins t, tk_added t,
      tk_merges t] @ (if tk_words t = [] then [] else [tk_words t])"

definition tok_to_bytes :: "tokenizer \<Rightarrow> bytes" where
  "tok_to_bytes t = TOK_MAGIC @ concat (map section_bytes (tok_sections t))"

text \<open>\<open>chunks_exact(4)\<close>: an incomplete word at the end is not read.\<close>

fun exact_words :: "bytes \<Rightarrow> u32 list" where
  "exact_words (a # b # c # d # bs) = word_of_nat (le_val [a, b, c, d]) # exact_words bs"
| "exact_words _ = []"

datatype damaged = Damaged

definition section_words :: "u32 list \<Rightarrow> damaged + (u32 list \<times> u32 list)" where
  "section_words ws =
     (case ws of
        [] \<Rightarrow> Inl Damaged
      | n # ws \<Rightarrow> if unat n \<le> length ws then Inr (take (unat n) ws, drop (unat n) ws) else Inl Damaged)"

definition is_power_of_two :: "nat \<Rightarrow> bool" where
  "is_power_of_two n \<longleftrightarrow> n \<noteq> 0 \<and> n AND (n - 1) = 0"

definition tok_sound :: "tokenizer \<Rightarrow> bool" where
  "tok_sound t \<longleftrightarrow>
     tk_offsets t \<noteq> [] \<and> last (tk_offsets t) = word_of_nat (length (tk_text t)) \<and> length (tk_bytes t) = 256 \<and>
     length (tk_chars t) = DIRECT \<and> is_power_of_two (length (tk_merges t))"

definition tok_from_bytes :: "bytes \<Rightarrow> damaged + tokenizer" where
  "tok_from_bytes data =
     (if take 8 data \<noteq> TOK_MAGIC then Inl Damaged
      else rbind (read_n 10 section_words (exact_words (drop 8 data))) (\<lambda>(s, ws).
        let head = s ! 0 in
        if length head < 3 then Inl Damaged
        else rbind (if ws \<noteq> [] then rmap fst (section_words ws) else Inr []) (\<lambda>words.
          let text = take (unat (head ! 2)) (word_bytes (s ! 2));
              frame = (if 3 < length head then head ! 3 else NONE, if 4 < length head then head ! 4 else NONE);
              t = \<lparr>tk_flags = head ! 0, tk_unk = head ! 1, tk_offsets = s ! 1, tk_text = text, tk_special = s ! 3,
                   tk_bytes = s ! 4, tk_chars = s ! 5, tk_rare = s ! 6, tk_joins = s ! 7, tk_added = s ! 8,
                   tk_merges = s ! 9, tk_words = words, tk_frame = frame\<rparr>
          in if tok_sound t then Inr t else Inl Damaged)))"

section \<open>Text as it streams\<close>

text \<open>More bytes never change what a whole or a broken sequence at the start was.\<close>

lemma scan_stable:
  "scan_nats bs = Whole c n \<Longrightarrow> scan_nats (bs @ q) = Whole c n"
  "scan_nats bs = Broken n \<Longrightarrow> scan_nats (bs @ q) = Broken n"
  by (cases bs rule: scan_nats.cases;
      auto split: if_splits list.splits elim!: scan2.elims scan3.elims scan4.elims)+

lemma scan_take4: "scan_nats (take 4 bs) = scan_nats bs"
  by (cases bs rule: scan_nats.cases; cases "tl bs"; cases "tl (tl bs)"; cases "tl (tl (tl bs))"; auto)

lemma utf8_next_stable:
  "utf8_next bs = Whole c n \<Longrightarrow> utf8_next (bs @ q) = Whole c n"
  "utf8_next bs = Broken n \<Longrightarrow> utf8_next (bs @ q) = Broken n"
  by (simp_all add: utf8_next_def take_map [symmetric] scan_take4 scan_stable)

text \<open>Decoding in two goes, the second from the bytes the first kept, is decoding at once.\<close>

lemma flush_append:
  "flush at_end (p @ q) =
     (let (out, kept) = flush False p; (out', kept') = flush at_end (kept @ q) in (out @ out', kept'))"
proof (induction p rule: measure_induct_rule [of length])
  case (less p)
  show ?case
  proof (cases "p = []")
    case True
    then show ?thesis by (simp add: flush.simps [of False "[]"] split: prod.splits)
  next
    case False
    show ?thesis
    proof (cases "utf8_next p")
      case (Whole c n)
      have n: "0 < n" "n \<le> length p" using utf8_next_bounds(1) [OF Whole] by auto
      have "length (drop n p) < length p" using n by simp
      then show ?thesis
        using less.IH [of "drop n p"] False Whole utf8_next_stable(1) [OF Whole, of q] n
        by (simp add: flush.simps [of _ p] flush.simps [of _ "p @ q"] split: prod.splits)
    next
      case (Broken n)
      have n: "0 < n" "n \<le> length p" using utf8_next_bounds(2) [OF Broken False] by auto
      have "length (drop n p) < length p" using n by simp
      then show ?thesis
        using less.IH [of "drop n p"] False Broken utf8_next_stable(2) [OF Broken, of q] n
        by (simp add: flush.simps [of _ p] flush.simps [of _ "p @ q"] split: prod.splits)
    next
      case Cut
      then show ?thesis using False by (simp add: flush.simps [of False p] split: prod.splits)
    qed
  qed
qed

lemma flush_to_utf8: "str_ok s \<Longrightarrow> flush at_end (to_utf8 s) = (s, [])"
proof (induction s)
  case Nil
  then show ?case by (simp add: flush.simps)
next
  case (Cons c s)
  then show ?case by (subst flush.simps) simp
qed

definition spoken :: "tokenizer \<Rightarrow> u32 list \<Rightarrow> bytes" where
  "spoken t is = concat (map (token_bytes t) (filter (\<lambda>i. \<not> is_special t i) is))"

lemma detok_all_flush:
  "flush False pending = ([], pending) \<Longrightarrow> detok_all t is pending = flush False (pending @ spoken t is)"
proof (induction "is" arbitrary: pending)
  case Nil
  then show ?case by (simp add: spoken_def)
next
  case (Cons i "is")
  show ?case
  proof (cases "is_special t i")
    case True
    then show ?thesis using Cons by (simp add: detok_push_def spoken_def split: prod.splits)
  next
    case False
    obtain out kept where out: "flush False (pending @ token_bytes t i) = (out, kept)" by fastforce
    have again: "flush False kept = ([], kept)"
      using out flush_append [of False "pending @ token_bytes t i" "[]"] by (auto split: prod.splits)
    have "spoken t (i # is) = token_bytes t i @ spoken t is" using False by (simp add: spoken_def)
    then show ?thesis
      using Cons.IH [OF again] out False flush_append [of False "pending @ token_bytes t i" "spoken t is"]
      by (simp add: detok_push_def split: prod.splits)
  qed
qed

lemma flush_kept: "flush False bs = (out, kept) \<Longrightarrow> length kept \<le> 3"
proof (induction bs arbitrary: out rule: measure_induct_rule [of length])
  case (less bs)
  show ?case
  proof (cases "bs = []")
    case True
    then show ?thesis using less.prems by (simp add: flush.simps)
  next
    case False
    have cut: "length ns \<le> 3" if "scan_nats ns = Cut" for ns
      using that by (cases ns rule: scan_nats.cases)
        (auto split: if_splits list.splits elim!: scan2.elims scan3.elims scan4.elims)
    show ?thesis
    proof (cases "utf8_next bs")
      case Cut
      then have "length bs \<le> 3" using cut [of "map unat bs"] by (simp add: utf8_next_def take_map [symmetric] scan_take4)
      then show ?thesis using less.prems False Cut by (simp add: flush.simps [of False bs])
    next
      case (Whole c n)
      then show ?thesis
        using less.IH [of "drop n bs"] less.prems False utf8_next_bounds(1) [OF Whole]
        by (auto simp: flush.simps [of False bs] apfst_def map_prod_def split: prod.splits)
    next
      case (Broken n)
      then show ?thesis
        using less.IH [of "drop n bs"] less.prems False utf8_next_bounds(2) [OF Broken False]
        by (auto simp: flush.simps [of False bs] apfst_def map_prod_def split: prod.splits)
    qed
  qed
qed

lemma flush_end_empties: "snd (flush True bs) = []"
proof (induction bs rule: measure_induct_rule [of length])
  case (less bs)
  show ?case
  proof (cases "bs = []")
    case False
    then show ?thesis
      using less.IH [of "drop n bs" for n] utf8_next_bounds [of bs]
      by (cases "utf8_next bs") (auto simp: flush.simps [of True bs])
  qed (simp add: flush.simps)
qed

lemma detok_all_decoded:
  "(let (out, kept) = detok_all t is [] in out @ fst (detok_finish kept)) = fst (flush True (spoken t is))"
proof -
  obtain out kept where out: "detok_all t is [] = (out, kept)" by fastforce
  have "flush False (spoken t is) = (out, kept)"
    using detok_all_flush [of "[]" t "is"] out by (simp add: flush.simps [of False "[]"])
  then show ?thesis
    using flush_append [of True "spoken t is" "[]"] out by (simp add: detok_finish_def split: prod.splits)
qed

text \<open>
  C27. Text comes out as tokens go in, and comes out whole. However the bytes of the characters fall across tokens, the
  pieces the detokenizer hands out, with what it adds at the end, are the decoding of all the tokens' bytes at once
  (invalid bytes one U+FFFD each, special tokens adding nothing); it never holds back more than three bytes.
\<close>

theorem detokenizer_streams:
  "let (out, kept) = detok_all t is []; (rest, left) = detok_finish kept
   in out @ rest = fst (flush True (spoken t is)) \<and> left = [] \<and> length kept \<le> 3"
proof -
  obtain out kept where out: "detok_all t is [] = (out, kept)" by fastforce
  have flushed: "flush False (spoken t is) = (out, kept)"
    using detok_all_flush [of "[]" t "is"] out by (simp add: flush.simps [of False "[]"])
  have "fst (flush True (spoken t is)) = out @ fst (flush True kept)"
    using detok_all_decoded [of t "is"] out by (simp add: detok_finish_def)
  then show ?thesis
    using out flush_kept [OF flushed] flush_end_empties [of kept]
    by (cases "flush True kept") (simp add: detok_finish_def)
qed

text \<open>
  When the tokens' bytes are the UTF-8 of a text, the text is what comes out, with nothing held back and no
  replacement character, whichever way the tokens cut its characters.
\<close>

theorem detokenizer_exact:
  assumes "spoken t is = to_utf8 s" "str_ok s"
  shows "detok_all t is [] = (s, [])"
  using detok_all_flush [of "[]" t "is"] assms flush_to_utf8 [OF assms(2)] by (simp add: flush.simps [of False "[]"])

definition euro_tokens :: tokenizer where
  "euro_tokens =
     \<lparr>tk_flags = 2, tk_unk = NONE, tk_offsets = [0, 1, 2, 3, 5], tk_text = [0xE2, 0x82, 0xAC, 0x2E, 0x2E],
      tk_special = [3], tk_bytes = [], tk_chars = [], tk_rare = [], tk_joins = [], tk_added = [], tk_merges = [],
      tk_words = [], tk_frame = (NONE, NONE)\<rparr>"

theorem detokenizer_exact_witness:
  "detok_all euro_tokens [0, 3, 1, 2] [] = ([0x20AC], []) \<and> detok_push euro_tokens 0 [] = ([], [0xE2])"
proof
  show "detok_all euro_tokens [0, 3, 1, 2] [] = ([0x20AC], [])"
    by (rule detokenizer_exact)
      (simp_all add: spoken_def euro_tokens_def is_special_def token_bytes_def slice_def encode_utf8_def byte_def
        is_scalar_def)
  show "detok_push euro_tokens 0 [] = ([], [0xE2])"
    by (simp add: detok_push_def euro_tokens_def is_special_def token_bytes_def slice_def flush.simps utf8_next_def)
qed

section \<open>The tokenizer's file\<close>

lemma exact_words_append [simp]: "exact_words (le_bytes 4 n @ bs) = word_of_nat n # exact_words bs"
proof -
  let ?b = "le_bytes 4 n"
  have four: "?b = [?b ! 0, ?b ! 1, ?b ! 2, ?b ! 3]" by (rule list_of_4) simp
  have "exact_words (?b @ bs) = word_of_nat (le_val ?b) # exact_words bs" by (subst (1 2) four) simp
  then show ?thesis using word_of_nat_mod [of n, where 'a = 32] by (simp add: le_val_le_bytes)
qed

lemma exact_words_word_bytes [simp]: "exact_words (word_bytes ws @ bs) = ws @ exact_words bs"
  by (induction ws) (simp_all add: word_bytes_def)

lemma section_words_written:
  assumes "length ws < 2 ^ 32"
  shows "section_words (exact_words (section_bytes ws @ bs)) = Inr (ws, exact_words bs)"
  using assms by (simp add: section_bytes_def section_words_def unat_of_nat)

lemma sections_written:
  assumes "list_all (\<lambda>ws. length ws < 2 ^ 32) ss"
  shows "read_n (length ss) section_words (exact_words (concat (map section_bytes ss) @ bs)) = Inr (ss, exact_words bs)"
proof (rule read_n_written)
  fix ws :: "u32 list" and rest :: bytes
  assume "ws \<in> set ss"
  then have "length ws < 2 ^ 32" using assms by (simp add: list_all_iff)
  then show "section_words (exact_words (section_bytes ws @ rest)) = Inr (ws, exact_words rest)"
    by (rule section_words_written)
qed

lemma le_bytes_word: "length bs = 4 \<Longrightarrow> le_bytes 4 (unat (word_of_nat (le_val bs) :: u32)) = bs"
  using le_val_bound [of bs] le_bytes_le_val [of bs] by (simp add: unat_of_nat)

lemma le_val_pad: "le_val (bs @ replicate n 0) = le_val bs"
proof -
  have "le_val (replicate n 0) = 0" by (induction n) simp_all
  then show ?thesis by (induction bs) simp_all
qed

lemma text_word_pad:
  assumes "length bs + n = 4"
  shows "le_bytes 4 (unat (word_of_nat (le_val bs) :: u32)) = bs @ replicate n 0"
  using le_bytes_word [of "bs @ replicate n 0"] assms by (simp add: le_val_pad)

lemma take_text_words: "take (length bs) (word_bytes (text_words bs)) = bs"
proof (induction bs rule: text_words.induct)
  case (2 a)
  then show ?case using text_word_pad [of "[a]" 3] by (simp add: word_bytes_def)
next
  case (3 a b)
  then show ?case using text_word_pad [of "[a, b]" 2] by (simp add: word_bytes_def)
next
  case (4 a b c)
  then show ?case using text_word_pad [of "[a, b, c]" 1] by (simp add: word_bytes_def)
next
  case (5 a b c d bs)
  then show ?case using text_word_pad [of "[a, b, c, d]" 0] by (simp add: word_bytes_def)
qed simp

lemma text_words_length: "length (text_words bs) \<le> length bs"
  by (induction bs rule: text_words.induct) auto

definition tok_fits :: "tokenizer \<Rightarrow> bool" where
  "tok_fits t \<longleftrightarrow> length (tk_text t) < 2 ^ 32 \<and> list_all (\<lambda>ws. length ws < 2 ^ 32) (tok_sections t)"

text \<open>
  C28. A tokenizer is what its file gives back: writing it and reading the bytes returns the same record, every table
  entry, the text byte for byte and the frame, provided it passes the reader's soundness test and its tables fit 32-bit
  counts. Bytes that follow an incomplete last word are ignored by the reader.
\<close>

theorem tokenizer_file_round_trip:
  assumes "tok_sound t" "tok_fits t" "length junk < 4"
  shows "tok_from_bytes (tok_to_bytes t @ junk) = Inr t"
proof -
  let ?ten = "take 10 (tok_sections t)"
  let ?tail = "if tk_words t = [] then junk else section_bytes (tk_words t) @ junk"
  have small: "length (tk_text t) < 2 ^ 32" using assms(2) by (simp add: tok_fits_def)
  have ten: "length ?ten = 10" "list_all (\<lambda>ws. length ws < 2 ^ 32) ?ten"
    using assms(2) unfolding tok_fits_def by (simp_all add: tok_sections_def list_all_iff)
  have split: "tok_to_bytes t @ junk = TOK_MAGIC @ concat (map section_bytes ?ten) @ ?tail"
    by (simp add: tok_to_bytes_def tok_sections_def)
  have none: "exact_words junk = []"
    using assms(3) by (cases junk rule: exact_words.cases) auto
  have words: "length (tk_words t) < 2 ^ 32"
    using assms(2) unfolding tok_fits_def by (cases "tk_words t = []") (simp_all add: tok_sections_def)
  have read: "read_n 10 section_words (exact_words (drop 8 (tok_to_bytes t @ junk))) = Inr (?ten, exact_words ?tail)"
    unfolding split using sections_written [OF ten(2), of ?tail] ten(1) by (simp add: TOK_MAGIC_def)
  have last: "(if exact_words ?tail \<noteq> [] then rmap fst (section_words (exact_words ?tail)) else Inr []) = Inr (tk_words t)"
    using section_words_written [OF words, of junk] none by (auto simp: section_bytes_def)
  have magic: "take 8 (tok_to_bytes t @ junk) = TOK_MAGIC" unfolding split by (simp add: TOK_MAGIC_def)
  have same: "\<lparr>tk_flags = tk_flags t, tk_unk = tk_unk t, tk_offsets = tk_offsets t, tk_text = tk_text t,
      tk_special = tk_special t, tk_bytes = tk_bytes t, tk_chars = tk_chars t, tk_rare = tk_rare t,
      tk_joins = tk_joins t, tk_added = tk_added t, tk_merges = tk_merges t, tk_words = tk_words t,
      tk_frame = tk_frame t\<rparr> = t"
    by simp
  show ?thesis
    unfolding tok_from_bytes_def read using last magic small assms(1)
    by (simp add: tok_sections_def take_text_words unat_of_nat Let_def same split del: if_split)
qed

lemma tok_fits_example:
  "tok_fits (euro_tokens\<lparr>tk_bytes := replicate 256 NONE, tk_chars := replicate DIRECT NONE, tk_merges := replicate 8 NONE\<rparr>)"
  by (simp add: tok_fits_def tok_sections_def euro_tokens_def DIRECT_def)

theorem tokenizer_file_round_trip_witness:
  "tok_from_bytes (tok_to_bytes (euro_tokens\<lparr>tk_bytes := replicate 256 NONE, tk_chars := replicate DIRECT NONE,
      tk_merges := replicate 8 NONE\<rparr>) @ [1, 2]) =
    Inr (euro_tokens\<lparr>tk_bytes := replicate 256 NONE, tk_chars := replicate DIRECT NONE, tk_merges := replicate 8 NONE\<rparr>)"
  by (rule tokenizer_file_round_trip [OF _ tok_fits_example])
    (simp_all add: tok_sound_def euro_tokens_def is_power_of_two_def)

end
