(* ===== verification/Engine.thy ===== *)
theory Engine
  imports Token
begin

text \<open>
  The engine, \<open>engine.rs\<close>: the models and encoders of one GPU, the tiers a model moves between (VRAM, pinned host
  memory, disk), and an answer as it is generated. A decoder is what the engine asks of it (\<open>model/decode.rs\<close>: the
  bytes of its weights, of its host table, and of the pinned copy of the weights it may keep).

  The driver, the clock and the disk are inputs: \<open>en_calls\<close> holds the outcome of every driver call to come (the
  model puts no constraint on it, so any call may fail), \<open>en_samples\<close> the tokens the sampler will write (or the
  errors of those steps), \<open>en_ticks\<close> the time that passes before every reading of the
  clock (so the clock never goes back), and \<open>disk\<close> gives what reading the files of a directory yields. Times are
  nanoseconds.
\<close>

section \<open>Definitions\<close>

datatype error =
    NoDriver
  | DriverTooOld int
  | UnsupportedGpu nat nat
  | OutOfRange
  | Ptx str
  | Cuda int
  | Io int
  | Format str
  | TooLong nat nat
  | OutOfMemory nat nat
  | NoModel str
  | Unsupported str
  | Media str

definition lit :: "string \<Rightarrow> str" where
  "lit = map of_char"

text \<open>A number as \<open>format!\<close> prints it.\<close>

fun decimal :: "nat \<Rightarrow> str" where
  "decimal n = (if n < 10 then [48 + n] else decimal (n div 10) @ [48 + n mod 10])"

declare decimal.simps [simp del]

record decoder =
  dec_weights :: nat
  dec_table :: nat
  dec_shadow :: "nat option"

record parked =
  pk_weights :: nat
  pk_table :: nat

definition parked_bytes :: "decoder \<Rightarrow> nat" where
  "parked_bytes d = dec_weights d + dec_table d"

definition shadow_bytes :: "decoder \<Rightarrow> nat" where
  "shadow_bytes d = (case dec_shadow d of None \<Rightarrow> 0 | Some n \<Rightarrow> n)"

definition drop_shadow :: "decoder \<Rightarrow> decoder" where
  "drop_shadow d = d\<lparr>dec_shadow := None\<rparr>"

definition pk_bytes :: "parked \<Rightarrow> nat" where
  "pk_bytes p = pk_weights p + pk_table p"

definition park :: "decoder \<Rightarrow> parked" where
  "park d = \<lparr>pk_weights = (case dec_shadow d of Some kept \<Rightarrow> kept | None \<Rightarrow> dec_weights d), pk_table = dec_table d\<rparr>"

definition resume :: "parked \<Rightarrow> decoder" where
  "resume p = \<lparr>dec_weights = pk_weights p, dec_table = pk_table p, dec_shadow = Some (pk_weights p)\<rparr>"

datatype place = Vram decoder | Host parked | Disk

datatype tier = TierVram | TierHost | TierDisk

record settings =
  st_context :: nat
  st_chunk :: nat

record load =
  ld_settings :: settings
  ld_keep :: nat
  ld_pin :: bool
  ld_budget :: nat

definition load_default :: load where
  "load_default =
     \<lparr>ld_settings = \<lparr>st_context = 4096, st_chunk = 512\<rparr>, ld_keep = 300 * 10 ^ 9, ld_pin = False, ld_budget = 280\<rparr>"

text \<open>What the engine reads of a chat format: the end of a turn, and the slots of images and audio.\<close>

record chat_marks =
  cm_end :: u32
  cm_image :: "u32 option"
  cm_audio :: "u32 option"

record model =
  md_name :: str
  md_dir :: str
  md_load :: load
  md_tok :: tokenizer
  md_chat :: chat_marks
  md_ends :: "u32 \<times> u32"
  md_need :: nat
  md_used :: nat
  md_until :: "nat option"
  md_at :: place
  md_vision :: "nat option"
  md_audio :: "nat option"

record held =
  hd_name :: str
  hd_bytes :: nat
  hd_keep :: nat
  hd_pin :: bool
  hd_until :: "nat option"

record engine =
  en_models :: "model list"
  en_encoders :: "held list"
  en_vram :: nat
  en_host :: nat
  en_calls :: "error option list"
  en_now :: nat
  en_ticks :: "nat list"
  en_samples :: "(error + u32) list"

text \<open>
  The files of a directory: whether its \<open>config.json\<close> is an encoder's, its tokenizer and chat format, the VRAM a
  decoder of it takes with given settings, the bytes of its weights and host table; the VRAM an encoder is expected to
  take and takes; the bytes of its towers, if their files are there.
\<close>

record contents =
  co_encoder :: "error + bool"
  co_tokenizer :: "error + tokenizer"
  co_chat :: "error + chat_marks"
  co_footprint :: "settings \<Rightarrow> error + nat"
  co_weights :: nat
  co_table :: nat
  co_enc_footprint :: "error + nat"
  co_enc_bytes :: nat
  co_vision :: "nat option"
  co_audio :: "nat option"
  co_vision_width :: nat
  co_audio_width :: nat

type_synonym disk = "str \<Rightarrow> contents"

type_synonym 'a run = "(error + 'a) \<times> engine"

fun ebind :: "'a run \<Rightarrow> ('a \<Rightarrow> engine \<Rightarrow> 'b run) \<Rightarrow> 'b run" where
  "ebind (Inl x, e) f = (Inl x, e)"
| "ebind (Inr v, e) f = f v e"

text \<open>\<open>Instant::now()\<close>, \<open>Instant::checked_add\<close> (the seconds are a signed 64-bit count), and a driver call.\<close>

definition instant :: "engine \<Rightarrow> nat \<times> engine" where
  "instant e =
     (let t = en_now e + (case en_ticks e of [] \<Rightarrow> 0 | d # _ \<Rightarrow> d) in (t, e\<lparr>en_now := t, en_ticks := tl (en_ticks e)\<rparr>))"

definition INSTANT_END :: nat where "INSTANT_END = 2 ^ 63 * 10 ^ 9"

definition instant_add :: "nat \<Rightarrow> nat \<Rightarrow> nat option" where
  "instant_add t keep = (if t + keep < INSTANT_END then Some (t + keep) else None)"

definition call :: "engine \<Rightarrow> unit run" where
  "call e =
     ((case en_calls e of Some x # _ \<Rightarrow> Inl x | _ \<Rightarrow> Inr ()), e\<lparr>en_calls := tl (en_calls e)\<rparr>)"

fun min_by :: "('a \<Rightarrow> nat) \<Rightarrow> 'a list \<Rightarrow> 'a option" where
  "min_by f [] = None"
| "min_by f (x # xs) = (case min_by f xs of None \<Rightarrow> Some x | Some y \<Rightarrow> if f y < f x then Some y else Some x)"

definition in_vram :: "model \<Rightarrow> bool" where
  "in_vram m = (case md_at m of Vram _ \<Rightarrow> True | _ \<Rightarrow> False)"

definition set_model :: "nat \<Rightarrow> model \<Rightarrow> engine \<Rightarrow> engine" where
  "set_model i m e = e\<lparr>en_models := (en_models e)[i := m]\<rparr>"

definition touch :: "nat \<Rightarrow> model \<Rightarrow> engine \<Rightarrow> model \<times> engine" where
  "touch keep m e = (let (now, e) = instant e in (m\<lparr>md_used := now, md_until := instant_add now keep\<rparr>, e))"

definition towers :: "model \<Rightarrow> nat" where
  "towers m = (case md_vision m of None \<Rightarrow> 0 | Some n \<Rightarrow> n) + (case md_audio m of None \<Rightarrow> 0 | Some n \<Rightarrow> n)"

definition used :: "engine \<Rightarrow> nat" where
  "used e =
     sum_list (map hd_bytes (en_encoders e)) + sum_list (map towers (en_models e)) +
     sum_list (map md_need (filter in_vram (en_models e)))"

definition held_bytes :: "model \<Rightarrow> nat" where
  "held_bytes m = (case md_at m of Host p \<Rightarrow> pk_bytes p | Vram d \<Rightarrow> shadow_bytes d | Disk \<Rightarrow> 0)"

definition hosted :: "engine \<Rightarrow> nat" where
  "hosted e = sum_list (map held_bytes (en_models e))"

definition eng_tier :: "str \<Rightarrow> engine \<Rightarrow> tier option" where
  "eng_tier name e =
     (if \<exists>h \<in> set (en_encoders e). hd_name h = name then Some TierVram
      else map_option (\<lambda>m. case md_at m of Vram _ \<Rightarrow> TierVram | Host _ \<Rightarrow> TierHost | Disk \<Rightarrow> TierDisk)
        (find (\<lambda>m. md_name m = name) (en_models e)))"

text \<open>\<open>Engine::unload\<close>: the result of trimming the pool is dropped.\<close>

definition unload :: "str \<Rightarrow> engine \<Rightarrow> bool \<times> engine" where
  "unload name e =
     (let before = length (en_models e) + length (en_encoders e);
          e = e\<lparr>en_models := filter (\<lambda>m. md_name m \<noteq> name) (en_models e),
                en_encoders := filter (\<lambda>h. hd_name h \<noteq> name) (en_encoders e)\<rparr>;
          (_, e) = call e
      in (length (en_models e) + length (en_encoders e) < before, e))"

definition expired :: "nat \<Rightarrow> model \<Rightarrow> bool" where
  "expired now m \<longleftrightarrow>
     md_at m \<noteq> Disk \<and> \<not> ld_pin (md_load m) \<and> (case md_until m of None \<Rightarrow> False | Some t \<Rightarrow> t \<le> now)"

text \<open>
  The loop of \<open>expire\<close> over the models: a decoder that does not stop ends it, with the models before it moved. It
  gives the models, whether one was moved, and the engine (for its driver calls).
\<close>

fun expire_models :: "nat \<Rightarrow> model list \<Rightarrow> engine \<Rightarrow> bool \<Rightarrow> (model list \<times> bool) run \<times> model list" where
  "expire_models now [] e freed = ((Inr ([], freed), e), [])"
| "expire_models now (m # ms) e freed =
     (if expired now m then
        (case (if in_vram m then call e else (Inr (), e)) of
           (Inl x, e) \<Rightarrow> ((Inl x, e), m # ms)
         | (Inr _, e) \<Rightarrow>
             (let m = m\<lparr>md_vision := None, md_audio := None, md_at := Disk\<rparr>;
                  (r, rest) = expire_models now ms e True
              in (r, m # rest)))
      else let (r, rest) = expire_models now ms e freed in (r, m # rest))"

definition enc_kept :: "nat \<Rightarrow> held \<Rightarrow> bool" where
  "enc_kept now h \<longleftrightarrow> hd_pin h \<or> (case hd_until h of None \<Rightarrow> True | Some t \<Rightarrow> now < t)"

definition expire :: "engine \<Rightarrow> unit run" where
  "expire e =
     (let (now, e) = instant e; ((r, e), ms) = expire_models now (en_models e) e False; e = e\<lparr>en_models := ms\<rparr> in
      case r of
        Inl x \<Rightarrow> (Inl x, e)
      | Inr (_, freed) \<Rightarrow>
          let kept = filter (enc_kept now) (en_encoders e);
              freed = (freed \<or> length kept < length (en_encoders e));
              e = e\<lparr>en_encoders := kept\<rparr>
          in if freed then call e else (Inr (), e))"

text \<open>\<open>evict\<close>'s loop: the least recently used pinned memory goes until \<open>bytes\<close> more fit, or none is left.\<close>

definition holds :: "model \<Rightarrow> bool" where
  "holds m = (case md_at m of Host _ \<Rightarrow> True | Vram d \<Rightarrow> 0 < shadow_bytes d | Disk \<Rightarrow> False)"

definition let_go :: "model \<Rightarrow> model" where
  "let_go m = m\<lparr>md_at := (case md_at m of Vram d \<Rightarrow> Vram (drop_shadow d) | _ \<Rightarrow> Disk)\<rparr>"

definition holder :: "engine \<Rightarrow> nat option" where
  "holder e =
     min_by (\<lambda>j. md_used (en_models e ! j)) (filter (\<lambda>j. holds (en_models e ! j)) [0..<length (en_models e)])"

definition sample :: "engine \<Rightarrow> u32 run" where
  "sample e =
     ((case en_samples e of [] \<Rightarrow> Inl (Cuda 700) | r # _ \<Rightarrow> r), e\<lparr>en_samples := tl (en_samples e)\<rparr>)"

lemma min_by_in: "min_by f xs = Some x \<Longrightarrow> x \<in> set xs"
  by (induction xs arbitrary: x) (auto split: option.splits if_splits)

lemma holder_holds: "holder e = Some j \<Longrightarrow> j < length (en_models e) \<and> holds (en_models e ! j)"
  unfolding holder_def by (drule min_by_in) simp

lemma not_holds_let_go [simp]: "\<not> holds (let_go m)"
  by (simp add: holds_def let_go_def drop_shadow_def shadow_bytes_def split: place.splits)

lemma filter_update_less:
  assumes "j < length xs" "P (xs ! j)" "\<not> P y"
  shows "length (filter P (xs[j := y])) < length (filter P xs)"
proof -
  have "length (filter P xs) = length (filter P (take j xs)) + 1 + length (filter P (drop (Suc j) xs))"
    using assms(1,2) by (subst id_take_nth_drop [OF assms(1)]) simp
  moreover have "length (filter P (xs[j := y])) = length (filter P (take j xs)) + length (filter P (drop (Suc j) xs))"
    using assms(1,3) by (simp add: upd_conv_take_nth_drop)
  ultimately show ?thesis by simp
qed

function host_room :: "nat \<Rightarrow> engine \<Rightarrow> engine" where
  "host_room bs e =
     (if hosted e + bs \<le> en_host e then e
      else (case holder e of
              None \<Rightarrow> e
            | Some j \<Rightarrow> host_room bs (set_model j (let_go (en_models e ! j)) e)))"
  by pat_completeness auto
termination
  by (relation "measure (\<lambda>(_, e). length (filter holds (en_models e)))")
    (auto simp: set_model_def intro!: filter_update_less dest!: holder_holds)

declare host_room.simps [simp del]

definition evict :: "nat \<Rightarrow> engine \<Rightarrow> unit run" where
  "evict i e =
     (let m = en_models e ! i; out = m\<lparr>md_vision := None, md_audio := None, md_at := Disk\<rparr>; e = set_model i out e in
      case md_at m of
        Vram d \<Rightarrow>
          if parked_bytes d > en_host e then (Inr (), e)
          else ebind (call (host_room (parked_bytes d) e)) (\<lambda>_ e.
            (Inr (), set_model i ((en_models e ! i)\<lparr>md_at := Host (park d)\<rparr>) e))
      | _ \<Rightarrow> (Inr (), e))"

text \<open>The least recently used model in VRAM that is neither \<open>kept\<close> nor pinned.\<close>

definition may_go :: "nat option \<Rightarrow> engine \<Rightarrow> nat \<Rightarrow> bool" where
  "may_go kept e j \<longleftrightarrow> Some j \<noteq> kept \<and> \<not> ld_pin (md_load (en_models e ! j)) \<and> in_vram (en_models e ! j)"

definition victim :: "nat option \<Rightarrow> engine \<Rightarrow> nat option" where
  "victim kept e =
     min_by (\<lambda>j. md_used (en_models e ! j)) (filter (may_go kept e) [0..<length (en_models e)])"

text \<open>Making room only lets go of pinned memory: this is what every other part of the engine keeps across it.\<close>

definition loosened :: "model \<Rightarrow> model \<Rightarrow> bool" where
  "loosened m m' \<longleftrightarrow> m' = m \<or> m' = let_go m"

lemma let_go_let_go [simp]: "let_go (let_go m) = let_go m"
  by (simp add: let_go_def drop_shadow_def split: place.splits)

lemma in_vram_let_go [simp]: "in_vram (let_go m) = in_vram m"
  by (simp add: in_vram_def let_go_def split: place.splits)

lemma let_go_fields [simp]:
  "md_name (let_go m) = md_name m" "md_need (let_go m) = md_need m" "md_load (let_go m) = md_load m"
  "md_used (let_go m) = md_used m" "md_until (let_go m) = md_until m" "towers (let_go m) = towers m"
  "md_vision (let_go m) = md_vision m" "md_audio (let_go m) = md_audio m" "md_dir (let_go m) = md_dir m"
  by (simp_all add: let_go_def towers_def)

lemma list_all2_loosened_refl: "list_all2 loosened ms ms"
  by (simp add: list_all2_conv_all_nth loosened_def)

lemma host_room_frame:
  "\<exists>ms. host_room bs e = e\<lparr>en_models := ms\<rparr> \<and> list_all2 loosened (en_models e) ms"
proof (induction bs e rule: host_room.induct)
  case (1 bs e)
  show ?case
  proof (cases "hosted e + bs \<le> en_host e \<or> holder e = None")
    case True
    have "e = e\<lparr>en_models := en_models e\<rparr>" by simp
    moreover have "host_room bs e = e" using True by (subst host_room.simps) (auto split: option.splits)
    ultimately show ?thesis using list_all2_loosened_refl by metis
  next
    case False
    then obtain j where j: "holder e = Some j" by auto
    let ?e = "set_model j (let_go (en_models e ! j)) e"
    have step: "host_room bs e = host_room bs ?e" using False j by (subst host_room.simps) simp
    obtain ms where ms: "host_room bs ?e = ?e\<lparr>en_models := ms\<rparr>" "list_all2 loosened (en_models ?e) ms"
      using "1.IH" False j by auto
    have "list_all2 loosened (en_models e) ms"
      using ms(2) holder_holds [OF j]
      by (auto simp: list_all2_conv_all_nth set_model_def loosened_def nth_list_update split: if_splits)
    moreover have "?e\<lparr>en_models := ms\<rparr> = e\<lparr>en_models := ms\<rparr>" by (simp add: set_model_def)
    ultimately show ?thesis using step ms(1) by auto
  qed
qed

lemma length_filter_cong2:
  "list_all2 (\<lambda>x y. P x = P y) xs ys \<Longrightarrow> length (filter P xs) = length (filter P ys)"
  by (induction rule: list_all2_induct) auto

lemma call_models [simp]:
  "en_models (snd (call e)) = en_models e" "en_encoders (snd (call e)) = en_encoders e"
  "en_vram (snd (call e)) = en_vram e" "en_host (snd (call e)) = en_host e" "en_now (snd (call e)) = en_now e"
  by (simp_all add: call_def)

lemma ebind_snd: "ebind x f = (case x of (Inl a, e) \<Rightarrow> (Inl a, e) | (Inr v, e) \<Rightarrow> f v e)"
  by (cases x; cases "fst x") auto

text \<open>What \<open>evict\<close> leaves: the model out of VRAM, its towers gone, the others at most loosened.\<close>

lemma evict_models:
  assumes "i < length (en_models e)" "evict i e = (r, e')"
  shows "\<exists>ms at. list_all2 loosened ((en_models e)[i := (en_models e ! i)\<lparr>md_vision := None, md_audio := None, md_at := Disk\<rparr>]) ms \<and>
      en_models e' = ms[i := (en_models e ! i)\<lparr>md_vision := None, md_audio := None, md_at := at\<rparr>] \<and>
      (at = Disk \<or> (\<exists>d. md_at (en_models e ! i) = Vram d \<and> at = Host (park d))) \<and>
      en_encoders e' = en_encoders e \<and> en_vram e' = en_vram e \<and> en_host e' = en_host e \<and> en_now e' = en_now e \<and>
      en_ticks e' = en_ticks e"
proof -
  let ?out = "(en_models e ! i)\<lparr>md_vision := None, md_audio := None, md_at := Disk\<rparr>"
  let ?e = "set_model i ?out e"
  have plain: ?thesis if "e' = ?e"
    using that assms(1) list_all2_loosened_refl
    by (intro exI [of _ "(en_models e)[i := ?out]"] exI [of _ Disk]) (auto simp: set_model_def)
  show ?thesis
  proof (cases "md_at (en_models e ! i)")
    case (Vram d)
    show ?thesis
    proof (cases "parked_bytes d > en_host e")
      case True
      then show ?thesis using assms(2) Vram plain by (simp add: evict_def Let_def set_model_def)
    next
      case False
      obtain ms where ms: "host_room (parked_bytes d) ?e = ?e\<lparr>en_models := ms\<rparr>" "list_all2 loosened (en_models ?e) ms"
        using host_room_frame by blast
      have len: "length ms = length (en_models e)"
        using list_all2_lengthD [OF ms(2)] by (simp add: set_model_def)
      have "loosened ?out (ms ! i)"
        using ms(2) assms(1) by (auto simp: set_model_def list_all2_conv_all_nth)
      then have same: "ms ! i = ?out" by (auto simp: loosened_def let_go_def)
      obtain o1 e1 where c: "call (?e\<lparr>en_models := ms\<rparr>) = (o1, e1)" by fastforce
      have e1: "en_models e1 = ms" "en_encoders e1 = en_encoders e" "en_vram e1 = en_vram e" "en_host e1 = en_host e"
        "en_now e1 = en_now e" "en_ticks e1 = en_ticks e"
        using c by (auto simp: call_def set_model_def)
      show ?thesis
      proof (cases o1)
        case (Inl x)
        then have "e' = e1" using assms(2) Vram False c ms(1) by (simp add: evict_def Let_def set_model_def)
        moreover have "ms = ms[i := ?out]" using same len by (metis list_update_id)
        ultimately show ?thesis using ms(2) e1 by (auto simp: set_model_def)
      next
        case (Inr x)
        then have "e' = set_model i ((en_models e1 ! i)\<lparr>md_at := Host (park d)\<rparr>) e1"
          using assms(2) Vram False c ms(1) by (simp add: evict_def Let_def set_model_def)
        then have "en_models e' = ms[i := (en_models e ! i)\<lparr>md_vision := None, md_audio := None, md_at := Host (park d)\<rparr>]"
          "en_encoders e' = en_encoders e" "en_vram e' = en_vram e" "en_host e' = en_host e" "en_now e' = en_now e"
          "en_ticks e' = en_ticks e"
          using same e1 by (simp_all add: set_model_def)
        then show ?thesis using ms(2) Vram by (intro exI [of _ ms] exI [of _ "Host (park d)"]) (simp add: set_model_def)
      qed
    qed
  qed (use assms plain in \<open>simp_all add: evict_def Let_def\<close>)
qed

definition same_env :: "engine \<Rightarrow> engine \<Rightarrow> bool" where
  "same_env e e' \<longleftrightarrow> en_encoders e' = en_encoders e \<and> en_vram e' = en_vram e \<and> en_host e' = en_host e \<and>
     en_now e' = en_now e \<and> en_ticks e' = en_ticks e"

lemma same_env_refl [simp]: "same_env e e"
  by (simp add: same_env_def)

lemma same_env_trans: "same_env e e1 \<Longrightarrow> same_env e1 e2 \<Longrightarrow> same_env e e2"
  by (simp add: same_env_def)

lemma evict_effect:
  assumes "i < length (en_models e)" "evict i e = (r, e')"
  shows "length (en_models e') = length (en_models e)" "same_env e e'"
    "\<And>j. j < length (en_models e) \<Longrightarrow> j \<noteq> i \<Longrightarrow> loosened (en_models e ! j) (en_models e' ! j)"
    "\<exists>at. en_models e' ! i = (en_models e ! i)\<lparr>md_vision := None, md_audio := None, md_at := at\<rparr> \<and>
       (at = Disk \<or> (\<exists>d. md_at (en_models e ! i) = Vram d \<and> at = Host (park d)))"
proof -
  obtain ms at where ms: "list_all2 loosened ((en_models e)[i := (en_models e ! i)\<lparr>md_vision := None, md_audio := None, md_at := Disk\<rparr>]) ms"
    and e': "en_models e' = ms[i := (en_models e ! i)\<lparr>md_vision := None, md_audio := None, md_at := at\<rparr>]"
    and at: "at = Disk \<or> (\<exists>d. md_at (en_models e ! i) = Vram d \<and> at = Host (park d))" and env: "same_env e e'"
    using evict_models [OF assms] unfolding same_env_def by blast
  have len: "length ms = length (en_models e)" using list_all2_lengthD [OF ms] by simp
  show "length (en_models e') = length (en_models e)" "same_env e e'" using e' len env by simp_all
  show "loosened (en_models e ! j) (en_models e' ! j)" if "j < length (en_models e)" "j \<noteq> i" for j
    using ms that e' by (auto simp: list_all2_conv_all_nth)
  show "\<exists>at. en_models e' ! i = (en_models e ! i)\<lparr>md_vision := None, md_audio := None, md_at := at\<rparr> \<and>
       (at = Disk \<or> (\<exists>d. md_at (en_models e ! i) = Vram d \<and> at = Host (park d)))"
    using e' len assms(1) at by auto
qed

lemma evict_not_in_vram:
  assumes "i < length (en_models e)" "evict i e = (r, e')"
  shows "\<not> in_vram (en_models e' ! i)" "towers (en_models e' ! i) = 0"
  using evict_effect(4) [OF assms] by (auto simp: in_vram_def towers_def)

lemma loosened_keeps:
  assumes "loosened m m'"
  shows "in_vram m' = in_vram m" "md_name m' = md_name m" "md_need m' = md_need m" "md_load m' = md_load m"
    "md_used m' = md_used m" "md_until m' = md_until m" "towers m' = towers m" "md_dir m' = md_dir m"
  using assms by (auto simp: loosened_def)

lemma evict_fewer:
  assumes "i < length (en_models e)" "in_vram (en_models e ! i)" "evict i e = (r, e')"
  shows "length (filter in_vram (en_models e')) < length (filter in_vram (en_models e))"
proof -
  note ev = evict_effect [OF assms(1,3)]
  let ?ms = "(en_models e)[i := en_models e' ! i]"
  have "list_all2 (\<lambda>x y. in_vram x = in_vram y) ?ms (en_models e')"
    using ev(1,3) assms(1) loosened_keeps(1) by (auto simp: list_all2_conv_all_nth nth_list_update)
  then have "length (filter in_vram (en_models e')) = length (filter in_vram ?ms)"
    by (metis length_filter_cong2)
  also have "\<dots> < length (filter in_vram (en_models e))"
    using assms(1,2) evict_not_in_vram(1) [OF assms(1,3)] by (rule filter_update_less)
  finally show ?thesis .
qed

lemma victim_may_go: "victim kept e = Some j \<Longrightarrow> j < length (en_models e) \<and> may_go kept e j"
  unfolding victim_def by (drule min_by_in) simp

text \<open>\<open>room\<close>: the loop ends because every turn leaves one model fewer in VRAM, or fails.\<close>

function room :: "nat \<Rightarrow> nat option \<Rightarrow> engine \<Rightarrow> unit run" where
  "room need kept e =
     (if used e + need \<le> en_vram e then (Inr (), e)
      else (case victim kept e of
              None \<Rightarrow> (Inl (OutOfMemory need (en_vram e - used e)), e)
            | Some j \<Rightarrow>
                (case evict j e of
                   (Inl x, e) \<Rightarrow> (Inl x, e)
                 | (Inr _, e) \<Rightarrow> room need kept e)))"
  by pat_completeness auto
termination
  by (relation "measure (\<lambda>(_, _, e). length (filter in_vram (en_models e)))")
    (auto intro!: evict_fewer [OF _ _ sym] dest!: victim_may_go simp: may_go_def)

declare room.simps [simp del]

definition bring :: "disk \<Rightarrow> nat \<Rightarrow> engine \<Rightarrow> unit run" where
  "bring disk i e =
     (let m = en_models e ! i in
      case md_at m of
        Vram d \<Rightarrow> (Inr (), e)
      | Host p \<Rightarrow>
          ebind (call (set_model i (m\<lparr>md_at := Disk\<rparr>) e)) (\<lambda>_ e.
            (Inr (), set_model i (m\<lparr>md_at := Vram (resume p)\<rparr>) e))
      | Disk \<Rightarrow>
          ebind (call e) (\<lambda>_ e.
            (Inr (), set_model i (m\<lparr>md_at := Vram \<lparr>dec_weights = co_weights (disk (md_dir m)),
               dec_table = max (co_table (disk (md_dir m))) 64, dec_shadow = None\<rparr>\<rparr>) e)))"

definition resident :: "disk \<Rightarrow> nat \<Rightarrow> engine \<Rightarrow> unit run" where
  "resident disk i e =
     (if in_vram (en_models e ! i) then bring disk i e
      else ebind (room (md_need (en_models e ! i)) (Some i) e) (\<lambda>_ e. bring disk i e))"

definition load_encoder :: "disk \<Rightarrow> str \<Rightarrow> str \<Rightarrow> load \<Rightarrow> engine \<Rightarrow> unit run" where
  "load_encoder disk name dir ld e =
     (case co_enc_footprint (disk dir) of
        Inl x \<Rightarrow> (Inl x, e)
      | Inr need \<Rightarrow>
          ebind (room need None e) (\<lambda>_ e.
          ebind (call e) (\<lambda>_ e.
            let (now, e) = instant e in
            (Inr (), e\<lparr>en_encoders := en_encoders e @ [\<lparr>hd_name = name, hd_bytes = co_enc_bytes (disk dir),
               hd_keep = ld_keep ld, hd_pin = ld_pin ld, hd_until = instant_add now (ld_keep ld)\<rparr>]\<rparr>))))"

definition eng_load :: "disk \<Rightarrow> str \<Rightarrow> str \<Rightarrow> load \<Rightarrow> engine \<Rightarrow> unit run" where
  "eng_load disk name dir ld e =
     (let (_, e) = unload name e in
      ebind (expire e) (\<lambda>_ e.
      case co_encoder (disk dir) of Inl x \<Rightarrow> (Inl x, e) | Inr encoder \<Rightarrow>
      if encoder then load_encoder disk name dir ld e
      else case co_tokenizer (disk dir) of Inl x \<Rightarrow> (Inl x, e) | Inr tok \<Rightarrow>
      case co_chat (disk dir) of Inl x \<Rightarrow> (Inl x, e) | Inr chat \<Rightarrow>
      case co_footprint (disk dir) (ld_settings ld) of Inl x \<Rightarrow> (Inl x, e) | Inr need \<Rightarrow>
        let eos = (case special tok (lit ''<eos>'') of None \<Rightarrow> cm_end chat | Some t \<Rightarrow> t);
            (now, e) = instant e;
            m = \<lparr>md_name = name, md_dir = dir, md_load = ld, md_tok = tok, md_chat = chat,
                 md_ends = (cm_end chat, eos), md_need = need, md_used = now, md_until = None, md_at = Disk,
                 md_vision = None, md_audio = None\<rparr>;
            (m, e) = touch (ld_keep ld) m e;
            (r, e) = resident disk (length (en_models e)) (e\<lparr>en_models := en_models e @ [m]\<rparr>)
        in (r, if is_ok r then e else e\<lparr>en_models := butlast (en_models e)\<rparr>)))"

text \<open>\<open>Engine::encoder\<close>: the encoder of a name, its keep-alive started again; its index stands for the borrow.\<close>

definition index_of :: "('a \<Rightarrow> bool) \<Rightarrow> 'a list \<Rightarrow> nat option" where
  "index_of P xs = find (\<lambda>j. P (xs ! j)) [0..<length xs]"

definition eng_encoder :: "str \<Rightarrow> engine \<Rightarrow> nat run" where
  "eng_encoder name e =
     (case index_of (\<lambda>h. hd_name h = name) (en_encoders e) of
        None \<Rightarrow> (Inl (NoModel name), e)
      | Some k \<Rightarrow>
          let (now, e) = instant e; h = en_encoders e ! k in
          (Inr k, e\<lparr>en_encoders := (en_encoders e)[k := h\<lparr>hd_until := instant_add now (hd_keep h)\<rparr>]\<rparr>))"

text \<open>
  \<open>Engine::decide\<close> and \<open>Engine::embed\<close> up to the encoder's own work on the GPU, which is the argument: what the
  kernels computed, or the driver's error.
\<close>

definition eng_infer :: "str \<Rightarrow> (error + 'a) \<Rightarrow> engine \<Rightarrow> 'a run" where
  "eng_infer name answer e = ebind (expire e) (\<lambda>_ e. ebind (eng_encoder name e) (\<lambda>_ e. (answer, e)))"

record loaded =
  lo_name :: str
  lo_tier :: tier
  lo_vram :: nat
  lo_left :: "nat option"

definition left_of :: "nat \<Rightarrow> bool \<Rightarrow> nat option \<Rightarrow> nat option" where
  "left_of now pin until = (if pin then None else map_option (\<lambda>t. t - now) until)"

definition eng_models :: "engine \<Rightarrow> loaded list \<times> engine" where
  "eng_models e =
     (let (now, e) = instant e in
      (map (\<lambda>m. \<lparr>lo_name = md_name m, lo_tier = (case eng_tier (md_name m) e of None \<Rightarrow> TierDisk | Some t \<Rightarrow> t),
              lo_vram = (if in_vram m then md_need m + towers m else 0),
              lo_left = left_of now (ld_pin (md_load m)) (md_until m)\<rparr>) (en_models e) @
       map (\<lambda>h. \<lparr>lo_name = hd_name h, lo_tier = TierVram, lo_vram = hd_bytes h,
              lo_left = left_of now (hd_pin h) (hd_until h)\<rparr>) (en_encoders e), e))"

text \<open>The towers: each comes into VRAM with the first image or clip, under the limit like a model.\<close>

definition eng_vision :: "disk \<Rightarrow> nat \<Rightarrow> engine \<Rightarrow> unit run" where
  "eng_vision disk i e =
     (let m = en_models e ! i in
      if md_vision m \<noteq> None then (Inr (), e)
      else (case co_vision (disk (md_dir m)) of
              None \<Rightarrow> (Inl (Unsupported (lit ''no vision tower in '' @ md_dir m @ lit '': images'')), e)
            | Some n \<Rightarrow>
                if cm_image (md_chat m) = None
                then (Inl (Unsupported (lit ''no vision tower in '' @ md_dir m @ lit '': images'')), e)
                else ebind (call e) (\<lambda>_ e. ebind (room n (Some i) e) (\<lambda>_ e.
                  (Inr (), set_model i ((en_models e ! i)\<lparr>md_vision := Some n\<rparr>) e)))))"

definition eng_hearing :: "disk \<Rightarrow> nat \<Rightarrow> engine \<Rightarrow> unit run" where
  "eng_hearing disk i e =
     (let m = en_models e ! i in
      if md_audio m \<noteq> None then (Inr (), e)
      else (case co_audio (disk (md_dir m)) of
              None \<Rightarrow> (Inl (Unsupported (lit ''no audio tower in '' @ md_dir m @ lit '': audio'')), e)
            | Some n \<Rightarrow>
                if cm_audio (md_chat m) = None
                then (Inl (Unsupported (lit ''no audio tower in '' @ md_dir m @ lit '': audio'')), e)
                else ebind (call e) (\<lambda>_ e. ebind (room n (Some i) e) (\<lambda>_ e.
                  (Inr (), set_model i ((en_models e ! i)\<lparr>md_audio := Some n\<rparr>) e)))))"

text \<open>
  A conversation. Images and clips are whatever the towers read; \<open>see\<close> and \<open>hear\<close> stand for the towers' kernels (the
  soft tokens they compute, as \<open>f32\<close> bits), \<open>template\<close> for the chat template's tokens.
\<close>

datatype speaker = SpeakerSystem | SpeakerUser | SpeakerModel

record ('i, 'c) message =
  ms_role :: speaker
  ms_text :: str
  ms_images :: "'i list"
  ms_audio :: "'c list"

record ('i, 'c) chat_request =
  rq_messages :: "('i, 'c) message list"
  rq_think :: bool
  rq_max_tokens :: nat
  rq_keep :: "nat option"

type_synonym soft = "u32 list"

definition shown :: "('i, 'c) message list \<Rightarrow> ('i, 'c) message list" where
  "shown ms =
     map snd (filter (\<lambda>(k, m). ms_role m = SpeakerUser \<or> ms_role m = SpeakerSystem \<and> 0 < k) (zip [0..<length ms] ms))"

text \<open>One soft-token set per image or clip: its tower brought in, then run.\<close>

fun tower_run :: "(engine \<Rightarrow> unit run) \<Rightarrow> ('x \<Rightarrow> error + soft) \<Rightarrow> 'x list \<Rightarrow> engine \<Rightarrow> soft list run" where
  "tower_run tower soft_of [] e = (Inr [], e)"
| "tower_run tower soft_of (x # xs) e =
     ebind (tower e) (\<lambda>_ e.
     ebind (soft_of x, e) (\<lambda>t e.
     ebind (tower_run tower soft_of xs e) (\<lambda>ts e. (Inr (t # ts), e))))"

fun eng_media ::
  "disk \<Rightarrow> ('i \<Rightarrow> error + soft) \<Rightarrow> ('c \<Rightarrow> error + soft) \<Rightarrow> nat \<Rightarrow> ('i, 'c) message list \<Rightarrow> engine \<Rightarrow> soft list run" where
  "eng_media disk see hear i [] e = (Inr [], e)"
| "eng_media disk see hear i (m # ms) e =
     ebind (tower_run (eng_vision disk i) see (ms_images m) e) (\<lambda>seen e.
     ebind (tower_run (eng_hearing disk i) hear (ms_audio m) e) (\<lambda>heard e.
     ebind (eng_media disk see hear i ms e) (\<lambda>rest e. (Inr (seen @ heard @ rest), e))))"

text \<open>\<open>slots\<close>: where each image's or clip's soft tokens go.\<close>

definition runs :: "u32 list \<Rightarrow> u32 option \<times> u32 option \<Rightarrow> (nat \<times> nat) list" where
  "runs prompt marks =
     map (\<lambda>p. (p, length (takeWhile (\<lambda>u. u = prompt ! p) (drop p prompt))))
       (filter (\<lambda>p. (fst marks = Some (prompt ! p) \<or> snd marks = Some (prompt ! p)) \<and>
                    (p = 0 \<or> prompt ! (p - 1) \<noteq> prompt ! p)) [0..<length prompt])"

definition slots :: "u32 list \<Rightarrow> u32 option \<times> u32 option \<Rightarrow> soft list \<Rightarrow> nat \<Rightarrow> error + (nat \<times> soft) list" where
  "slots prompt marks soft width =
     (let rs = runs prompt marks in
      if length rs \<noteq> length soft \<or> (\<exists>(r, s) \<in> set (zip rs soft). snd r * width \<noteq> length s)
      then Inl (Media (decimal (length rs) @ lit '' images and clips in the prompt, but '' @ decimal (length soft) @
        lit '' sets of soft tokens''))
      else Inr (zip (map fst rs) soft))"

definition eng_encode ::
  "disk \<Rightarrow> model \<Rightarrow> u32 list \<Rightarrow> soft list \<Rightarrow> error + (nat \<times> soft) list" where
  "eng_encode disk m prompt soft =
     (if st_context (ld_settings (md_load m)) \<le> length prompt
      then Inl (TooLong (length prompt) (st_context (ld_settings (md_load m))))
      else slots prompt (cm_image (md_chat m), cm_audio (md_chat m)) soft
        (if md_vision m \<noteq> None then co_vision_width (disk (md_dir m))
         else if md_audio m \<noteq> None then co_audio_width (disk (md_dir m)) else 0))"

text \<open>\<open>feed\<close>: the control buffer reset, the prompt but its last token through prefill, the last through a step.\<close>

definition eng_feed :: "engine \<Rightarrow> u32 run" where
  "eng_feed e =
     ebind (call e) (\<lambda>_ e. ebind (call e) (\<lambda>_ e. ebind (sample e) (\<lambda>first e. ebind (call e) (\<lambda>_ e. (Inr first, e)))))"

record stream =
  ts_model :: nat
  ts_keep :: nat
  ts_pending :: bytes
  ts_next :: "u32 option"
  ts_left :: nat
  ts_tokens :: nat
  ts_prompt :: nat

definition eng_chat ::
  "disk \<Rightarrow> ('i \<Rightarrow> error + soft) \<Rightarrow> ('c \<Rightarrow> error + soft) \<Rightarrow> (model \<Rightarrow> ('i, 'c) message list \<Rightarrow> bool \<Rightarrow> u32 list) \<Rightarrow>
     str \<Rightarrow> ('i, 'c) chat_request \<Rightarrow> engine \<Rightarrow> stream run" where
  "eng_chat disk see hear template name req e =
     ebind (expire e) (\<lambda>_ e.
     case index_of (\<lambda>m. md_name m = name) (en_models e) of
       None \<Rightarrow> (Inl (NoModel name), e)
     | Some i \<Rightarrow>
         ebind (resident disk i e) (\<lambda>_ e.
         ebind (eng_media disk see hear i (shown (rq_messages req)) e) (\<lambda>soft e.
         let m = en_models e ! i; prompt = template m (rq_messages req) (rq_think req) in
         ebind (eng_encode disk m prompt soft, e) (\<lambda>_ e.
         ebind (eng_feed e) (\<lambda>first e.
           (Inr \<lparr>ts_model = i, ts_keep = (case rq_keep req of None \<Rightarrow> ld_keep (md_load m) | Some k \<Rightarrow> k),
                 ts_pending = [], ts_next = Some first,
                 ts_left = min (rq_max_tokens req) (st_context (ld_settings (md_load m)) - length prompt),
                 ts_tokens = 0, ts_prompt = length prompt\<rparr>, e))))))"

definition take_token :: "stream \<Rightarrow> engine \<Rightarrow> u32 run" where
  "take_token s e = (case ts_next s of Some t \<Rightarrow> (Inr t, e) | None \<Rightarrow> sample e)"

function next_loop :: "stream \<Rightarrow> str \<Rightarrow> engine \<Rightarrow> (error + str) \<times> stream \<times> engine" where
  "next_loop s out e =
     (if out \<noteq> [] \<or> ts_left s = 0 then (Inr out, s, e)
      else (case take_token s e of
              (Inl x, e) \<Rightarrow> (Inl x, s\<lparr>ts_next := None\<rparr>, e)
            | (Inr t, e) \<Rightarrow>
                let m = en_models e ! ts_model s in
                if t = fst (md_ends m) \<or> t = snd (md_ends m) then (Inr out, s\<lparr>ts_next := None, ts_left := 0\<rparr>, e)
                else let (more, pending) = detok_push (md_tok m) t (ts_pending s) in
                  next_loop (s\<lparr>ts_next := None, ts_left := ts_left s - 1, ts_tokens := ts_tokens s + 1,
                    ts_pending := pending\<rparr>) (out @ more) e))"
  by pat_completeness auto
termination
  by (relation "measure (\<lambda>(s, _, _). ts_left s)") auto

declare next_loop.simps [simp del]

definition next_text :: "stream \<Rightarrow> engine \<Rightarrow> (error + str option) \<times> stream \<times> engine" where
  "next_text s e =
     (case next_loop s [] e of
        (Inl x, s, e) \<Rightarrow> (Inl x, s, e)
      | (Inr out, s, e) \<Rightarrow>
          let (out, s) = (if ts_left s = 0
                then (let (more, pending) = detok_finish (ts_pending s) in (out @ more, s\<lparr>ts_pending := pending\<rparr>))
                else (out, s))
          in (Inr (if out = [] then None else Some out), s, e))"

definition stream_drop :: "stream \<Rightarrow> engine \<Rightarrow> engine" where
  "stream_drop s e =
     (let (_, e) = call e; (m, e) = touch (ts_keep s) (en_models e ! ts_model s) e; e = set_model (ts_model s) m e
      in snd (expire e))"

section \<open>The memory limits\<close>

text \<open>
  What the engine keeps: VRAM and pinned memory under their limits, towers only with a model in VRAM, and a kept copy of
  the weights as long as the weights.
\<close>

definition model_ok :: "model \<Rightarrow> bool" where
  "model_ok m \<longleftrightarrow>
     (\<not> in_vram m \<longrightarrow> md_vision m = None \<and> md_audio m = None) \<and>
     (\<forall>d. md_at m = Vram d \<longrightarrow> dec_shadow d = None \<or> dec_shadow d = Some (dec_weights d))"

definition names :: "engine \<Rightarrow> str list" where
  "names e = map md_name (en_models e) @ map hd_name (en_encoders e)"

definition eng_ok :: "engine \<Rightarrow> bool" where
  "eng_ok e \<longleftrightarrow>
     used e \<le> en_vram e \<and> hosted e \<le> en_host e \<and> list_all model_ok (en_models e) \<and> distinct (names e)"

definition vram_of :: "model \<Rightarrow> nat" where
  "vram_of m = towers m + (if in_vram m then md_need m else 0)"

lemma used_sum: "used e = sum_list (map hd_bytes (en_encoders e)) + sum_list (map vram_of (en_models e))"
proof -
  have "sum_list (map vram_of ms) = sum_list (map towers ms) + sum_list (map md_need (filter in_vram ms))" for ms
    by (induction ms) (simp_all add: vram_of_def)
  then show ?thesis by (simp add: used_def)
qed

lemma sum_list_update_nat:
  fixes f :: "'a \<Rightarrow> nat"
  assumes "i < length xs"
  shows "sum_list (map f (xs[i := x])) + f (xs ! i) = sum_list (map f xs) + f x"
proof -
  have "sum_list (map f xs) = sum_list (map f (take i xs)) + f (xs ! i) + sum_list (map f (drop (Suc i) xs))"
    by (subst id_take_nth_drop [OF assms]) simp
  moreover have "sum_list (map f (xs[i := x])) = sum_list (map f (take i xs)) + f x + sum_list (map f (drop (Suc i) xs))"
    using assms by (simp add: upd_conv_take_nth_drop)
  ultimately show ?thesis by simp
qed

lemma used_set_model:
  "i < length (en_models e) \<Longrightarrow> used (set_model i m e) + vram_of (en_models e ! i) = used e + vram_of m"
  using sum_list_update_nat [of i "en_models e" vram_of m] by (simp add: used_sum set_model_def)

lemma hosted_set_model:
  "i < length (en_models e) \<Longrightarrow> hosted (set_model i m e) + held_bytes (en_models e ! i) = hosted e + held_bytes m"
  using sum_list_update_nat [of i "en_models e" held_bytes m] by (simp add: hosted_def set_model_def)

lemma vram_of_let_go [simp]: "vram_of (let_go m) = vram_of m"
  by (simp add: vram_of_def)

lemma held_let_go [simp]: "held_bytes (let_go m) = 0"
  by (simp add: held_bytes_def let_go_def drop_shadow_def shadow_bytes_def split: place.splits)

lemma model_ok_let_go: "model_ok m \<Longrightarrow> model_ok (let_go m)"
  by (auto simp: model_ok_def let_go_def drop_shadow_def in_vram_def split: place.splits)

lemma loosened_sums:
  assumes "list_all2 loosened ms ms'"
  shows "sum_list (map vram_of ms') = sum_list (map vram_of ms)" "sum_list (map held_bytes ms') \<le> sum_list (map held_bytes ms)"
    "map md_name ms' = map md_name ms" "list_all model_ok ms \<Longrightarrow> list_all model_ok ms'"
  using assms
  by (induction rule: list_all2_induct) (auto simp: loosened_def model_ok_let_go)

lemma holder_none: "holder e = None \<Longrightarrow> hosted e = 0"
proof -
  assume none: "holder e = None"
  have empty: "xs = []" if "min_by f xs = None" for f and xs :: "nat list"
    using that by (cases xs) (auto split: option.splits if_splits)
  have "\<not> holds m" if "m \<in> set (en_models e)" for m
    using that empty [OF none [unfolded holder_def]] by (auto simp: in_set_conv_nth filter_empty_conv)
  then have "held_bytes m = 0" if "m \<in> set (en_models e)" for m
    using that by (fastforce simp: holds_def held_bytes_def split: place.splits)
  then show ?thesis by (simp add: hosted_def)
qed

text \<open>After the loop the new bytes fit, if they fit an empty host tier at all.\<close>

lemma host_room_fits: "bs \<le> en_host e \<Longrightarrow> hosted (host_room bs e) + bs \<le> en_host e"
proof (induction bs e rule: host_room.induct)
  case (1 bs e)
  show ?case
  proof (cases "hosted e + bs \<le> en_host e")
    case True
    then show ?thesis by (subst host_room.simps) simp
  next
    case False
    show ?thesis
    proof (cases "holder e")
      case None
      then show ?thesis using holder_none [OF None] "1.prems" by (subst host_room.simps) (simp add: False)
    next
      case (Some j)
      then show ?thesis using "1.IH" [OF False Some] "1.prems" False
        by (subst host_room.simps) (simp add: set_model_def)
    qed
  qed
qed

lemma held_park: "model_ok m \<Longrightarrow> md_at m = Vram d \<Longrightarrow> pk_bytes (park d) = parked_bytes d"
  by (auto simp: model_ok_def pk_bytes_def park_def parked_bytes_def)

text \<open>Moving a model out frees its VRAM and keeps every limit, whatever the driver answers.\<close>

lemma evict_ok:
  assumes "i < length (en_models e)" "evict i e = (r, e')" "eng_ok e"
  shows "eng_ok e'" "used e' + vram_of (en_models e ! i) = used e"
proof -
  let ?m = "en_models e ! i"
  let ?out = "?m\<lparr>md_vision := None, md_audio := None, md_at := Disk\<rparr>"
  let ?e = "set_model i ?out e"
  have len: "i < length (en_models ?e)" using assms(1) by (simp add: set_model_def)
  have m: "model_ok ?m" using assms(1,3) by (simp add: eng_ok_def list_all_length)
  have out0: "vram_of ?out = 0" "held_bytes ?out = 0" "model_ok ?out"
    by (simp_all add: vram_of_def towers_def in_vram_def held_bytes_def model_ok_def)
  have used0: "used ?e + vram_of ?m = used e" using used_set_model [OF assms(1), of ?out] out0 by simp
  have hosted0: "hosted ?e \<le> hosted e" using hosted_set_model [OF assms(1), of ?out] out0 by simp
  have names0: "names ?e = names e" using assms(1) by (simp add: names_def set_model_def map_update list_update_same_conv)
  have oks0: "list_all model_ok (en_models ?e)"
    using assms(1,3) out0 by (auto simp: eng_ok_def set_model_def list_all_length nth_list_update)
  have env0: "en_vram ?e = en_vram e" "en_host ?e = en_host e" by (simp_all add: set_model_def)
  have ok0: "eng_ok ?e" using used0 hosted0 names0 oks0 assms(3) env0 unfolding eng_ok_def by auto
  have "eng_ok e' \<and> used e' = used ?e"
  proof (cases "md_at ?m")
    case (Vram d)
    show ?thesis
    proof (cases "parked_bytes d > en_host e")
      case True
      then have "e' = ?e" using assms(2) Vram by (simp add: evict_def Let_def set_model_def)
      then show ?thesis using ok0 by simp
    next
      case False
      obtain ms where ms: "host_room (parked_bytes d) ?e = ?e\<lparr>en_models := ms\<rparr>" "list_all2 loosened (en_models ?e) ms"
        using host_room_frame by blast
      let ?h = "?e\<lparr>en_models := ms\<rparr>"
      have fits: "hosted ?h + parked_bytes d \<le> en_host e"
        using host_room_fits [of "parked_bytes d" ?e] False ms(1) by (simp add: set_model_def)
      have h: "used ?h = used ?e" "names ?h = names ?e" "list_all model_ok ms" "i < length ms"
        using loosened_sums [OF ms(2)] oks0 list_all2_lengthD [OF ms(2)] len by (simp_all add: used_sum names_def)
      have msi: "ms ! i = ?out"
        using ms(2) assms(1) by (auto simp: set_model_def list_all2_conv_all_nth loosened_def let_go_def)
      obtain o1 e1 where c: "call ?h = (o1, e1)" by fastforce
      have e1: "used e1 = used ?h" "hosted e1 = hosted ?h" "en_models e1 = ms" "names e1 = names ?h"
        "en_vram e1 = en_vram e" "en_host e1 = en_host e"
        using c by (auto simp: call_def used_sum hosted_def names_def set_model_def)
      have ok1: "eng_ok e1"
        using ok0 e1 h fits env0 unfolding eng_ok_def by simp
      show ?thesis
      proof (cases o1)
        case (Inl x)
        then have "e' = e1" using assms(2) Vram False c ms(1) by (simp add: evict_def Let_def set_model_def)
        then show ?thesis using ok1 e1 h by simp
      next
        case (Inr x)
        let ?p = "?out\<lparr>md_at := Host (park d)\<rparr>"
        have e': "e' = set_model i ?p e1"
          using assms(2) Vram False c ms(1) Inr msi e1 by (simp add: evict_def Let_def set_model_def)
        have i1: "i < length (en_models e1)" using h e1 by simp
        have p: "vram_of ?p = 0" "held_bytes ?p = parked_bytes d" "model_ok ?p"
          using held_park [OF m Vram] by (simp_all add: vram_of_def towers_def in_vram_def held_bytes_def model_ok_def)
        have "used e' = used e1" using used_set_model [OF i1, of ?p] e' p msi e1 out0 by simp
        moreover have "hosted e' = hosted e1 + parked_bytes d"
          using hosted_set_model [OF i1, of ?p] e' p msi e1 out0 by simp
        moreover have "names e' = names e1"
          using e' i1 msi e1 by (simp add: names_def set_model_def map_update list_update_same_conv)
        moreover have "list_all model_ok (en_models e')"
          using e' h e1 p by (auto simp: set_model_def list_all_length nth_list_update)
        moreover have "en_vram e' = en_vram e" "en_host e' = en_host e" using e' e1 by (simp_all add: set_model_def)
        ultimately show ?thesis using ok1 e1 h fits unfolding eng_ok_def by simp
      qed
    qed
  qed (use assms ok0 in \<open>simp_all add: evict_def Let_def\<close>)
  then show "eng_ok e'" "used e' + vram_of ?m = used e" using used0 by simp_all
qed

section \<open>Making room\<close>

text \<open>
  How a model may come out of an operation that makes room: where it was, at most without its pinned memory, or, if it
  may go, out of VRAM.
\<close>

definition follows :: "bool \<Rightarrow> model \<Rightarrow> model \<Rightarrow> bool" where
  "follows may m m' \<longleftrightarrow>
     loosened m m' \<or>
     (may \<and> in_vram m \<and> \<not> in_vram m' \<and> (\<exists>at. m' = m\<lparr>md_vision := None, md_audio := None, md_at := at\<rparr>))"

lemma follows_refl [simp]: "follows may m m"
  by (simp add: follows_def loosened_def)

lemma follows_trans: "follows may m m1 \<Longrightarrow> follows may m1 m2 \<Longrightarrow> follows may m m2"
  by (auto simp: follows_def loosened_def let_go_def drop_shadow_def in_vram_def split: place.splits)

lemma follows_keeps:
  assumes "follows may m m'"
  shows "md_name m' = md_name m" "md_need m' = md_need m" "md_load m' = md_load m" "md_used m' = md_used m"
    "md_until m' = md_until m" "md_dir m' = md_dir m" "in_vram m' \<Longrightarrow> in_vram m"
    "in_vram m' \<Longrightarrow> md_vision m' = md_vision m \<and> md_audio m' = md_audio m"
    "\<not> may \<Longrightarrow> in_vram m' = in_vram m" "\<not> may \<Longrightarrow> loosened m m'"
  using assms by (auto simp: follows_def loosened_def)

lemma min_by_least: "min_by f xs = Some x \<Longrightarrow> y \<in> set xs \<Longrightarrow> f x \<le> f y"
proof (induction xs arbitrary: x y)
  case (Cons a xs)
  show ?case
  proof (cases "min_by f xs")
    case None
    then have "xs = []" by (cases xs) (auto split: option.splits if_splits)
    then show ?thesis using Cons.prems None by auto
  next
    case (Some z)
    then show ?thesis using Cons by (force split: if_splits)
  qed
qed simp

lemma min_by_None: "min_by f xs = None \<longleftrightarrow> xs = []"
  by (cases xs) (auto split: option.splits)

definition spared :: "nat option \<Rightarrow> model list \<Rightarrow> nat \<Rightarrow> bool" where
  "spared kept ms j \<longleftrightarrow> Some j = kept \<or> ld_pin (md_load (ms ! j))"

lemma evict_follows:
  assumes "evict i e = (r, e')" "i < length (en_models e)" "may_go kept e i" "j < length (en_models e)"
  shows "follows (\<not> spared kept (en_models e) j) (en_models e ! j) (en_models e' ! j)"
proof (cases "j = i")
  case True
  then show ?thesis
    using evict_effect(4) [OF assms(2,1)] evict_not_in_vram(1) [OF assms(2,1)] assms(3)
    by (auto simp: follows_def may_go_def spared_def)
next
  case False
  then show ?thesis using evict_effect(3) [OF assms(2,1) assms(4)] by (simp add: follows_def)
qed

lemma room_frame:
  assumes "room need kept e = (r, e')"
  shows "length (en_models e') = length (en_models e) \<and> same_env e e' \<and>
    (\<forall>j < length (en_models e). follows (\<not> spared kept (en_models e) j) (en_models e ! j) (en_models e' ! j))"
  using assms
proof (induction need kept e arbitrary: r e' rule: room.induct)
  case (1 need kept e)
  show ?case
  proof (cases "used e + need \<le> en_vram e \<or> victim kept e = None")
    case True
    then show ?thesis using "1.prems" by (subst (asm) room.simps) (auto split: if_splits option.splits)
  next
    case False
    then obtain j where j: "victim kept e = Some j" and low: "\<not> used e + need \<le> en_vram e" by auto
    have jl: "j < length (en_models e)" and go: "may_go kept e j" using victim_may_go [OF j] by auto
    obtain r1 e1 where ev: "evict j e = (r1, e1)" by fastforce
    note eff = evict_effect(1,2) [OF jl ev]
    note fol = evict_follows [OF ev jl go]
    show ?thesis
    proof (cases r1)
      case (Inl x)
      then have "e' = e1" using "1.prems" j low ev by (subst (asm) room.simps) simp
      then show ?thesis using eff fol by simp
    next
      case (Inr u)
      then have "room need kept e1 = (r, e')" using "1.prems" j low ev by (subst (asm) room.simps) simp
      then have ih: "length (en_models e') = length (en_models e1) \<and> same_env e1 e' \<and>
          (\<forall>k < length (en_models e1). follows (\<not> spared kept (en_models e1) k) (en_models e1 ! k) (en_models e' ! k))"
        using "1.IH" [OF low j ev [symmetric] Inr] by blast
      have "follows (\<not> spared kept (en_models e) k) (en_models e ! k) (en_models e' ! k)" if k: "k < length (en_models e)" for k
      proof -
        have same: "spared kept (en_models e1) k = spared kept (en_models e) k"
          using follows_keeps(3) [OF fol [OF k]] by (simp add: spared_def)
        have "follows (\<not> spared kept (en_models e1) k) (en_models e1 ! k) (en_models e' ! k)"
          using ih eff(1) k by simp
        then show ?thesis unfolding same by (rule follows_trans [OF fol [OF k]])
      qed
      then show ?thesis using ih eff same_env_trans by auto
    qed
  qed
qed

lemma room_ok:
  assumes "room need kept e = (r, e')" "eng_ok e"
  shows "eng_ok e' \<and> (r = Inr () \<longrightarrow> used e' + need \<le> en_vram e)"
  using assms
proof (induction need kept e arbitrary: r e' rule: room.induct)
  case (1 need kept e)
  show ?case
  proof (cases "used e + need \<le> en_vram e \<or> victim kept e = None")
    case True
    then show ?thesis using "1.prems" by (subst (asm) room.simps) (auto split: if_splits option.splits)
  next
    case False
    then obtain j where j: "victim kept e = Some j" and low: "\<not> used e + need \<le> en_vram e" by auto
    have jl: "j < length (en_models e)" using victim_may_go [OF j] by auto
    obtain r1 e1 where ev: "evict j e = (r1, e1)" by fastforce
    have e1: "eng_ok e1" "en_vram e1 = en_vram e"
      using evict_ok(1) [OF jl ev "1.prems"(2)] evict_effect(2) [OF jl ev] by (simp_all add: same_env_def)
    show ?thesis
    proof (cases r1)
      case (Inl x)
      then have "e' = e1" "r = Inl x" using "1.prems" j low ev by (subst (asm) room.simps, simp)+
      then show ?thesis using e1 by simp
    next
      case (Inr u)
      then have "room need kept e1 = (r, e')" using "1.prems" j low ev by (subst (asm) room.simps) simp
      then show ?thesis using "1.IH" [OF low j ev [symmetric] Inr _ e1(1)] e1 by simp
    qed
  qed
qed

text \<open>Models leave in the order they were last used.\<close>

lemma room_lru:
  assumes "room need kept e = (r, e')" "j < length (en_models e)" "in_vram (en_models e ! j)" "\<not> in_vram (en_models e' ! j)"
    and "k < length (en_models e)" "may_go kept e' k"
  shows "md_used (en_models e ! j) \<le> md_used (en_models e ! k)"
  using assms
proof (induction need kept e arbitrary: r e' rule: room.induct)
  case (1 need kept e)
  have "\<not> used e + need \<le> en_vram e" and "victim kept e \<noteq> None"
    using "1.prems"(1,3,4) by (subst (asm) room.simps, auto split: if_splits option.splits)+
  then obtain i where i: "victim kept e = Some i" and low: "\<not> used e + need \<le> en_vram e" by auto
  have il: "i < length (en_models e)" and go: "may_go kept e i" using victim_may_go [OF i] by auto
  obtain r1 e1 where ev: "evict i e = (r1, e1)" by fastforce
  note fol = evict_follows [OF ev il go]
  have all: "follows (\<not> spared kept (en_models e) l) (en_models e ! l) (en_models e' ! l)"
    if "l < length (en_models e)" for l
    using room_frame [OF "1.prems"(1)] that by blast
  have cand: "may_go kept e k"
    using "1.prems"(5,6) all [of k] follows_keeps(3,7) by (auto simp: may_go_def)
  have least: "md_used (en_models e ! i) \<le> md_used (en_models e ! k)"
    using i cand "1.prems"(5) unfolding victim_def by (intro min_by_least) auto
  show ?case
  proof (cases "j = i")
    case True
    then show ?thesis using least by simp
  next
    case False
    have j1: "in_vram (en_models e1 ! j)"
      using evict_effect(3) [OF il ev "1.prems"(2) False] "1.prems"(3) loosened_keeps(1) by simp
    have r1: "r1 = Inr ()"
      using "1.prems"(1,4) j1 i low ev by (cases r1) (subst (asm) room.simps, simp)+
    then have "room need kept e1 = (r, e')" using "1.prems" i low ev by (subst (asm) room.simps) simp
    then have "md_used (en_models e1 ! j) \<le> md_used (en_models e1 ! k)"
      using "1.IH" [OF low i ev [symmetric] r1 _ _ j1 "1.prems"(4) _ "1.prems"(6)] "1.prems"(2,5)
        evict_effect(1) [OF il ev] by simp
    then show ?thesis using fol [of j] fol [of k] "1.prems"(2,5) by (simp add: follows_keeps(4))
  qed
qed

lemma call_error: "call e = (Inl x, e') \<Longrightarrow> Some x \<in> set (en_calls e)"
  by (auto simp: call_def split: list.splits option.splits)

lemma evict_calls:
  assumes "evict i e = (r, e')"
  shows "set (en_calls e') \<subseteq> set (en_calls e) \<and> (\<forall>x. r = Inl x \<longrightarrow> Some x \<in> set (en_calls e))"
proof (cases "md_at (en_models e ! i)")
  case (Vram d)
  let ?e = "set_model i ((en_models e ! i)\<lparr>md_vision := None, md_audio := None, md_at := Disk\<rparr>) e"
  show ?thesis
  proof (cases "parked_bytes d > en_host e")
    case True
    then show ?thesis using assms Vram by (auto simp: evict_def Let_def set_model_def)
  next
    case False
    obtain ms where ms: "host_room (parked_bytes d) ?e = ?e\<lparr>en_models := ms\<rparr>" using host_room_frame by blast
    obtain o1 e1 where c: "call (?e\<lparr>en_models := ms\<rparr>) = (o1, e1)" by fastforce
    have sub: "set (en_calls e1) \<subseteq> set (en_calls e)"
      using c by (cases "en_calls e") (auto simp: call_def set_model_def)
    show ?thesis
    proof (cases o1)
      case (Inl x)
      then show ?thesis
        using assms Vram False ms c sub call_error [of "?e\<lparr>en_models := ms\<rparr>" x e1]
        by (auto simp: evict_def Let_def set_model_def)
    next
      case (Inr u)
      then show ?thesis using assms Vram False ms c sub by (auto simp: evict_def Let_def set_model_def)
    qed
  qed
qed (use assms in \<open>auto simp: evict_def Let_def set_model_def\<close>)

text \<open>Room fails for one of two reasons: the driver failed, or nothing that may go is left and it still does not fit.\<close>

lemma room_error:
  assumes "room need kept e = (Inl x, e')"
  shows "Some x \<in> set (en_calls e) \<or>
    (x = OutOfMemory need (en_vram e - used e') \<and> (\<forall>j < length (en_models e'). \<not> may_go kept e' j) \<and>
     en_vram e < used e' + need)"
  using assms
proof (induction need kept e arbitrary: e' rule: room.induct)
  case (1 need kept e)
  have low: "\<not> used e + need \<le> en_vram e" using "1.prems" by (subst (asm) room.simps) (auto split: if_splits)
  show ?case
  proof (cases "victim kept e")
    case None
    then have "e' = e" "x = OutOfMemory need (en_vram e - used e)"
      using "1.prems" low by (subst (asm) room.simps, simp)+
    then show ?thesis using None low unfolding victim_def by (auto simp: min_by_None filter_empty_conv)
  next
    case (Some j)
    obtain r1 e1 where ev: "evict j e = (r1, e1)" by fastforce
    note calls = evict_calls [OF ev]
    show ?thesis
    proof (cases r1)
      case (Inl y)
      then have "y = x" using "1.prems" low Some ev by (subst (asm) room.simps) simp
      then show ?thesis using calls Inl by simp
    next
      case (Inr u)
      then have "room need kept e1 = (Inl x, e')" using "1.prems" low Some ev by (subst (asm) room.simps) simp
      then show ?thesis
        using "1.IH" [OF low Some ev [symmetric] Inr] calls evict_effect(2) [OF conjunct1 [OF victim_may_go [OF Some]] ev]
        by (auto simp: same_env_def)
    qed
  qed
qed

lemma room_calls: "room need kept e = (r, e') \<Longrightarrow> set (en_calls e') \<subseteq> set (en_calls e)"
proof (induction need kept e arbitrary: r e' rule: room.induct)
  case (1 need kept e)
  show ?case
  proof (cases "used e + need \<le> en_vram e \<or> victim kept e = None")
    case True
    then show ?thesis using "1.prems" by (subst (asm) room.simps) (auto split: if_splits option.splits)
  next
    case False
    then obtain j where j: "victim kept e = Some j" and low: "\<not> used e + need \<le> en_vram e" by auto
    obtain r1 e1 where ev: "evict j e = (r1, e1)" by fastforce
    note sub = conjunct1 [OF evict_calls [OF ev]]
    show ?thesis
    proof (cases r1)
      case (Inl x)
      then have "e' = e1" using "1.prems" j low ev by (subst (asm) room.simps) simp
      then show ?thesis using sub by simp
    next
      case (Inr u)
      then have "room need kept e1 = (r, e')" using "1.prems" j low ev by (subst (asm) room.simps) simp
      then show ?thesis using "1.IH" [OF low j ev [symmetric] Inr] sub by blast
    qed
  qed
qed

section \<open>Every operation keeps the limits\<close>

lemma eng_ok_update [simp]:
  "eng_ok (e\<lparr>en_calls := c\<rparr>) = eng_ok e" "eng_ok (e\<lparr>en_now := t\<rparr>) = eng_ok e" "eng_ok (e\<lparr>en_ticks := d\<rparr>) = eng_ok e"
  "eng_ok (e\<lparr>en_samples := q\<rparr>) = eng_ok e"
  by (simp_all add: eng_ok_def used_def hosted_def names_def)

lemma instant_keeps:
  assumes "instant e = (t, e')"
  shows "en_models e' = en_models e" "en_encoders e' = en_encoders e" "en_vram e' = en_vram e" "en_host e' = en_host e"
    "eng_ok e' = eng_ok e" "names e' = names e" "en_now e \<le> t"
  using assms by (auto simp: instant_def Let_def names_def split: list.splits)

lemma call_keeps:
  assumes "call e = (r, e')"
  shows "en_models e' = en_models e" "en_encoders e' = en_encoders e" "en_vram e' = en_vram e" "en_host e' = en_host e"
    "eng_ok e' = eng_ok e" "names e' = names e" "used e' = used e"
  using assms by (auto simp: call_def names_def used_def)

lemma sample_keeps:
  assumes "sample e = (r, e')"
  shows "en_models e' = en_models e" "en_encoders e' = en_encoders e" "en_vram e' = en_vram e" "en_host e' = en_host e"
    "eng_ok e' = eng_ok e" "names e' = names e"
  using assms by (auto simp: sample_def names_def)

lemma sum_list_filter_le: "sum_list (map f (filter P xs)) \<le> (sum_list (map f xs) :: nat)"
  by (induction xs) auto

lemma unload_ok:
  assumes "unload name e = (r, e')" "eng_ok e"
  shows "eng_ok e'" "name \<notin> set (names e')" "r \<longleftrightarrow> name \<in> set (names e)"
proof -
  let ?e = "e\<lparr>en_models := filter (\<lambda>m. md_name m \<noteq> name) (en_models e),
      en_encoders := filter (\<lambda>h. hd_name h \<noteq> name) (en_encoders e)\<rparr>"
  have e': "e' = snd (call ?e)" and r: "r \<longleftrightarrow> length (names e') < length (names e)"
    using assms(1) by (auto simp: unload_def Let_def names_def split: prod.splits)
  have "used ?e \<le> used e"
    unfolding used_sum by (simp add: add_mono sum_list_filter_le)
  moreover have "hosted ?e \<le> hosted e" by (simp add: hosted_def sum_list_filter_le)
  moreover have "list_all model_ok (en_models ?e)" using assms(2) by (auto simp: eng_ok_def list_all_iff)
  moreover have ns: "names ?e = filter (\<lambda>n. n \<noteq> name) (names e)" by (simp add: names_def filter_map o_def)
  ultimately have "eng_ok ?e" using assms(2) by (auto simp: eng_ok_def)
  then show "eng_ok e'" using e' call_keeps(5) [of ?e] by (metis prod.collapse)
  have names': "names e' = filter (\<lambda>n. n \<noteq> name) (names e)" using e' ns by (simp add: names_def)
  then show "name \<notin> set (names e')" by simp
  show "r \<longleftrightarrow> name \<in> set (names e)"
    unfolding r names' by (metis (mono_tags, lifting) filter_False filter_True length_filter_less less_irrefl)
qed

text \<open>Sending models to disk one by one.\<close>

definition sent :: "nat \<Rightarrow> model \<Rightarrow> model \<Rightarrow> bool" where
  "sent now m m' \<longleftrightarrow> m' = m \<or> (expired now m \<and> m' = m\<lparr>md_vision := None, md_audio := None, md_at := Disk\<rparr>)"

lemma expire_models_sent:
  assumes "expire_models now ms e freed = ((r, e'), ms')"
  shows "list_all2 (sent now) ms ms' \<and> en_models e' = en_models e \<and> en_encoders e' = en_encoders e \<and>
    en_vram e' = en_vram e \<and> en_host e' = en_host e \<and> en_now e' = en_now e \<and>
    (\<forall>x. r = Inr x \<longrightarrow> list_all (\<lambda>m. \<not> expired now m) ms')"
  using assms
proof (induction ms arbitrary: e freed r e' ms')
  case Nil
  then show ?case by auto
next
  case (Cons m ms)
  show ?case
  proof (cases "expired now m")
    case False
    obtain r1 e1 rest where run: "expire_models now ms e freed = ((r1, e1), rest)" by (metis surj_pair)
    then have "r = r1" "e' = e1" "ms' = m # rest" using Cons.prems False by auto
    then show ?thesis using Cons.IH [OF run] False by (auto simp: sent_def)
  next
    case True
    obtain r0 e0 where c: "(if in_vram m then call e else (Inr (), e)) = (r0, e0)" by fastforce
    have e0: "en_models e0 = en_models e" "en_encoders e0 = en_encoders e" "en_vram e0 = en_vram e"
      "en_host e0 = en_host e" "en_now e0 = en_now e"
      using c by (auto simp: call_def split: if_splits)
    show ?thesis
    proof (cases r0)
      case (Inl x)
      then have "r = Inl x" "e' = e0" "ms' = m # ms" using Cons.prems True c by auto
      then show ?thesis using e0 by (auto simp: sent_def list_all2_refl)
    next
      case (Inr u)
      obtain r1 e1 rest where run: "expire_models now ms e0 True = ((r1, e1), rest)" by (metis surj_pair)
      then have "r = r1" "e' = e1" "ms' = m\<lparr>md_vision := None, md_audio := None, md_at := Disk\<rparr> # rest"
        using Cons.prems True c Inr by auto
      then show ?thesis using Cons.IH [OF run] e0 True by (auto simp: sent_def expired_def)
    qed
  qed
qed

lemma sent_sums:
  assumes "list_all2 (sent now) ms ms'"
  shows "sum_list (map vram_of ms') \<le> sum_list (map vram_of ms)" "sum_list (map held_bytes ms') \<le> sum_list (map held_bytes ms)"
    "map md_name ms' = map md_name ms" "list_all model_ok ms \<Longrightarrow> list_all model_ok ms'"
  using assms
  by (induction rule: list_all2_induct)
    (auto simp: sent_def vram_of_def towers_def in_vram_def held_bytes_def model_ok_def split: option.splits)

text \<open>\<open>expire\<close> as a whole, whether or not the driver fails on the way.\<close>

lemma expire_effect:
  assumes "expire e = (r, e')"
  obtains now where "en_now e \<le> now" "list_all2 (sent now) (en_models e) (en_models e')"
    "en_vram e' = en_vram e" "en_host e' = en_host e" "en_now e' = now"
    "en_encoders e' = en_encoders e \<or> en_encoders e' = filter (enc_kept now) (en_encoders e)"
    "list_all (\<lambda>m. \<not> expired now m) (en_models e') \<and> en_encoders e' = filter (enc_kept now) (en_encoders e) \<or>
       (\<exists>x. r = Inl x)"
proof -
  obtain now e1 where i: "instant e = (now, e1)" by fastforce
  obtain r1 e2 ms where run: "expire_models now (en_models e1) e1 False = ((r1, e2), ms)" by (metis surj_pair)
  note ms = expire_models_sent [OF run]
  have e1: "en_now e1 = now" "en_now e \<le> now" "en_models e1 = en_models e" "en_encoders e1 = en_encoders e"
    "en_vram e1 = en_vram e" "en_host e1 = en_host e"
    using i by (auto simp: instant_def Let_def split: list.splits)
  let ?kept = "filter (enc_kept now) (en_encoders e)"
  show ?thesis
  proof (cases r1)
    case (Inl x)
    then have "r = Inl x" "e' = e2\<lparr>en_models := ms\<rparr>" using assms i run by (auto simp: expire_def)
    then show ?thesis using that [of now] ms e1 by simp
  next
    case (Inr v)
    obtain u freed where v: "v = (u, freed)" by fastforce
    let ?e = "e2\<lparr>en_models := ms, en_encoders := ?kept\<rparr>"
    have "(r, e') = call ?e \<or> (r, e') = (Inr (), ?e)"
      using assms i run Inr v ms e1 by (auto simp: expire_def Let_def split: if_splits)
    then have "en_models e' = ms" "en_encoders e' = ?kept" "en_vram e' = en_vram e" "en_host e' = en_host e" "en_now e' = now"
      using ms e1 by (auto simp: call_def)
    then show ?thesis using that [of now] ms e1 Inr by simp
  qed
qed

lemma expire_ok:
  assumes "expire e = (r, e')" "eng_ok e"
  shows "eng_ok e'" "set (names e') \<subseteq> set (names e)" "map md_name (en_models e') = map md_name (en_models e)"
proof -
  obtain now where now: "list_all2 (sent now) (en_models e) (en_models e')" "en_vram e' = en_vram e" "en_host e' = en_host e"
    and enc: "en_encoders e' = en_encoders e \<or> en_encoders e' = filter (enc_kept now) (en_encoders e)"
    using expire_effect [OF assms(1)] by metis
  have "sum_list (map hd_bytes (en_encoders e')) \<le> sum_list (map hd_bytes (en_encoders e))"
    using enc by (auto simp: sum_list_filter_le)
  then have "used e' \<le> used e" using sent_sums(1) [OF now(1)] by (simp add: used_sum)
  moreover have "hosted e' \<le> hosted e" using sent_sums(2) [OF now(1)] by (simp add: hosted_def)
  moreover have "distinct (names e')" "set (names e') \<subseteq> set (names e)"
    using enc sent_sums(3) [OF now(1)] assms(2)
    by (auto simp: names_def eng_ok_def distinct_map_filter dest: arg_cong [where f = set])
  ultimately show "eng_ok e'" "set (names e') \<subseteq> set (names e)"
    using sent_sums(4) [OF now(1)] now(2,3) assms(2) by (auto simp: eng_ok_def)
  show "map md_name (en_models e') = map md_name (en_models e)" by (rule sent_sums(3) [OF now(1)])
qed

lemma ebind_cases:
  assumes "ebind x f = (r, e')"
  obtains (err) y where "x = (Inl y, e')" "r = Inl y" | (go) v e1 where "x = (Inr v, e1)" "f v e1 = (r, e')"
  using assms by (cases x; cases "fst x") auto

lemma set_model_ok:
  assumes "eng_ok e" "i < length (en_models e)" "model_ok m" "md_name m = md_name (en_models e ! i)"
    and "used e + vram_of m \<le> en_vram e + vram_of (en_models e ! i)" "held_bytes m \<le> held_bytes (en_models e ! i)"
  shows "eng_ok (set_model i m e)"
proof -
  have "used (set_model i m e) \<le> en_vram e" using used_set_model [OF assms(2), of m] assms(5) by linarith
  moreover have "hosted (set_model i m e) \<le> en_host e"
    using hosted_set_model [OF assms(2), of m] assms(1,6) unfolding eng_ok_def by linarith
  moreover have "names (set_model i m e) = names e"
    using assms(2,4) by (simp add: names_def set_model_def map_update list_update_same_conv)
  moreover have "list_all model_ok (en_models (set_model i m e))"
    using assms(1-3) by (auto simp: eng_ok_def set_model_def list_all_length nth_list_update)
  ultimately show ?thesis using assms(1) by (simp add: eng_ok_def set_model_def)
qed

lemma bring_ok:
  assumes "bring disk i e = (r, e')" "eng_ok e" "i < length (en_models e)"
    and "in_vram (en_models e ! i) \<or> used e + md_need (en_models e ! i) \<le> en_vram e"
  shows "eng_ok e'" "r = Inr () \<Longrightarrow> in_vram (en_models e' ! i)" "length (en_models e') = length (en_models e)"
    "names e' = names e"
proof -
  let ?m = "en_models e ! i"
  have ok: "model_ok ?m" using assms(2,3) by (simp add: eng_ok_def list_all_length)
  have "eng_ok e' \<and> (r = Inr () \<longrightarrow> in_vram (en_models e' ! i)) \<and> length (en_models e') = length (en_models e) \<and> names e' = names e"
  proof (cases "md_at ?m")
    case (Vram d)
    then show ?thesis using assms(1,2) by (auto simp: bring_def in_vram_def)
  next
    case (Host p)
    let ?e = "set_model i (?m\<lparr>md_at := Disk\<rparr>) e"
    let ?there = "?m\<lparr>md_at := Vram (resume p)\<rparr>"
    have none: "md_vision ?m = None" "md_audio ?m = None" using ok Host by (auto simp: model_ok_def in_vram_def)
    have down: "eng_ok ?e"
      by (rule set_model_ok [OF assms(2,3)])
        (use none assms(2) Host in \<open>simp_all add: model_ok_def in_vram_def vram_of_def towers_def held_bytes_def eng_ok_def\<close>)
    obtain r1 e1 where c: "call ?e = (r1, e1)" by fastforce
    note ck = call_keeps [OF c]
    have u: "used ?e = used e" using used_set_model [OF assms(3), of "?m\<lparr>md_at := Disk\<rparr>"] Host none
      by (simp add: vram_of_def towers_def in_vram_def)
    have room: "used e + md_need ?m \<le> en_vram e" using assms(4) Host by (simp add: in_vram_def)
    show ?thesis
    proof (cases r1)
      case (Inl x)
      then have "e' = e1" "r = Inl x" using assms(1) Host c by (auto simp: bring_def)
      then show ?thesis using down ck assms(3) by (simp add: set_model_def names_def map_update list_update_same_conv)
    next
      case (Inr v)
      then have e': "e' = set_model i ?there e1" using assms(1) Host c by (auto simp: bring_def)
      have eq: "en_models e' = (en_models e)[i := ?there]" using e' ck by (simp add: set_model_def)
      have same: "e' = set_model i ?there (e1\<lparr>en_models := en_models e\<rparr>)" using e' ck by (simp add: set_model_def)
      have base: "eng_ok (e1\<lparr>en_models := en_models e\<rparr>)" "used (e1\<lparr>en_models := en_models e\<rparr>) = used e"
        using assms(2) ck by (simp_all add: eng_ok_def used_def hosted_def names_def set_model_def)
      have "eng_ok e'"
        unfolding same
        by (rule set_model_ok [OF base(1)])
          (use assms(3) none room base(2) Host ck in \<open>simp_all add: model_ok_def resume_def in_vram_def vram_of_def towers_def
             held_bytes_def shadow_bytes_def pk_bytes_def set_model_def\<close>)
      then show ?thesis
        using eq assms(3) ck e' by (simp add: in_vram_def names_def set_model_def map_update list_update_same_conv)
    qed
  next
    case Disk
    let ?there = "?m\<lparr>md_at := Vram \<lparr>dec_weights = co_weights (disk (md_dir ?m)),
               dec_table = max (co_table (disk (md_dir ?m))) 64, dec_shadow = None\<rparr>\<rparr>"
    have none: "md_vision ?m = None" "md_audio ?m = None" using ok Disk by (auto simp: model_ok_def in_vram_def)
    have room: "used e + md_need ?m \<le> en_vram e" using assms(4) Disk by (simp add: in_vram_def)
    obtain r1 e1 where c: "call e = (r1, e1)" by fastforce
    note ck = call_keeps [OF c]
    show ?thesis
    proof (cases r1)
      case (Inl x)
      then show ?thesis using assms(1,2) Disk c ck by (auto simp: bring_def)
    next
      case (Inr v)
      then have e': "e' = set_model i ?there e1" using assms(1) Disk c by (auto simp: bring_def Let_def)
      have "eng_ok e'"
        unfolding e'
        by (rule set_model_ok)
          (use assms(2,3) none room Disk ck in \<open>simp_all add: model_ok_def in_vram_def vram_of_def towers_def
             held_bytes_def shadow_bytes_def\<close>)
      then show ?thesis
        using assms(3) ck e' by (simp add: in_vram_def names_def set_model_def map_update list_update_same_conv)
    qed
  qed
  then show "eng_ok e'" "r = Inr () \<Longrightarrow> in_vram (en_models e' ! i)" "length (en_models e') = length (en_models e)"
    "names e' = names e" by simp_all
qed

lemma room_keeps:
  assumes "room need kept e = (r, e')" "eng_ok e"
  shows "eng_ok e'" "names e' = names e" "length (en_models e') = length (en_models e)" "en_vram e' = en_vram e"
    "en_encoders e' = en_encoders e" "r = Inr () \<Longrightarrow> used e' + need \<le> en_vram e'"
    "\<And>j. j < length (en_models e) \<Longrightarrow> kept = Some j \<Longrightarrow> loosened (en_models e ! j) (en_models e' ! j)"
proof -
  note fr = room_frame [OF assms(1)] and ok = room_ok [OF assms]
  show "eng_ok e'" "length (en_models e') = length (en_models e)" "en_vram e' = en_vram e" "en_encoders e' = en_encoders e"
    "r = Inr () \<Longrightarrow> used e' + need \<le> en_vram e'"
    using fr ok by (auto simp: same_env_def)
  have "map md_name (en_models e') = map md_name (en_models e)"
    by (rule nth_equalityI) (use fr follows_keeps(1) in \<open>simp_all, blast\<close>)
  then show "names e' = names e" using fr by (simp add: names_def same_env_def)
  show "loosened (en_models e ! j) (en_models e' ! j)" if "j < length (en_models e)" "kept = Some j" for j
  proof -
    have "follows (\<not> spared kept (en_models e) j) (en_models e ! j) (en_models e' ! j)" using fr that(1) by blast
    then show ?thesis by (rule follows_keeps(10)) (simp add: spared_def that(2))
  qed
qed

lemma resident_ok:
  assumes "resident disk i e = (r, e')" "eng_ok e" "i < length (en_models e)"
  shows "eng_ok e'" "names e' = names e" "length (en_models e') = length (en_models e)"
    "r = Inr () \<Longrightarrow> in_vram (en_models e' ! i)"
proof -
  have "eng_ok e' \<and> names e' = names e \<and> length (en_models e') = length (en_models e) \<and> (r = Inr () \<longrightarrow> in_vram (en_models e' ! i))"
  proof (cases "in_vram (en_models e ! i)")
    case True
    then show ?thesis using assms bring_ok [of disk i e r e'] by (simp add: resident_def)
  next
    case False
    have run: "ebind (room (md_need (en_models e ! i)) (Some i) e) (\<lambda>_ e. bring disk i e) = (r, e')"
      using assms(1) False by (simp add: resident_def)
    then show ?thesis
    proof (cases rule: ebind_cases)
      case (err y)
      then show ?thesis using room_keeps [OF err(1) assms(2)] by simp
    next
      case (go v e1)
      note rk = room_keeps [OF go(1) assms(2)]
      have l: "loosened (en_models e ! i) (en_models e1 ! i)" using rk(7) assms(3) by simp
      have "used e1 + md_need (en_models e1 ! i) \<le> en_vram e1" using rk(6) loosened_keeps(3) [OF l] by simp
      then show ?thesis using bring_ok [OF go(2) rk(1)] assms(3) rk by simp
    qed
  qed
  then show "eng_ok e'" "names e' = names e" "length (en_models e') = length (en_models e)"
    "r = Inr () \<Longrightarrow> in_vram (en_models e' ! i)" by simp_all
qed

text \<open>An encoder takes no more VRAM than its footprint said (\<open>encoder/run.rs\<close> computes both from the same sizes).\<close>

definition disk_ok :: "disk \<Rightarrow> bool" where
  "disk_ok disk \<longleftrightarrow> (\<forall>dir n. co_enc_footprint (disk dir) = Inr n \<longrightarrow> co_enc_bytes (disk dir) \<le> n)"

lemma load_encoder_ok:
  assumes "load_encoder disk name dir ld e = (r, e')" "eng_ok e" "disk_ok disk" "name \<notin> set (names e)"
  shows "eng_ok e'"
proof (cases "co_enc_footprint (disk dir)")
  case (Inl x)
  then show ?thesis using assms by (simp add: load_encoder_def)
next
  case (Inr need)
  let ?rest = "\<lambda>_ e. ebind (call e) (\<lambda>_ e.
            let (now, e) = instant e in
            (Inr (), e\<lparr>en_encoders := en_encoders e @ [\<lparr>hd_name = name, hd_bytes = co_enc_bytes (disk dir),
               hd_keep = ld_keep ld, hd_pin = ld_pin ld, hd_until = instant_add now (ld_keep ld)\<rparr>]\<rparr>))"
  have "ebind (room need None e) ?rest = (r, e')" using assms(1) Inr by (simp add: load_encoder_def)
  then show ?thesis
  proof (cases rule: ebind_cases)
    case (err y)
    then show ?thesis using room_keeps(1) [OF err(1) assms(2)] by simp
  next
    case (go v e1)
    note rk = room_keeps [OF go(1) assms(2)]
    obtain r2 e2 where c: "call e1 = (r2, e2)" by fastforce
    note ck = call_keeps [OF c]
    show ?thesis
    proof (cases r2)
      case (Inl y)
      then show ?thesis using go(2) c ck rk by simp
    next
      case (Inr w)
      obtain now e3 where i: "instant e2 = (now, e3)" by fastforce
      note ik = instant_keeps [OF i]
      let ?h = "\<lparr>hd_name = name, hd_bytes = co_enc_bytes (disk dir), hd_keep = ld_keep ld, hd_pin = ld_pin ld,
          hd_until = instant_add now (ld_keep ld)\<rparr>"
      have e': "e' = e3\<lparr>en_encoders := en_encoders e3 @ [?h]\<rparr>" using go(2) c Inr i by simp
      have e3: "en_models e3 = en_models e1" "en_encoders e3 = en_encoders e1" "en_vram e3 = en_vram e1" "en_host e3 = en_host e1"
        using ck ik by simp_all
      have small: "co_enc_bytes (disk dir) \<le> need" using assms(3) \<open>co_enc_footprint (disk dir) = Inr need\<close> by (simp add: disk_ok_def)
      have "used e' = used e1 + co_enc_bytes (disk dir)" using e' e3 by (simp add: used_sum)
      moreover have "hosted e' = hosted e1" using e' e3 by (simp add: hosted_def)
      moreover have "names e' = names e @ [name]" using e' e3 rk(2) by (simp add: names_def)
      moreover have "used e1 + need \<le> en_vram e1" using rk(6) by simp
      ultimately show ?thesis using rk(1,2) e' e3 small assms(2,4) by (auto simp: eng_ok_def)
    qed
  qed
qed

lemma push_ok:
  assumes "eng_ok e" "md_name m \<notin> set (names e)" "md_at m = Disk" "md_vision m = None" "md_audio m = None"
  shows "eng_ok (e\<lparr>en_models := en_models e @ [m]\<rparr>)"
  using assms
  by (auto simp: eng_ok_def used_sum hosted_def names_def vram_of_def towers_def in_vram_def held_bytes_def model_ok_def)

lemma pop_ok:
  assumes "eng_ok e" "en_models e \<noteq> []"
  shows "eng_ok (e\<lparr>en_models := butlast (en_models e)\<rparr>)"
proof -
  have eq: "en_models e = butlast (en_models e) @ [last (en_models e)]" using assms(2) by simp
  have "sum_list (map f (butlast (en_models e))) \<le> sum_list (map f (en_models e))" for f :: "model \<Rightarrow> nat"
    by (subst (2) eq) simp
  then have "used (e\<lparr>en_models := butlast (en_models e)\<rparr>) \<le> used e" "hosted (e\<lparr>en_models := butlast (en_models e)\<rparr>) \<le> hosted e"
    by (simp_all add: used_sum hosted_def)
  moreover have "list_all model_ok (butlast (en_models e))"
    using assms(1) by (auto simp: eng_ok_def list_all_iff dest: in_set_butlastD)
  moreover have "distinct (map md_name (butlast (en_models e)) @ map hd_name (en_encoders e))"
  proof -
    have "distinct (map md_name (butlast (en_models e) @ [last (en_models e)]) @ map hd_name (en_encoders e))"
      using assms(1) eq by (simp add: eng_ok_def names_def)
    then show ?thesis by auto
  qed
  ultimately show ?thesis using assms(1) by (auto simp: eng_ok_def names_def)
qed

lemma touch_keeps:
  assumes "touch keep m e = (m', e')"
  shows "en_models e' = en_models e" "en_encoders e' = en_encoders e" "eng_ok e' = eng_ok e" "names e' = names e"
    "md_name m' = md_name m" "md_at m' = md_at m" "md_vision m' = md_vision m" "md_audio m' = md_audio m"
    "md_need m' = md_need m" "en_vram e' = en_vram e" "en_host e' = en_host e"
  using assms instant_keeps [of e] by (auto simp: touch_def split: prod.splits)

lemma eng_load_ok:
  assumes "eng_load disk name dir ld e = (r, e')" "eng_ok e" "disk_ok disk"
  shows "eng_ok e'"
proof -
  obtain b e0 where u: "unload name e = (b, e0)" by fastforce
  note un = unload_ok(1,2) [OF u assms(2)]
  obtain r1 e1 where x: "expire e0 = (r1, e1)" by fastforce
  note ex = expire_ok [OF x un(1)]
  have fresh: "name \<notin> set (names e1)" using ex(2) un(2) by auto
  show ?thesis
  proof (cases r1)
    case (Inl y)
    then show ?thesis using assms(1) u x ex by (simp add: eng_load_def)
  next
    case (Inr v)
    show ?thesis
    proof (cases "co_encoder (disk dir)")
      case (Inl y)
      then show ?thesis using assms(1) u x \<open>r1 = Inr v\<close> ex by (simp add: eng_load_def)
    next
      case enc: (Inr encoder)
      show ?thesis
      proof (cases encoder)
        case True
        then have "load_encoder disk name dir ld e1 = (r, e')"
          using assms(1) u x \<open>r1 = Inr v\<close> enc by (simp add: eng_load_def)
        then show ?thesis using load_encoder_ok ex(1) assms(3) fresh by blast
      next
        case False
        show ?thesis
        proof (cases "is_ok (co_tokenizer (disk dir)) \<and> is_ok (co_chat (disk dir)) \<and> is_ok (co_footprint (disk dir) (ld_settings ld))")
          case True
          then obtain tok chat need where files: "co_tokenizer (disk dir) = Inr tok" "co_chat (disk dir) = Inr chat"
            "co_footprint (disk dir) (ld_settings ld) = Inr need" by (auto simp: is_ok_iff)
          obtain now e2 where i: "instant e1 = (now, e2)" by fastforce
          let ?m = "\<lparr>md_name = name, md_dir = dir, md_load = ld, md_tok = tok, md_chat = chat,
                 md_ends = (cm_end chat, case special tok (lit ''<eos>'') of None \<Rightarrow> cm_end chat | Some t \<Rightarrow> t),
                 md_need = need, md_used = now, md_until = None, md_at = Disk, md_vision = None, md_audio = None\<rparr>"
          obtain m e3 where t: "touch (ld_keep ld) ?m e2 = (m, e3)" by fastforce
          note tk = touch_keeps [OF t] and ik = instant_keeps [OF i]
          let ?e4 = "e3\<lparr>en_models := en_models e3 @ [m]\<rparr>"
          have "eng_ok ?e4" using ex(1) fresh tk ik by (intro push_ok) simp_all
          obtain r5 e5 where res: "resident disk (length (en_models e3)) ?e4 = (r5, e5)" by fastforce
          note rs = resident_ok [OF res \<open>eng_ok ?e4\<close>]
          have "e' = (if is_ok r5 then e5 else e5\<lparr>en_models := butlast (en_models e5)\<rparr>)"
            using assms(1) u x \<open>r1 = Inr v\<close> enc False files i t res
            by (auto simp: eng_load_def Let_def split: if_splits)
          moreover have "en_models e5 \<noteq> []" using rs(3) by (cases "en_models e5") auto
          ultimately show ?thesis using rs(1) pop_ok [of e5] by simp
        next
          case False
          then have "e' = e1"
            using assms(1) u x \<open>r1 = Inr v\<close> enc \<open>\<not> encoder\<close>
            by (auto simp: eng_load_def is_ok_iff split: sum.splits)
          then show ?thesis using ex by simp
        qed
      qed
    qed
  qed
qed

lemma eng_encoder_ok:
  assumes "eng_encoder name e = (r, e')" "eng_ok e"
  shows "eng_ok e'"
proof (cases "index_of (\<lambda>h. hd_name h = name) (en_encoders e)")
  case None
  then show ?thesis using assms by (simp add: eng_encoder_def)
next
  case (Some k)
  obtain now e1 where i: "instant e = (now, e1)" by fastforce
  note ik = instant_keeps [OF i]
  let ?h = "(en_encoders e ! k)\<lparr>hd_until := instant_add now (hd_keep (en_encoders e ! k))\<rparr>"
  have k: "k < length (en_encoders e)"
    using Some unfolding index_of_def by (auto simp: find_Some_iff)
  have "e' = e1\<lparr>en_encoders := (en_encoders e)[k := ?h]\<rparr>" using assms(1) Some i ik by (auto simp: eng_encoder_def Let_def)
  moreover have "map hd_name ((en_encoders e)[k := ?h]) = map hd_name (en_encoders e)"
    "map hd_bytes ((en_encoders e)[k := ?h]) = map hd_bytes (en_encoders e)"
    using k by (simp_all add: map_update list_update_same_conv)
  ultimately show ?thesis using assms(2) ik by (simp add: eng_ok_def used_sum hosted_def names_def)
qed

lemma eng_infer_ok:
  assumes "eng_infer name answer e = (r, e')" "eng_ok e"
  shows "eng_ok e'"
  using assms unfolding eng_infer_def
  by (elim ebind_cases) (auto dest: expire_ok(1) eng_encoder_ok)

text \<open>A tower comes in under the limit, and the model it belongs to stays in VRAM.\<close>

definition in_place :: "nat \<Rightarrow> engine \<Rightarrow> engine \<Rightarrow> bool" where
  "in_place i e e' \<longleftrightarrow> eng_ok e' \<and> i < length (en_models e') \<and> in_vram (en_models e' ! i) \<and>
     length (en_models e') = length (en_models e) \<and> names e' = names e"

lemma tower_ok:
  assumes "ebind (call e) (\<lambda>_ e. ebind (room n (Some i) e) (\<lambda>_ e. (Inr (), set_model i (f (en_models e ! i)) e))) = (r, e')"
    and "eng_ok e" "i < length (en_models e)" "in_vram (en_models e ! i)"
    and "\<And>m. vram_of (f m) \<le> vram_of m + n" "\<And>m. md_at (f m) = md_at m" "\<And>m. md_name (f m) = md_name m"
  shows "in_place i e e'"
  using assms(1)
proof (cases rule: ebind_cases)
  case (err y)
  then show ?thesis using call_keeps [OF err(1)] assms(2-4) by (simp add: in_place_def)
next
  case (go v e1)
  note ck = call_keeps [OF go(1)]
  from go(2) show ?thesis
  proof (cases rule: ebind_cases)
    case (err y)
    note rk = room_keeps [OF err(1)]
    have "loosened (en_models e1 ! i) (en_models e' ! i)" using rk(7) ck assms(2,3) by simp
    then show ?thesis using rk(1-3) ck assms(2-4) loosened_keeps(1) by (simp add: in_place_def)
  next
    case (go w e2)
    have ok1: "eng_ok e1" using ck assms(2) by simp
    note rk = room_keeps [OF go(1) ok1]
    have l: "loosened (en_models e1 ! i) (en_models e2 ! i)" using rk(7) ck assms(3) by simp
    have iv: "in_vram (en_models e2 ! i)" using loosened_keeps(1) [OF l] ck assms(4) by simp
    have i2: "i < length (en_models e2)" using rk ck assms(3) by simp
    let ?m = "f (en_models e2 ! i)"
    have e': "e' = set_model i ?m e2" using go(2) by simp
    have "model_ok (en_models e2 ! i)" using rk(1) i2 by (simp add: eng_ok_def list_all_length)
    then have "model_ok ?m" using iv assms(6) by (auto simp: model_ok_def in_vram_def)
    moreover have "used e2 + n \<le> en_vram e2" using rk(6) by simp
    ultimately have "eng_ok e'"
      unfolding e' using assms(5) [of "en_models e2 ! i"] assms(6,7)
      by (intro set_model_ok [OF rk(1) i2]) (auto simp: held_bytes_def)
    then show ?thesis
      using e' i2 iv rk ck assms(6,7) loosened_keeps(2) [OF l]
      by (simp add: in_place_def set_model_def names_def in_vram_def map_update list_update_same_conv)
  qed
qed

lemma eng_vision_ok:
  assumes "eng_vision disk i e = (r, e')" "eng_ok e" "i < length (en_models e)" "in_vram (en_models e ! i)"
  shows "in_place i e e'"
proof (cases "md_vision (en_models e ! i) = None \<and> co_vision (disk (md_dir (en_models e ! i))) \<noteq> None \<and>
    cm_image (md_chat (en_models e ! i)) \<noteq> None")
  case True
  then obtain n where n: "co_vision (disk (md_dir (en_models e ! i))) = Some n" by auto
  have "ebind (call e) (\<lambda>_ e. ebind (room n (Some i) e) (\<lambda>_ e. (Inr (), set_model i ((en_models e ! i)\<lparr>md_vision := Some n\<rparr>) e))) = (r, e')"
    using assms(1) True n by (simp add: eng_vision_def Let_def)
  then show ?thesis
    by (rule tower_ok [where f = "\<lambda>m. m\<lparr>md_vision := Some n\<rparr>"])
      (use assms in \<open>simp_all add: vram_of_def towers_def in_vram_def\<close>)
next
  case False
  then have "e' = e" using assms(1) by (auto simp: eng_vision_def Let_def split: option.splits if_splits)
  then show ?thesis using assms by (simp add: in_place_def)
qed

lemma eng_hearing_ok:
  assumes "eng_hearing disk i e = (r, e')" "eng_ok e" "i < length (en_models e)" "in_vram (en_models e ! i)"
  shows "in_place i e e'"
proof (cases "md_audio (en_models e ! i) = None \<and> co_audio (disk (md_dir (en_models e ! i))) \<noteq> None \<and>
    cm_audio (md_chat (en_models e ! i)) \<noteq> None")
  case True
  then obtain n where n: "co_audio (disk (md_dir (en_models e ! i))) = Some n" by auto
  have "ebind (call e) (\<lambda>_ e. ebind (room n (Some i) e) (\<lambda>_ e. (Inr (), set_model i ((en_models e ! i)\<lparr>md_audio := Some n\<rparr>) e))) = (r, e')"
    using assms(1) True n by (simp add: eng_hearing_def Let_def)
  then show ?thesis
    by (rule tower_ok [where f = "\<lambda>m. m\<lparr>md_audio := Some n\<rparr>"])
      (use assms in \<open>simp_all add: vram_of_def towers_def in_vram_def\<close>)
next
  case False
  then have "e' = e" using assms(1) by (auto simp: eng_hearing_def Let_def split: option.splits if_splits)
  then show ?thesis using assms by (simp add: in_place_def)
qed

lemma tower_run_ok:
  assumes "tower_run tower soft_of xs e = (r, e')" "eng_ok e" "i < length (en_models e)" "in_vram (en_models e ! i)"
    and "\<And>r e e'. tower e = (r, e') \<Longrightarrow> eng_ok e \<Longrightarrow> i < length (en_models e) \<Longrightarrow> in_vram (en_models e ! i) \<Longrightarrow> in_place i e e'"
  shows "in_place i e e'"
  using assms(1-4)
proof (induction xs arbitrary: e r e')
  case Nil
  then show ?case by (simp add: in_place_def)
next
  case (Cons x xs)
  from Cons.prems(1) have "ebind (tower e) (\<lambda>_ e. ebind (soft_of x, e) (\<lambda>t e.
     ebind (tower_run tower soft_of xs e) (\<lambda>ts e. (Inr (t # ts), e)))) = (r, e')" by simp
  then show ?case
  proof (cases rule: ebind_cases)
    case (err y)
    then show ?thesis using assms(5) Cons.prems by blast
  next
    case (go v e1)
    have p1: "in_place i e e1" using assms(5) [OF go(1)] Cons.prems by simp
    from go(2) show ?thesis
    proof (cases rule: ebind_cases)
      case (err y)
      then show ?thesis using p1 by simp
    next
      case (go t e2)
      from go(2) show ?thesis
      proof (cases rule: ebind_cases)
        case (err y)
        then show ?thesis using Cons.IH [OF err(1)] p1 go(1) by (simp add: in_place_def)
      next
        case (go ts e3)
        then show ?thesis using Cons.IH [OF go(1)] p1 \<open>(soft_of x, e1) = (Inr t, e2)\<close> by (simp add: in_place_def)
      qed
    qed
  qed
qed

lemma eng_media_ok:
  assumes "eng_media disk see hear i ms e = (r, e')" "eng_ok e" "i < length (en_models e)" "in_vram (en_models e ! i)"
  shows "in_place i e e'"
  using assms
proof (induction ms arbitrary: e r e')
  case Nil
  then show ?case by (simp add: in_place_def)
next
  case (Cons m ms)
  from Cons.prems(1) show ?case
    unfolding eng_media.simps
  proof (cases rule: ebind_cases)
    case (err y)
    then show ?thesis using tower_run_ok [OF err(1)] Cons.prems eng_vision_ok by blast
  next
    case (go seen e1)
    have p1: "in_place i e e1" using tower_run_ok [OF go(1)] Cons.prems eng_vision_ok by blast
    from go(2) show ?thesis
    proof (cases rule: ebind_cases)
      case (err y)
      have "in_place i e1 e'" using tower_run_ok [OF err(1)] p1 eng_hearing_ok unfolding in_place_def by blast
      then show ?thesis using p1 by (simp add: in_place_def)
    next
      case (go heard e2)
      have p2: "in_place i e1 e2" using tower_run_ok [OF go(1)] p1 eng_hearing_ok unfolding in_place_def by blast
      from go(2) show ?thesis
      proof (cases rule: ebind_cases)
        case (err y)
        then show ?thesis using Cons.IH [OF err(1)] p1 p2 by (simp add: in_place_def)
      next
        case (go rest e3)
        then show ?thesis using Cons.IH [OF go(1)] p1 p2 by (simp add: in_place_def)
      qed
    qed
  qed
qed

lemma eng_feed_keeps:
  assumes "eng_feed e = (r, e')"
  shows "en_models e' = en_models e" "eng_ok e' = eng_ok e" "names e' = names e"
  using assms unfolding eng_feed_def
  by (auto elim!: ebind_cases simp: call_def sample_def names_def)

lemma names_nth:
  assumes "names e' = names e" "length (en_models e') = length (en_models e)" "j < length (en_models e)"
  shows "md_name (en_models e' ! j) = md_name (en_models e ! j)"
proof -
  have "map md_name (en_models e') = map md_name (en_models e)" using assms(1,2) by (simp add: names_def)
  then show ?thesis using assms(2,3) by (metis nth_map)
qed

lemma index_of_Some: "index_of P xs = Some i \<Longrightarrow> i < length xs \<and> P (xs ! i)"
  unfolding index_of_def by (auto simp: find_Some_iff)

text \<open>A chat that starts leaves its model in VRAM, within the limits, and its stream points at it.\<close>

lemma eng_chat_ok:
  assumes "eng_chat disk see hear template name req e = (r, e')" "eng_ok e"
  shows "eng_ok e' \<and> (\<forall>s. r = Inr s \<longrightarrow>
    ts_model s < length (en_models e') \<and> md_name (en_models e' ! ts_model s) = name \<and>
    in_vram (en_models e' ! ts_model s) \<and> ts_left s \<le> rq_max_tokens req)"
  using assms(1) unfolding eng_chat_def
proof (cases rule: ebind_cases)
  case (err y)
  then show ?thesis using expire_ok(1) [OF err(1) assms(2)] by simp
next
  case (go v e1)
  note ok1 = expire_ok(1) [OF go(1) assms(2)]
  show ?thesis
  proof (cases "index_of (\<lambda>m. md_name m = name) (en_models e1)")
    case None
    then show ?thesis using go(2) ok1 by auto
  next
    case (Some i)
    note ix = index_of_Some [OF Some]
    let ?rest = "\<lambda>soft e. let m = en_models e ! i; prompt = template m (rq_messages req) (rq_think req) in
         ebind (eng_encode disk m prompt soft, e) (\<lambda>_ e. ebind (eng_feed e) (\<lambda>first e.
           (Inr \<lparr>ts_model = i, ts_keep = (case rq_keep req of None \<Rightarrow> ld_keep (md_load m) | Some k \<Rightarrow> k),
                 ts_pending = [], ts_next = Some first,
                 ts_left = min (rq_max_tokens req) (st_context (ld_settings (md_load m)) - length prompt),
                 ts_tokens = 0, ts_prompt = length prompt\<rparr>, e)))"
    have "ebind (resident disk i e1) (\<lambda>_ e. ebind (eng_media disk see hear i (shown (rq_messages req)) e) ?rest) = (r, e')"
      using go(2) Some by simp
    then show ?thesis
    proof (cases rule: ebind_cases)
      case (err y)
      then show ?thesis using resident_ok(1) [OF err(1) ok1] ix by simp
    next
      case (go u e2)
      have v2: "in_vram (en_models e2 ! i)" "eng_ok e2" "names e2 = names e1" "length (en_models e2) = length (en_models e1)"
        using resident_ok [OF go(1) ok1] ix by simp_all
      from go(2) show ?thesis
      proof (cases rule: ebind_cases)
        case (err y)
        then show ?thesis using eng_media_ok [OF err(1)] v2 ix by (simp add: in_place_def)
      next
        case (go soft e3)
        have p3: "in_place i e2 e3" using eng_media_ok [OF go(1)] v2 ix by simp
        have name3: "md_name (en_models e3 ! i) = name"
          using names_nth [of e3 e1 i] p3 v2 ix by (simp add: in_place_def)
        from go(2) show ?thesis
          unfolding Let_def
        proof (cases rule: ebind_cases)
          case (err y)
          then show ?thesis using p3 by (auto simp: in_place_def)
        next
          case (go w e4)
          from go(2) show ?thesis
          proof (cases rule: ebind_cases)
            case (err y)
            then show ?thesis using eng_feed_keeps [OF err(1)] go(1) p3 by (simp add: in_place_def)
          next
            case (go first e5)
            then show ?thesis
              using eng_feed_keeps [OF go(1)] \<open>(_, e3) = (Inr w, e4)\<close> p3 name3 by (auto simp: in_place_def)
          qed
        qed
      qed
    qed
  qed
qed

section \<open>An answer as it streams\<close>

lemma next_loop_keeps:
  assumes "next_loop s out e = (r, s', e')"
  shows "en_models e' = en_models e \<and> eng_ok e' = eng_ok e \<and> names e' = names e \<and>
    ts_model s' = ts_model s \<and> ts_keep s' = ts_keep s \<and> ts_prompt s' = ts_prompt s"
  using assms
proof (induction s out e arbitrary: r s' e' rule: next_loop.induct)
  case (1 s out e)
  show ?case
  proof (cases "out \<noteq> [] \<or> ts_left s = 0")
    case True
    then show ?thesis using "1.prems" by (subst (asm) next_loop.simps) auto
  next
    case False
    obtain r1 e1 where tk: "take_token s e = (r1, e1)" by fastforce
    have e1: "en_models e1 = en_models e" "eng_ok e1 = eng_ok e" "names e1 = names e"
      using tk by (auto simp: take_token_def sample_def names_def split: option.splits)
    show ?thesis
    proof (cases r1)
      case (Inl x)
      then show ?thesis using "1.prems" False tk e1 by (subst (asm) next_loop.simps) auto
    next
      case (Inr t)
      let ?m = "en_models e1 ! ts_model s"
      show ?thesis
      proof (cases "t = fst (md_ends ?m) \<or> t = snd (md_ends ?m)")
        case True
        then show ?thesis using "1.prems" False tk Inr e1 by (subst (asm) next_loop.simps) (auto simp: Let_def)
      next
        case go: False
        obtain more pending where push: "detok_push (md_tok ?m) t (ts_pending s) = (more, pending)" by fastforce
        have "next_loop (s\<lparr>ts_next := None, ts_left := ts_left s - 1, ts_tokens := ts_tokens s + 1,
            ts_pending := pending\<rparr>) (out @ more) e1 = (r, s', e')"
          using "1.prems" False tk Inr go push by (subst (asm) next_loop.simps) (simp add: Let_def)
        then show ?thesis using "1.IH" [OF False tk [symmetric] Inr refl go push [symmetric]] e1 by auto
      qed
    qed
  qed
qed

lemma next_text_keeps:
  assumes "next_text s e = (r, s', e')"
  shows "en_models e' = en_models e" "eng_ok e' = eng_ok e" "names e' = names e" "ts_model s' = ts_model s"
    "ts_keep s' = ts_keep s"
proof -
  obtain r1 s1 e1 where l: "next_loop s [] e = (r1, s1, e1)" by (metis surj_pair)
  have "e' = e1" "ts_model s' = ts_model s1" "ts_keep s' = ts_keep s1"
    using assms l by (auto simp: next_text_def split: sum.splits if_splits prod.splits)
  then show "en_models e' = en_models e" "eng_ok e' = eng_ok e" "names e' = names e" "ts_model s' = ts_model s"
    "ts_keep s' = ts_keep s" using next_loop_keeps [OF l] by simp_all
qed

text \<open>The tokens still to come, and those of them that are part of the answer.\<close>

definition coming :: "stream \<Rightarrow> engine \<Rightarrow> (error + u32) list" where
  "coming s e = (case ts_next s of None \<Rightarrow> [] | Some t \<Rightarrow> [Inr t]) @ en_samples e"

definition ends_at :: "model \<Rightarrow> u32 \<Rightarrow> bool" where
  "ends_at m t \<longleftrightarrow> t = fst (md_ends m) \<or> t = snd (md_ends m)"

definition answer :: "model \<Rightarrow> nat \<Rightarrow> u32 list \<Rightarrow> u32 list" where
  "answer m left ts = takeWhile (\<lambda>t. \<not> ends_at m t) (take left ts)"

definition enough :: "model \<Rightarrow> nat \<Rightarrow> u32 list \<Rightarrow> bool" where
  "enough m left ts \<longleftrightarrow> left \<le> length ts \<or> (\<exists>t \<in> set ts. ends_at m t)"

lemma detok_all_append:
  "detok_all t (us @ vs) p =
     (let (out, p) = detok_all t us p; (out', p) = detok_all t vs p in (out @ out', p))"
  by (induction us arbitrary: p) (simp_all split: prod.splits)

lemma next_loop_answer:
  assumes "coming s e = map Inr ts" "enough (en_models e ! ts_model s) (ts_left s) ts"
  shows "\<exists>us ts' s' e'. next_loop s out e = (Inr (out @ fst (detok_all (md_tok (en_models e ! ts_model s)) us (ts_pending s))), s', e') \<and>
     answer (en_models e ! ts_model s) (ts_left s) ts = us @ answer (en_models e ! ts_model s) (ts_left s') ts' \<and>
     ts_pending s' = snd (detok_all (md_tok (en_models e ! ts_model s)) us (ts_pending s)) \<and>
     coming s' e' = map Inr ts' \<and> enough (en_models e ! ts_model s) (ts_left s') ts' \<and>
     ts_tokens s' = ts_tokens s + length us \<and> ts_left s' + length us \<le> ts_left s \<and>
     (ts_left s' = 0 \<or> out @ fst (detok_all (md_tok (en_models e ! ts_model s)) us (ts_pending s)) \<noteq> [])"
  using assms
proof (induction s out e arbitrary: ts rule: next_loop.induct)
  case (1 s out e)
  let ?m = "en_models e ! ts_model s"
  show ?case
  proof (cases "out \<noteq> [] \<or> ts_left s = 0")
    case True
    then have "next_loop s out e = (Inr out, s, e)" by (subst next_loop.simps) auto
    then show ?thesis using "1.prems" True by (intro exI [of _ "[]"] exI [of _ ts] exI [of _ s] exI [of _ e]) auto
  next
    case False
    then obtain t ts1 where ts: "ts = t # ts1"
      using "1.prems" by (cases ts) (auto simp: enough_def coming_def split: option.splits)
    obtain e1 where tk: "take_token s e = (Inr t, e1)" and next1: "en_samples e1 = map Inr ts1" and m1: "en_models e1 = en_models e"
      using "1.prems"(1) ts by (auto simp: take_token_def coming_def sample_def split: option.splits)
    show ?thesis
    proof (cases "ends_at ?m t")
      case True
      then have "next_loop s out e = (Inr out, s\<lparr>ts_next := None, ts_left := 0\<rparr>, e1)"
        using False tk m1 by (subst next_loop.simps) (simp add: Let_def ends_at_def)
      then show ?thesis
        using True ts False next1
        by (intro exI [of _ "[]"] exI [of _ ts1] exI [of _ "s\<lparr>ts_next := None, ts_left := 0\<rparr>"] exI [of _ e1])
          (auto simp: answer_def coming_def enough_def take_Cons')
    next
      case go: False
      obtain more pending where push: "detok_push (md_tok ?m) t (ts_pending s) = (more, pending)" by fastforce
      let ?s = "s\<lparr>ts_next := None, ts_left := ts_left s - 1, ts_tokens := ts_tokens s + 1, ts_pending := pending\<rparr>"
      have step: "next_loop s out e = next_loop ?s (out @ more) e1"
        using False tk go push m1 by (subst next_loop.simps) (simp add: Let_def ends_at_def)
      have go1: "\<not> (t = fst (md_ends (en_models e1 ! ts_model s)) \<or> t = snd (md_ends (en_models e1 ! ts_model s)))"
        using go m1 by (simp add: ends_at_def)
      have push1: "detok_push (md_tok (en_models e1 ! ts_model s)) t (ts_pending s) = (more, pending)" using push m1 by simp
      have c1: "coming ?s e1 = map Inr ts1" using next1 by (simp add: coming_def)
      have en1: "enough (en_models e1 ! ts_model ?s) (ts_left ?s) ts1"
        using "1.prems"(2) ts go False m1 by (auto simp: enough_def)
      obtain us ts' s' e' where ih: "next_loop ?s (out @ more) e1 =
            (Inr ((out @ more) @ fst (detok_all (md_tok (en_models e1 ! ts_model ?s)) us (ts_pending ?s))), s', e')"
          "answer (en_models e1 ! ts_model ?s) (ts_left ?s) ts1 = us @ answer (en_models e1 ! ts_model ?s) (ts_left s') ts'"
          "ts_pending s' = snd (detok_all (md_tok (en_models e1 ! ts_model ?s)) us (ts_pending ?s))"
          "coming s' e' = map Inr ts'" "enough (en_models e1 ! ts_model ?s) (ts_left s') ts'"
          "ts_tokens s' = ts_tokens ?s + length us" "ts_left s' + length us \<le> ts_left ?s"
          "ts_left s' = 0 \<or> (out @ more) @ fst (detok_all (md_tok (en_models e1 ! ts_model ?s)) us (ts_pending ?s)) \<noteq> []"
        using "1.IH" [OF False tk [symmetric] refl [of "Inr t"] refl go1 push1 [symmetric] refl, OF c1 en1] by blast
      have "answer ?m (ts_left s) ts = t # answer ?m (ts_left s - 1) ts1"
        using False go ts by (cases "ts_left s") (auto simp: answer_def)
      moreover have "detok_all (md_tok ?m) (t # us) (ts_pending s) =
          (more @ fst (detok_all (md_tok ?m) us pending), snd (detok_all (md_tok ?m) us pending))"
        using push by (simp split: prod.splits)
      ultimately show ?thesis
        using ih m1 step False
        by (intro exI [of _ "t # us"] exI [of _ ts'] exI [of _ s'] exI [of _ e']) (auto simp: m1)
    qed
  qed
qed

text \<open>The whole answer: the pieces handed out until there are no more. The fuel bounds the number of pieces.\<close>

fun stream_all :: "nat \<Rightarrow> stream \<Rightarrow> engine \<Rightarrow> ((error + str) \<times> stream \<times> engine) option" where
  "stream_all 0 s e = None"
| "stream_all (Suc n) s e =
     (case next_text s e of
        (Inl x, s, e) \<Rightarrow> Some (Inl x, s, e)
      | (Inr None, s, e) \<Rightarrow> Some (Inr [], s, e)
      | (Inr (Some out), s, e) \<Rightarrow> map_option (apfst (rmap (\<lambda>rest. out @ rest))) (stream_all n s e))"

lemma stream_all_answer:
  assumes "coming s e = map Inr ts" "enough (en_models e ! ts_model s) (ts_left s) ts" "ts_left s + 2 \<le> n"
  shows "\<exists>s' e'. stream_all n s e =
       Some (Inr (let (out, kept) = detok_all (md_tok (en_models e ! ts_model s)) (answer (en_models e ! ts_model s) (ts_left s) ts) (ts_pending s)
                  in out @ fst (detok_finish kept)), s', e') \<and>
     ts_tokens s' = ts_tokens s + length (answer (en_models e ! ts_model s) (ts_left s) ts) \<and> ts_left s' = 0"
  using assms
proof (induction n arbitrary: s e ts)
  case 0
  then show ?case by simp
next
  case (Suc n)
  let ?m = "en_models e ! ts_model s"
  obtain us ts' s1 e1 where l: "next_loop s [] e = (Inr (fst (detok_all (md_tok ?m) us (ts_pending s))), s1, e1)"
      "answer ?m (ts_left s) ts = us @ answer ?m (ts_left s1) ts'"
      "ts_pending s1 = snd (detok_all (md_tok ?m) us (ts_pending s))"
      "coming s1 e1 = map Inr ts'" "enough ?m (ts_left s1) ts'" "ts_tokens s1 = ts_tokens s + length us"
      "ts_left s1 + length us \<le> ts_left s"
      "ts_left s1 = 0 \<or> fst (detok_all (md_tok ?m) us (ts_pending s)) \<noteq> []"
    using next_loop_answer [OF Suc.prems(1,2), of "[]"] by auto
  have same: "en_models e1 ! ts_model s1 = ?m" using next_loop_keeps [OF l(1)] by simp
  obtain out kept where us: "detok_all (md_tok ?m) us (ts_pending s) = (out, kept)" by fastforce
  show ?case
  proof (cases "ts_left s1 = 0")
    case False
    then have out: "out \<noteq> []" using l(8) us by simp
    then have "us \<noteq> []" using us by auto
    then have "ts_left s1 + 2 \<le> n" using l(7) Suc.prems(3) by (cases us) auto
    then obtain s' e' where rec: "stream_all n s1 e1 =
         Some (Inr (let (out, kept) = detok_all (md_tok ?m) (answer ?m (ts_left s1) ts') (ts_pending s1)
                  in out @ fst (detok_finish kept)), s', e')"
       "ts_tokens s' = ts_tokens s1 + length (answer ?m (ts_left s1) ts')" "ts_left s' = 0"
      using Suc.IH [of s1 e1 ts'] l(4,5) same by auto
    have "next_text s e = (Inr (Some out), s1, e1)" using l(1) us out False by (simp add: next_text_def)
    then show ?thesis
      using rec l(2,3,6) us by (auto simp: detok_all_append split: prod.splits)
  next
    case True
    obtain more left where fin: "detok_finish kept = (more, left)" by fastforce
    have left: "left = []" using flush_end_empties [of kept] fin by (simp add: detok_finish_def)
    let ?s = "s1\<lparr>ts_pending := left\<rparr>"
    have nt: "next_text s e = (Inr (if out @ more = [] then None else Some (out @ more)), ?s, e1)"
      using l(1,3) us True fin by (simp add: next_text_def)
    have ans: "answer ?m (ts_left s) ts = us" using l(2) True by (simp add: answer_def)
    have again: "next_text ?s e1 = (Inr None, ?s, e1)"
      using True left by (simp add: next_text_def next_loop.simps detok_finish_def flush.simps)
    obtain k where n: "n = Suc k" using Suc.prems(3) by (cases n) auto
    show ?thesis
      using nt again n ans us fin l(6) True by auto
  qed
qed

section \<open>The engine as a state machine\<close>

text \<open>
  A step is one call of the engine's interface, from a state the caller may be in, with whatever the driver, the clock
  and the sampler do. A chat borrows the engine until its stream is dropped: any number of pieces is read in between.
\<close>

inductive streamed :: "stream \<Rightarrow> engine \<Rightarrow> stream \<Rightarrow> engine \<Rightarrow> bool" where
  here: "streamed s e s e"
| more: "streamed s e s1 e1 \<Longrightarrow> next_text s1 e1 = (r, s2, e2) \<Longrightarrow> streamed s e s2 e2"

inductive eng_step :: "disk \<Rightarrow> engine \<Rightarrow> engine \<Rightarrow> bool" for disk where
  step_load: "eng_load disk name dir ld e = (r, e') \<Longrightarrow> eng_step disk e e'"
| step_unload: "unload name e = (b, e') \<Longrightarrow> eng_step disk e e'"
| step_expire: "expire e = (r, e') \<Longrightarrow> eng_step disk e e'"
| step_infer: "eng_infer name (out :: error + u32 list) e = (r', e') \<Longrightarrow> eng_step disk e e'"
| step_refused: "eng_chat disk see hear template name (req :: (u32 list, u32 list) chat_request) e = (Inl x, e') \<Longrightarrow> eng_step disk e e'"
| step_chat: "eng_chat disk see hear template name (req :: (u32 list, u32 list) chat_request) e = (Inr s, e1) \<Longrightarrow>
    streamed s e1 s2 e2 \<Longrightarrow> eng_step disk e (stream_drop s2 e2)"

definition eng_new :: "nat \<Rightarrow> nat \<Rightarrow> error option list \<Rightarrow> nat list \<Rightarrow> (error + u32) list \<Rightarrow> engine" where
  "eng_new vram host calls ticks samples =
     \<lparr>en_models = [], en_encoders = [], en_vram = vram, en_host = host, en_calls = calls, en_now = 0, en_ticks = ticks,
      en_samples = samples\<rparr>"

inductive eng_reach :: "disk \<Rightarrow> engine \<Rightarrow> engine \<Rightarrow> bool" for disk where
  reach_start: "eng_reach disk e e"
| reach_step: "eng_reach disk e e1 \<Longrightarrow> eng_step disk e1 e2 \<Longrightarrow> eng_reach disk e e2"

inductive_cases eng_step_elim: "eng_step disk e e'"

lemma streamed_keeps:
  "streamed s e s' e' \<Longrightarrow> en_models e' = en_models e \<and> eng_ok e' = eng_ok e \<and> names e' = names e \<and>
     ts_model s' = ts_model s \<and> ts_keep s' = ts_keep s"
  by (induction rule: streamed.induct) (auto dest: next_text_keeps)

lemma stream_drop_ok:
  assumes "eng_ok e" "ts_model s < length (en_models e)"
  shows "eng_ok (stream_drop s e)"
proof -
  obtain r1 e1 where c: "call e = (r1, e1)" by fastforce
  obtain m e2 where t: "touch (ts_keep s) (en_models e1 ! ts_model s) e1 = (m, e2)" by fastforce
  note ck = call_keeps [OF c] and tk = touch_keeps [OF t]
  have i: "ts_model s < length (en_models e2)" using assms(2) ck tk by simp
  have ok: "model_ok (en_models e2 ! ts_model s)" using assms ck tk by (simp add: eng_ok_def list_all_length)
  have "eng_ok (set_model (ts_model s) m e2)"
  proof (rule set_model_ok [OF _ i])
    show "eng_ok e2" using assms(1) ck tk by simp
    then show "used e2 + vram_of m \<le> en_vram e2 + vram_of (en_models e2 ! ts_model s)"
      using tk ck by (simp add: eng_ok_def vram_of_def towers_def in_vram_def)
    show "model_ok m" using ok tk ck by (simp add: model_ok_def in_vram_def)
  qed (use tk ck in \<open>simp_all add: held_bytes_def\<close>)
  then show ?thesis
    using c t expire_ok(1) [of "set_model (ts_model s) m e2"] by (simp add: stream_drop_def Let_def) (metis prod.collapse)
qed

lemma eng_step_ok:
  assumes "eng_step disk e e'" "disk_ok disk" "eng_ok e"
  shows "eng_ok e'"
  using assms(1)
proof (cases rule: eng_step.cases)
  case (step_chat see hear template name req s e1 s2 e2)
  have "eng_ok e1" "ts_model s < length (en_models e1)" using eng_chat_ok [OF step_chat(2) assms(3)] by simp_all
  then show ?thesis using streamed_keeps [OF step_chat(3)] stream_drop_ok [of e2 s2] step_chat(1) by simp
qed (use assms(2,3) in \<open>auto dest: eng_load_ok unload_ok(1) expire_ok(1) eng_infer_ok eng_chat_ok\<close>)

text \<open>The limits themselves never change.\<close>

definition lim :: "engine \<Rightarrow> nat \<times> nat" where
  "lim e = (en_vram e, en_host e)"

lemma lim_updates [simp]:
  "lim (e\<lparr>en_calls := c\<rparr>) = lim e" "lim (e\<lparr>en_now := t\<rparr>) = lim e" "lim (e\<lparr>en_ticks := d\<rparr>) = lim e"
  "lim (e\<lparr>en_samples := q\<rparr>) = lim e" "lim (e\<lparr>en_models := ms\<rparr>) = lim e" "lim (e\<lparr>en_encoders := hs\<rparr>) = lim e"
  "lim (set_model i m e) = lim e"
  by (simp_all add: lim_def set_model_def)

lemma lim_small:
  "call e = (r, e') \<Longrightarrow> lim e' = lim e"
  "sample e = (r1, e') \<Longrightarrow> lim e' = lim e"
  "instant e = (t, e') \<Longrightarrow> lim e' = lim e"
  "touch keep m e = (m', e') \<Longrightarrow> lim e' = lim e"
  "room need kept e = (r, e') \<Longrightarrow> lim e' = lim e"
  "expire e = (r, e') \<Longrightarrow> lim e' = lim e"
  subgoal by (auto simp: call_def)
  subgoal by (auto simp: sample_def)
  subgoal by (auto simp: instant_def Let_def)
  subgoal by (auto simp: touch_def instant_def Let_def)
  subgoal using room_frame by (auto simp: same_env_def lim_def)
  subgoal by (erule expire_effect) (simp add: lim_def)
  done

lemma unload_lim: "unload name e = (b, e') \<Longrightarrow> lim e' = lim e"
  by (auto simp: unload_def Let_def split: prod.splits dest!: lim_small(1))

lemma bring_lim: "bring disk i e = (r, e') \<Longrightarrow> lim e' = lim e"
  by (auto simp: bring_def Let_def split: place.splits elim!: ebind_cases dest!: lim_small(1))

lemma resident_lim: "resident disk i e = (r, e') \<Longrightarrow> lim e' = lim e"
  by (auto simp: resident_def split: if_splits elim!: ebind_cases dest!: bring_lim lim_small(5))

lemma load_encoder_lim: "load_encoder disk name dir ld e = (r, e') \<Longrightarrow> lim e' = lim e"
  by (auto simp: load_encoder_def Let_def split: sum.splits prod.splits elim!: ebind_cases
      dest!: lim_small(1) lim_small(3) lim_small(5))

lemma eng_load_lim: "eng_load disk name dir ld e = (r, e') \<Longrightarrow> lim e' = lim e"
  by (auto simp: eng_load_def Let_def split: sum.splits prod.splits if_splits elim!: ebind_cases
      dest!: lim_small(3,4,6) unload_lim load_encoder_lim resident_lim)

lemma eng_infer_lim: "eng_infer name out e = (r, e') \<Longrightarrow> lim e' = lim e"
  by (auto simp: eng_infer_def eng_encoder_def Let_def split: option.splits prod.splits elim!: ebind_cases
      dest!: lim_small(3,6))

lemma towers_lim:
  "eng_vision disk i e = (r, e') \<Longrightarrow> lim e' = lim e"
  "eng_hearing disk i e = (r, e') \<Longrightarrow> lim e' = lim e"
  by (auto simp: eng_vision_def eng_hearing_def Let_def split: option.splits if_splits elim!: ebind_cases
      dest!: lim_small(1) lim_small(5))

lemma tower_run_lim:
  assumes "\<And>r e e'. tower e = (r, e') \<Longrightarrow> lim e' = lim e"
  shows "tower_run tower soft_of xs e = (r, e') \<Longrightarrow> lim e' = lim e"
  by (induction xs arbitrary: e r) (auto elim!: ebind_cases dest!: assms)

lemma vision_run_lim: "tower_run (eng_vision disk i) soft_of xs e = (r, e') \<Longrightarrow> lim e' = lim e"
  by (rule tower_run_lim [OF towers_lim(1)])

lemma hearing_run_lim: "tower_run (eng_hearing disk i) soft_of xs e = (r, e') \<Longrightarrow> lim e' = lim e"
  by (rule tower_run_lim [OF towers_lim(2)])

lemma eng_media_lim: "eng_media disk see hear i ms e = (r, e') \<Longrightarrow> lim e' = lim e"
  by (induction ms arbitrary: e r)
    (auto elim!: ebind_cases dest!: vision_run_lim hearing_run_lim)

lemma eng_feed_lim: "eng_feed e = (r, e') \<Longrightarrow> lim e' = lim e"
  by (auto simp: eng_feed_def elim!: ebind_cases dest!: lim_small(1) lim_small(2))

lemma eng_chat_lim: "eng_chat disk see hear template name req e = (r, e') \<Longrightarrow> lim e' = lim e"
  by (auto simp: eng_chat_def Let_def split: option.splits elim!: ebind_cases
      dest!: lim_small(6) resident_lim eng_media_lim eng_feed_lim)

lemma next_loop_lim: "next_loop s out e = (r, s', e') \<Longrightarrow> lim e' = lim e"
proof (induction s out e arbitrary: r s' e' rule: next_loop.induct)
  case (1 s out e)
  show ?case
    using "1.prems" "1.IH"
    by (subst (asm) next_loop.simps)
      (auto simp: take_token_def Let_def split: if_splits option.splits sum.splits prod.splits dest!: lim_small(2))
qed

lemma next_text_lim: "next_text s e = (r, s', e') \<Longrightarrow> lim e' = lim e"
  by (auto simp: next_text_def Let_def split: sum.splits prod.splits if_splits dest!: next_loop_lim)

lemma streamed_lim: "streamed s e s' e' \<Longrightarrow> lim e' = lim e"
  by (induction rule: streamed.induct) (auto dest: next_text_lim)

lemma stream_drop_lim: "lim (stream_drop s e) = lim e"
  by (auto simp: stream_drop_def Let_def split: prod.splits dest!: lim_small(1) lim_small(4))
    (metis lim_small(6) lim_updates(7) prod.collapse)

lemma eng_step_lim: "eng_step disk e e' \<Longrightarrow> lim e' = lim e"
  by (erule eng_step_elim)
    (auto simp: stream_drop_lim dest: eng_load_lim unload_lim lim_small(6) eng_infer_lim eng_chat_lim dest!: streamed_lim)

lemma eng_reach_lim: "eng_reach disk e e' \<Longrightarrow> lim e' = lim e"
  by (induction rule: eng_reach.induct) (auto dest: eng_step_lim)

lemma eng_reach_ok: "eng_reach disk e e' \<Longrightarrow> disk_ok disk \<Longrightarrow> eng_ok e \<Longrightarrow> eng_ok e'"
  by (induction rule: eng_reach.induct) (auto intro: eng_step_ok)

section \<open>Properties\<close>

text \<open>
  C2. The memory limits hold. From a new engine, after any sequence of loads, unloads, expiries, decisions, embeddings
  and chats (finished, failed or cancelled), with every driver call free to fail, the VRAM the models, towers and
  encoders take is within the VRAM limit, the pinned memory of parked models and kept copies is within the host limit,
  and no two of them have the same name.
\<close>

theorem engine_limits:
  assumes "eng_reach disk (eng_new vram host calls ticks samples) e" "disk_ok disk"
  shows "used e \<le> vram \<and> hosted e \<le> host \<and> distinct (names e)"
proof -
  have "eng_ok (eng_new vram host calls ticks samples)"
    by (simp add: eng_new_def eng_ok_def used_def hosted_def names_def)
  then have "eng_ok e" using eng_reach_ok [OF assms] by simp
  moreover have "lim e = (vram, host)" using eng_reach_lim [OF assms(1)] by (simp add: lim_def eng_new_def)
  ultimately show ?thesis by (simp add: eng_ok_def lim_def)
qed

definition small_disk :: disk where
  "small_disk dir =
     \<lparr>co_encoder = Inr False, co_tokenizer = Inr euro_tokens, co_chat = Inr \<lparr>cm_end = 3, cm_image = None, cm_audio = None\<rparr>,
      co_footprint = (\<lambda>_. Inr 40), co_weights = 30, co_table = 70, co_enc_footprint = Inr 5, co_enc_bytes = 5,
      co_vision = None, co_audio = None, co_vision_width = 0, co_audio_width = 0\<rparr>"

definition small_load :: load where
  "small_load = \<lparr>ld_settings = \<lparr>st_context = 16, st_chunk = 8\<rparr>, ld_keep = 50, ld_pin = False, ld_budget = 280\<rparr>"

definition small_model :: "string \<Rightarrow> nat \<Rightarrow> place \<Rightarrow> model" where
  "small_model name t place =
     \<lparr>md_name = lit name, md_dir = lit name, md_load = small_load, md_tok = euro_tokens,
      md_chat = \<lparr>cm_end = 3, cm_image = None, cm_audio = None\<rparr>, md_ends = (3, 3), md_need = 40, md_used = t,
      md_until = Some (t + 50), md_at = place, md_vision = None, md_audio = None\<rparr>"

definition small_dec :: decoder where
  "small_dec = \<lparr>dec_weights = 30, dec_table = 70, dec_shadow = None\<rparr>"

definition small_engine :: "model list \<Rightarrow> nat \<Rightarrow> nat list \<Rightarrow> engine" where
  "small_engine ms t ticks =
     \<lparr>en_models = ms, en_encoders = [], en_vram = 100, en_host = 100, en_calls = [], en_now = t, en_ticks = ticks,
      en_samples = []\<rparr>"

abbreviation loaded_one :: engine where
  "loaded_one \<equiv> small_engine [small_model ''a'' 1 (Vram small_dec)] 1 [1, 0, 0, 1, 0, 0]"

abbreviation loaded_two :: engine where
  "loaded_two \<equiv> small_engine [small_model ''a'' 1 (Vram small_dec), small_model ''b'' 2 (Vram small_dec)] 2 [1, 0, 0]"

abbreviation loaded_three :: engine where
  "loaded_three \<equiv> small_engine [small_model ''a'' 1 (Host (park small_dec)), small_model ''b'' 2 (Vram small_dec),
      small_model ''c'' 3 (Vram small_dec)] 3 []"

lemmas small_defs = small_disk_def small_load_def small_model_def small_dec_def small_engine_def lit_def euro_tokens_def

lemmas run_defs = eng_load_def unload_def call_def expire_def instant_def instant_add_def INSTANT_END_def touch_def
  resident_def bring_def in_vram_def room.simps used_def towers_def victim_def may_go_def evict_def host_room.simps
  hosted_def held_bytes_def holder_def holds_def let_go_def parked_bytes_def park_def pk_bytes_def shadow_bytes_def
  drop_shadow_def set_model_def expired_def enc_kept_def special_def token_bytes_def slice_def eng_new_def Let_def

lemma small_disk_ok: "disk_ok small_disk"
  by (simp add: disk_ok_def small_disk_def)

lemma load_a:
  "eng_load small_disk (lit ''a'') (lit ''a'') small_load (eng_new 100 100 [] [1, 0, 0, 1, 0, 0, 1, 0, 0] []) = (Inr (), loaded_one)"
  by (simp add: run_defs small_defs)

lemma load_b: "eng_load small_disk (lit ''b'') (lit ''b'') small_load loaded_one = (Inr (), loaded_two)"
  by (simp add: run_defs small_defs)

lemma load_c: "eng_load small_disk (lit ''c'') (lit ''c'') small_load loaded_two = (Inr (), loaded_three)"
  by (simp add: run_defs small_defs upt_rec)

lemma loaded_three_reach: "eng_reach small_disk (eng_new 100 100 [] [1, 0, 0, 1, 0, 0, 1, 0, 0] []) loaded_three"
  using load_a load_b load_c reach_start reach_step step_load by meson

theorem engine_limits_witness:
  "used loaded_three \<le> 100 \<and> hosted loaded_three \<le> 100 \<and> distinct (names loaded_three) \<and>
   used loaded_three = 80 \<and> hosted loaded_three = 100"
proof -
  have "used loaded_three = 80" "hosted loaded_three = 100" by (simp_all add: run_defs small_defs)
  then show ?thesis using engine_limits [OF loaded_three_reach small_disk_ok] by simp
qed

text \<open>
  C18. Making room moves out the least recently used models first and touches nobody it may not. When it succeeds the new
  bytes fit; a pinned model, and the one asked for, stay where they are; a model that left was used no later than every
  model that could have gone and stayed.
\<close>

theorem room_least_recently_used:
  assumes "room need kept e = (Inr (), e')" "eng_ok e"
  shows "used e' + need \<le> en_vram e \<and>
    (\<forall>j < length (en_models e). Some j = kept \<or> ld_pin (md_load (en_models e ! j)) \<longrightarrow>
       in_vram (en_models e' ! j) = in_vram (en_models e ! j)) \<and>
    (\<forall>j < length (en_models e). \<forall>k < length (en_models e).
       in_vram (en_models e ! j) \<and> \<not> in_vram (en_models e' ! j) \<and> may_go kept e' k \<longrightarrow>
       md_used (en_models e ! j) \<le> md_used (en_models e ! k))"
proof (intro conjI allI impI)
  show "used e' + need \<le> en_vram e" using room_ok [OF assms] by simp
next
  fix j assume j: "j < length (en_models e)" "Some j = kept \<or> ld_pin (md_load (en_models e ! j))"
  have "follows (\<not> spared kept (en_models e) j) (en_models e ! j) (en_models e' ! j)"
    using room_frame [OF assms(1)] j(1) by blast
  then show "in_vram (en_models e' ! j) = in_vram (en_models e ! j)"
    by (rule follows_keeps(9)) (use j(2) in \<open>simp add: spared_def\<close>)
next
  fix j k assume "j < length (en_models e)" "k < length (en_models e)"
    "in_vram (en_models e ! j) \<and> \<not> in_vram (en_models e' ! j) \<and> may_go kept e' k"
  then show "md_used (en_models e ! j) \<le> md_used (en_models e ! k)" using room_lru [OF assms(1)] by simp
qed

theorem room_least_recently_used_witness:
  "used (snd (room 40 (Some 2) loaded_three)) + 40 \<le> en_vram loaded_three \<and>
   in_vram (en_models (snd (room 40 (Some 2) loaded_three)) ! 2) \<and>
   \<not> in_vram (en_models (snd (room 40 (Some 2) loaded_three)) ! 1)"
proof -
  have ok: "eng_ok loaded_three"
    using eng_reach_ok [OF loaded_three_reach small_disk_ok]
    by (simp add: eng_new_def eng_ok_def used_def hosted_def names_def)
  have run: "room 40 (Some 2) loaded_three = (Inr (), snd (room 40 (Some 2) loaded_three))"
    by (simp add: run_defs small_defs upt_rec)
  have here: "in_vram (en_models loaded_three ! 2)" "length (en_models loaded_three) = 3"
    "\<not> in_vram (en_models (snd (room 40 (Some 2) loaded_three)) ! 1)"
    by (simp_all add: run_defs small_defs upt_rec)
  have two: "2 < length (en_models loaded_three)" using here(2) by simp
  note r = room_least_recently_used [OF run ok]
  show ?thesis
    using conjunct1 [OF r] conjunct1 [OF conjunct2 [OF r], rule_format, OF two disjI1 [OF refl]] here(1,3) by blast
qed



text \<open>
  C20. Keep-alives. An expiry that succeeds leaves on disk, without towers, every unpinned model whose time has come, drops
  exactly the unpinned encoders whose time has come, and changes no other model.
\<close>

theorem expire_exact:
  assumes "expire e = (Inr (), e')"
  shows "\<exists>now \<ge> en_now e. en_now e' = now \<and>
    en_models e' = map (\<lambda>m. if md_at m \<noteq> Disk \<and> \<not> ld_pin (md_load m) \<and> (\<exists>t \<le> now. md_until m = Some t)
      then m\<lparr>md_vision := None, md_audio := None, md_at := Disk\<rparr> else m) (en_models e) \<and>
    en_encoders e' = filter (\<lambda>h. hd_pin h \<or> hd_until h = None \<or> (\<exists>t > now. hd_until h = Some t)) (en_encoders e)"
proof -
  obtain now where now: "en_now e \<le> now" "en_now e' = now" "list_all2 (sent now) (en_models e) (en_models e')"
    "list_all (\<lambda>m. \<not> expired now m) (en_models e')" "en_encoders e' = filter (enc_kept now) (en_encoders e)"
    using expire_effect [OF assms] by (metis Inr_not_Inl)
  have gone: "expired now = (\<lambda>m. md_at m \<noteq> Disk \<and> \<not> ld_pin (md_load m) \<and> (\<exists>t \<le> now. md_until m = Some t))"
    by (auto simp: expired_def fun_eq_iff split: option.splits)
  have kept: "enc_kept now = (\<lambda>h. hd_pin h \<or> hd_until h = None \<or> (\<exists>t > now. hd_until h = Some t))"
    by (auto simp: enc_kept_def fun_eq_iff split: option.splits)
  have "en_models e' = map (\<lambda>m. if expired now m then m\<lparr>md_vision := None, md_audio := None, md_at := Disk\<rparr> else m) (en_models e)"
    by (rule nth_equalityI) (use now(3,4) in \<open>force simp: list_all2_conv_all_nth list_all_length sent_def\<close>)+
  then show ?thesis using now(1,2,5) unfolding gone kept by blast
qed

theorem expire_exact_witness:
  "\<exists>now \<ge> en_now loaded_one. en_now (snd (expire loaded_one)) = now \<and>
    en_encoders (snd (expire loaded_one)) = filter (\<lambda>h. hd_pin h \<or> hd_until h = None \<or> (\<exists>t > now. hd_until h = Some t)) (en_encoders loaded_one)"
proof -
  have "expire loaded_one = (Inr (), snd (expire loaded_one))" by (simp add: run_defs small_defs)
  then show ?thesis using expire_exact by blast
qed

text \<open>
  C21. The answer's text. If the sampler delivers its tokens (enough of them, or an end token), reading a stream to its end
  takes at most two pieces more than the tokens left, and gives exactly the decoding of the tokens sampled before the
  first end token, no more of them than the limit; the stream has counted them, and nothing is left.
\<close>

theorem answer_decoded:
  assumes "coming s e = map Inr ts" "enough (en_models e ! ts_model s) (ts_left s) ts" "ts_pending s = []"
    and "m = en_models e ! ts_model s"
  shows "\<exists>s' e'. stream_all (ts_left s + 2) s e =
      Some (Inr (fst (flush True (spoken (md_tok m) (answer m (ts_left s) ts)))), s', e') \<and>
    ts_tokens s' = ts_tokens s + length (answer m (ts_left s) ts) \<and> length (answer m (ts_left s) ts) \<le> ts_left s \<and>
    ts_left s' = 0"
proof -
  obtain s' e' where run: "stream_all (ts_left s + 2) s e =
      Some (Inr (let (out, kept) = detok_all (md_tok m) (answer m (ts_left s) ts) [] in out @ fst (detok_finish kept)), s', e')"
    "ts_tokens s' = ts_tokens s + length (answer m (ts_left s) ts)" "ts_left s' = 0"
    using stream_all_answer [OF assms(1,2) order_refl] assms(3,4) by auto
  have "(let (out, kept) = detok_all (md_tok m) (answer m (ts_left s) ts) [] in out @ fst (detok_finish kept)) =
      fst (flush True (spoken (md_tok m) (answer m (ts_left s) ts)))"
    using detok_all_decoded [of "md_tok m" "answer m (ts_left s) ts"] by simp
  moreover have "length (answer m (ts_left s) ts) \<le> ts_left s"
    unfolding answer_def using length_takeWhile_le [of _ "take (ts_left s) ts"] by (rule le_trans) simp
  ultimately show ?thesis using run by simp
qed

definition euro_stream :: stream where
  "euro_stream = \<lparr>ts_model = 0, ts_keep = 0, ts_pending = [], ts_next = Some 0, ts_left = 9, ts_tokens = 0, ts_prompt = 1\<rparr>"

theorem answer_decoded_witness:
  "\<exists>s' e'. stream_all (ts_left euro_stream + 2) euro_stream (loaded_one\<lparr>en_samples := [Inr 1, Inr 2, Inr 3, Inr 7]\<rparr>) =
      Some (Inr [0x20AC], s', e') \<and> ts_tokens s' = 3"
proof -
  let ?e = "loaded_one\<lparr>en_samples := [Inr 1, Inr 2, Inr 3, Inr 7]\<rparr>"
  let ?m = "en_models ?e ! ts_model euro_stream"
  have c: "coming euro_stream ?e = map Inr [0, 1, 2, 3, 7]" by (simp add: coming_def euro_stream_def)
  have ends: "md_ends ?m = (3, 3)" and tok: "md_tok ?m = euro_tokens"
    by (simp_all add: small_engine_def small_model_def euro_stream_def)
  have en: "enough ?m (ts_left euro_stream) [0, 1, 2, 3, 7]" using ends by (simp add: enough_def ends_at_def)
  have ans: "answer ?m (ts_left euro_stream) [0, 1, 2, 3, 7] = [0, 1, 2]"
    using ends by (simp add: answer_def ends_at_def euro_stream_def)
  have decoded: "fst (flush True (spoken euro_tokens [0, 1, 2])) = [0x20AC]"
    by (simp add: spoken_def euro_tokens_def is_special_def token_bytes_def slice_def flush.simps utf8_next_def second3_def
        cont_def)
  show ?thesis
    using answer_decoded [OF c en _ refl] ans tok decoded by (auto simp: euro_stream_def numeral_3_eq_3)
qed

end
