(* ===== verification/Daemon.thy ===== *)
theory Daemon
  imports Protocol Engine
begin

text \<open>
  The daemon, \<open>serve/mod.rs\<close>: clients and their doorbells, the queue, one request at a time run on the engine, its
  answer written to the client's ring. The socket is an input: \<open>cl_inbox\<close> holds what the reads to come return.
  What the ring has taken is \<open>cl_out\<close>, the list of messages it stands for (\<open>Shm.append_frame_adds\<close>), and \<open>cl_left\<close>
  says for each append to come whether the client left while it waited. What the daemon asks of the rest of the
  program and of the GPU is the record \<open>world\<close>.
\<close>

section \<open>Definitions\<close>

datatype sock_read = Bytes bytes | Eof | Block | Fail

record client =
  cl_shm :: shared
  cl_inbox :: "sock_read list"
  cl_out :: "bytes list"
  cl_left :: "bool list"
  cl_queued :: bool
  cl_cancel :: bool

record options =
  op_keep :: nat
  op_data :: nat
  op_vram :: "nat option"
  op_host :: "nat option"
  op_socket :: str

text \<open>
  The parts of the world: the models' files, the directory a name stands for, the media decoders, the language test of
  \<open>laya\<close>, the chat template, an error's text, and what the GPU computes.
\<close>

record world =
  wo_disk :: disk
  wo_dir :: "str \<Rightarrow> str option"
  wo_image :: "bytes \<Rightarrow> u32 list option"
  wo_wav :: "bytes \<Rightarrow> u32 list option"
  wo_english :: "str \<Rightarrow> bool"
  wo_template :: "model \<Rightarrow> (u32 list, u32 list) message list \<Rightarrow> bool \<Rightarrow> u32 list"
  wo_display :: "error \<Rightarrow> str"
  wo_see :: "u32 list \<Rightarrow> error + soft"
  wo_hear :: "u32 list \<Rightarrow> error + soft"
  wo_embed :: "str \<Rightarrow> str list \<Rightarrow> nat option \<Rightarrow> error + u32 list list"
  wo_decide :: "str \<Rightarrow> str \<Rightarrow> bool \<Rightarrow> asked list \<Rightarrow> error + u32 list list"

text \<open>\<open>usize::from_str\<close>: digits, after an optional plus sign, of a value below \<open>2 ^ 64\<close>.\<close>

fun digits_value :: "nat \<Rightarrow> str \<Rightarrow> nat option" where
  "digits_value v [] = Some v"
| "digits_value v (c # cs) =
     (if 48 \<le> c \<and> c \<le> 57 \<and> 10 * v + (c - 48) < 2 ^ 64 then digits_value (10 * v + (c - 48)) cs else None)"

definition parse_usize :: "str \<Rightarrow> nat option" where
  "parse_usize s =
     (let digits = (case s of c # cs \<Rightarrow> if c = 43 then cs else s | [] \<Rightarrow> s) in
      if digits = [] then None else digits_value 0 digits)"

definition mib :: "str \<Rightarrow> nat option" where
  "mib v = (case parse_usize v of None \<Rightarrow> None | Some n \<Rightarrow> if n * 2 ^ 20 < 2 ^ 64 then Some (n * 2 ^ 20) else None)"

definition options_set :: "str \<Rightarrow> str \<Rightarrow> options \<Rightarrow> bool \<times> options" where
  "options_set key v opts =
     (if key = lit ''socket'' then (True, opts\<lparr>op_socket := v\<rparr>)
      else if key = lit ''keep-alive'' then
        (case parse_usize v of None \<Rightarrow> (False, opts) | Some s \<Rightarrow> (True, opts\<lparr>op_keep := s * 10 ^ 9\<rparr>))
      else if key = lit ''data-mib'' then
        (case mib v of None \<Rightarrow> (False, opts) | Some n \<Rightarrow> (True, opts\<lparr>op_data := n\<rparr>))
      else if key = lit ''vram-mib'' then
        (case mib v of None \<Rightarrow> (False, opts) | Some n \<Rightarrow> (True, opts\<lparr>op_vram := Some n\<rparr>))
      else if key = lit ''host-mib'' then
        (case mib v of None \<Rightarrow> (False, opts) | Some n \<Rightarrow> (True, opts\<lparr>op_host := Some n\<rparr>))
      else (False, opts))"

text \<open>Doorbells.\<close>

definition bell :: "u8 \<Rightarrow> bool \<times> bool \<Rightarrow> bool \<times> bool" where
  "bell b st = (case st of (asked, cancel) \<Rightarrow>
     (asked \<or> b = DOORBELL_REQUEST, b = DOORBELL_CANCEL \<or> cancel \<and> b \<noteq> DOORBELL_REQUEST))"

fun bells_on :: "sock_read list \<Rightarrow> bool \<times> bool \<Rightarrow> bool option \<times> bool \<times> sock_read list" where
  "bells_on [] st = (Some (fst st), snd st, [])"
| "bells_on (Block # rest) st = (Some (fst st), snd st, rest)"
| "bells_on (Eof # rest) st = (None, snd st, rest)"
| "bells_on (Fail # rest) st = (None, snd st, rest)"
| "bells_on (Bytes bs # rest) st = bells_on rest (fold bell bs st)"

definition bells :: "client \<Rightarrow> bool option \<times> client" where
  "bells c =
     (let (asked, cancel, rest) = bells_on (cl_inbox c) (False, cl_cancel c)
      in (asked, c\<lparr>cl_cancel := cancel, cl_inbox := rest\<rparr>))"

definition ring :: "nat \<Rightarrow> client option list \<times> nat list \<Rightarrow> client option list \<times> nat list" where
  "ring i st = (case st of (clients, queue) \<Rightarrow>
     (case clients ! i of
        None \<Rightarrow> (clients, queue)
      | Some c \<Rightarrow>
          (case bells c of
             (None, _) \<Rightarrow> (clients[i := None], queue)
           | (Some asked, c) \<Rightarrow>
               if asked \<and> \<not> cl_queued c then (clients[i := Some (c\<lparr>cl_queued := True\<rparr>)], queue @ [i])
               else (clients[i := Some c], queue))))"

definition accept :: "client option \<Rightarrow> client option list \<Rightarrow> client option list" where
  "accept new clients =
     (case new of
        None \<Rightarrow> clients
      | Some c \<Rightarrow> (case index_of (\<lambda>slot. slot = None) clients of Some free \<Rightarrow> clients[free := Some c] | None \<Rightarrow> clients @ [Some c]))"

datatype code = BadRequest | NoModelHere | EngineFailed | Cancelled | TooLarge

fun code_num :: "code \<Rightarrow> u16" where
  "code_num BadRequest = 1"
| "code_num NoModelHere = 2"
| "code_num EngineFailed = 3"
| "code_num Cancelled = 4"
| "code_num TooLarge = 5"

datatype failed = Failed code str

definition send :: "bytes \<Rightarrow> client \<Rightarrow> bool \<times> client" where
  "send msg c =
     (case cl_left c of
        True # rest \<Rightarrow> (False, c\<lparr>cl_left := rest\<rparr>)
      | _ \<Rightarrow> (True, c\<lparr>cl_left := tl (cl_left c), cl_out := cl_out c @ [msg]\<rparr>))"

definition engine_failed :: "world \<Rightarrow> error \<Rightarrow> failed" where
  "engine_failed w x = Failed EngineFailed (wo_display w x)"

definition dir :: "world \<Rightarrow> str \<Rightarrow> failed + str" where
  "dir w name = ok_or (Failed NoModelHere (lit ''no model '' @ name)) (wo_dir w name)"

definition load_named :: "world \<Rightarrow> str \<Rightarrow> load \<Rightarrow> engine \<Rightarrow> (failed + unit) \<times> engine" where
  "load_named w name ld e =
     (case dir w name of
        Inl x \<Rightarrow> (Inl x, e)
      | Inr path \<Rightarrow>
          (case eng_load (wo_disk w) name path ld e of
             (Inl x, e) \<Rightarrow> (Inl (Failed EngineFailed (name @ lit '': '' @ wo_display w x)), e)
           | (Inr _, e) \<Rightarrow> (Inr (), e)))"

definition ready :: "world \<Rightarrow> options \<Rightarrow> str \<Rightarrow> nat option \<Rightarrow> engine \<Rightarrow> (failed + unit) \<times> engine" where
  "ready w opts name kept e =
     (if eng_tier name e = None
      then load_named w name (load_default\<lparr>ld_keep := (case kept of None \<Rightarrow> op_keep opts | Some k \<Rightarrow> k)\<rparr>) e
      else (Inr (), e))"

text \<open>A message of an answer: its number first in the block.\<close>

definition done_msg :: "u64 \<Rightarrow> u64 \<Rightarrow> u64 \<Rightarrow> u32 \<Rightarrow> u32 \<Rightarrow> bytes" where
  "done_msg rid prefill decode prompt tokens =
     wr_new 102 (f_u32 tokens (f_u32 prompt (f_u64 decode (f_u64 prefill (f_u64 rid [])))))"

definition text_msg :: "u64 \<Rightarrow> str \<Rightarrow> bytes" where
  "text_msg rid t = wr_text t (wr_new 101 (f_u64 rid []))"

definition error_msg :: "u64 \<Rightarrow> failed \<Rightarrow> bytes" where
  "error_msg rid f = (case f of Failed code t \<Rightarrow> wr_text t (wr_new 103 (f_u16 (code_num code) (f_u64 rid []))))"

text \<open>The images and audio attached to the messages, decoded from the data area; the first failure ends it.\<close>

definition bad_media :: "string \<Rightarrow> failed" where
  "bad_media what = Failed BadRequest (lit ''an attachment is not '' @ lit what @ lit '', or is out of the data area'')"

definition fetch_all ::
  "(bytes \<Rightarrow> u32 list option) \<Rightarrow> string \<Rightarrow> shared \<Rightarrow> blob list \<Rightarrow> failed + u32 list list" where
  "fetch_all decode what shm blobs =
     fold (\<lambda>b acc. rbind acc (\<lambda>xs.
         rbind (ok_or (bad_media what) (Option.bind (shm_read shm (blob_offset b) (blob_length b)) decode)) (\<lambda>x. Inr (xs @ [x]))))
       blobs (Inr [])"

definition attachments_of :: "world \<Rightarrow> shared \<Rightarrow> said \<Rightarrow> failed + (u32 list, u32 list) message" where
  "attachments_of w shm s = (case s of Said role t attached \<Rightarrow>
     rbind (fetch_all (wo_image w) ''an image'' shm (map snd (filter (\<lambda>a. fst a = 0) attached))) (\<lambda>images.
     rbind (fetch_all (wo_wav w) ''a WAV file'' shm (map snd (filter (\<lambda>a. fst a = 1) attached))) (\<lambda>audio.
       Inr \<lparr>ms_role = (case role of System \<Rightarrow> SpeakerSystem | User \<Rightarrow> SpeakerUser | Model \<Rightarrow> SpeakerModel),
            ms_text = t, ms_images = images, ms_audio = audio\<rparr>)))"

fun attachments :: "world \<Rightarrow> shared \<Rightarrow> said list \<Rightarrow> failed + (u32 list, u32 list) message list" where
  "attachments w shm [] = Inr []"
| "attachments w shm (s # ss) =
     rbind (attachments_of w shm s) (\<lambda>m. rbind (attachments w shm ss) (\<lambda>ms. Inr (m # ms)))"

text \<open>Reading an answer's pieces ends: every piece costs a token, or is the last.\<close>

lemma next_loop_progress:
  assumes "next_loop s out e = (Inr out', s', e')"
  shows "ts_left s' \<le> ts_left s \<and> (out' \<noteq> out \<longrightarrow> ts_left s' < ts_left s) \<and>
    (ts_left s = 0 \<longrightarrow> out' = out \<and> s' = s) \<and> (out' = [] \<longrightarrow> ts_left s' = 0)"
  using assms
proof (induction s out e arbitrary: out' s' e' rule: next_loop.induct)
  case (1 s out e)
  show ?case
  proof (cases "out \<noteq> [] \<or> ts_left s = 0")
    case True
    then show ?thesis using "1.prems" by (subst (asm) next_loop.simps) auto
  next
    case False
    obtain r1 e1 where tk: "take_token s e = (r1, e1)" by fastforce
    have "\<not> (\<exists>x. r1 = Inl x)" using "1.prems" False tk by (subst (asm) next_loop.simps) auto
    then obtain t where t: "r1 = Inr t" by (cases r1) auto
    let ?m = "en_models e1 ! ts_model s"
    show ?thesis
    proof (cases "t = fst (md_ends ?m) \<or> t = snd (md_ends ?m)")
      case True
      then show ?thesis using "1.prems" False tk t by (subst (asm) next_loop.simps) (auto simp: Let_def)
    next
      case go: False
      obtain more pending where push: "detok_push (md_tok ?m) t (ts_pending s) = (more, pending)" by fastforce
      let ?s = "s\<lparr>ts_next := None, ts_left := ts_left s - 1, ts_tokens := ts_tokens s + 1, ts_pending := pending\<rparr>"
      have "next_loop ?s (out @ more) e1 = (Inr out', s', e')"
        using "1.prems" False tk t go push by (subst (asm) next_loop.simps) (simp add: Let_def)
      then have "ts_left s' \<le> ts_left ?s \<and> (out' = [] \<longrightarrow> ts_left s' = 0)"
        using "1.IH" [OF False tk [symmetric] t refl go push [symmetric]] by blast
      then show ?thesis using False by auto
    qed
  qed
qed

definition stream_size :: "stream \<Rightarrow> nat" where
  "stream_size s = 2 * ts_left s + (if ts_pending s = [] then 0 else 1)"

lemma next_text_progress:
  assumes "next_text s e = (Inr (Some t), s', e')"
  shows "stream_size s' < stream_size s"
proof -
  obtain out s1 e1 where l: "next_loop s [] e = (Inr out, s1, e1)"
    using assms by (cases "next_loop s [] e"; cases "fst (next_loop s [] e)") (auto simp: next_text_def)
  note p = next_loop_progress [OF l]
  show ?thesis
  proof (cases "ts_left s1 = 0")
    case False
    then have "s' = s1" "out = t" using assms l by (auto simp: next_text_def split: if_splits)
    then show ?thesis using p False by (auto simp: stream_size_def)
  next
    case True
    obtain more left where fin: "detok_finish (ts_pending s1) = (more, left)" by fastforce
    have left: "left = []" using flush_end_empties [of "ts_pending s1"] fin by (simp add: detok_finish_def)
    have s': "s' = s1\<lparr>ts_pending := left\<rparr>" "t = out @ more" "t \<noteq> []"
      using assms l True fin by (auto simp: next_text_def split: if_splits)
    show ?thesis
    proof (cases "ts_left s = 0")
      case True
      then have "out = []" "s1 = s" using p by auto
      then have "ts_pending s \<noteq> []" using s'(2,3) fin by (auto simp: detok_finish_def flush.simps)
      then show ?thesis using s' \<open>s1 = s\<close> left by (simp add: stream_size_def)
    next
      case False
      then show ?thesis using s' left \<open>ts_left s1 = 0\<close> by (simp add: stream_size_def)
    qed
  qed
qed

text \<open>The loop of \<open>chat_answer\<close>: a piece is sent, then the doorbells are read.\<close>

function chat_pieces :: "world \<Rightarrow> u64 \<Rightarrow> stream \<Rightarrow> engine \<Rightarrow> client \<Rightarrow> (failed + unit) \<times> stream \<times> engine \<times> client" where
  "chat_pieces w rid s e c =
     (case next_text s e of
        (Inl x, s, e) \<Rightarrow> (Inl (engine_failed w x), s, e, c)
      | (Inr None, s, e) \<Rightarrow> (Inr (), s, e, c)
      | (Inr (Some t), s, e) \<Rightarrow>
          (case send (text_msg rid t) c of
             (False, c) \<Rightarrow> (Inl (Failed Cancelled (lit ''cancelled'')), s, e, c\<lparr>cl_cancel := False\<rparr>)
           | (True, c) \<Rightarrow>
               (case bells c of
                  (asked, c) \<Rightarrow>
                    if asked = None \<or> cl_cancel c
                    then (Inl (Failed Cancelled (lit ''cancelled'')), s, e, c\<lparr>cl_cancel := False\<rparr>)
                    else chat_pieces w rid s e c)))"
  by pat_completeness auto
termination
  by (relation "measure (\<lambda>(_, _, s, _, _). stream_size s)") (auto intro: next_text_progress [OF sym])

declare chat_pieces.simps [simp del]

definition chat_answer ::
  "world \<Rightarrow> options \<Rightarrow> u64 \<Rightarrow> chat_ask \<Rightarrow> engine \<Rightarrow> client \<Rightarrow> (failed + bytes) \<times> engine \<times> client" where
  "chat_answer w opts rid chat e c =
     (case ready w opts (ch_model chat) (ch_keep chat) e of
        (Inl x, e) \<Rightarrow> (Inl x, e, c)
      | (Inr _, e) \<Rightarrow>
          (case attachments w (cl_shm c) (ch_messages chat) of
             Inl x \<Rightarrow> (Inl x, e, c)
           | Inr messages \<Rightarrow>
               let req = \<lparr>rq_messages = messages, rq_think = ch_think chat, rq_max_tokens = ch_max_tokens chat,
                          rq_keep = ch_keep chat\<rparr>;
                   (start, e) = instant e
               in (case eng_chat (wo_disk w) (wo_see w) (wo_hear w) (wo_template w) (ch_model chat) req e of
                     (Inl x, e) \<Rightarrow> (Inl (engine_failed w x), e, c)
                   | (Inr s, e) \<Rightarrow>
                       let (fed, e) = instant e; (mid, e) = instant e in
                       (case chat_pieces w rid s e c of
                          (Inl x, s, e, c) \<Rightarrow> (Inl x, stream_drop s e, c)
                        | (Inr _, s, e, c) \<Rightarrow>
                            let (now, e) = instant e in
                            (Inr (done_msg rid (word_of_nat (fed - start)) (word_of_nat (now - mid))
                               (word_of_nat (ts_prompt s)) (word_of_nat (ts_tokens s))), stream_drop s e, c)))))"

definition floats_bytes :: "u32 list list \<Rightarrow> bytes" where
  "floats_bytes rows = concat (map (\<lambda>v. le_bytes 4 (unat v)) (concat rows))"

definition embed ::
  "world \<Rightarrow> options \<Rightarrow> u64 \<Rightarrow> embed_ask \<Rightarrow> engine \<Rightarrow> client \<Rightarrow> (failed + bytes) \<times> engine \<times> client" where
  "embed w opts rid a e c =
     (case ready w opts (em_model a) None e of
        (Inl x, e) \<Rightarrow> (Inl x, e, c)
      | (Inr _, e) \<Rightarrow>
          (case eng_infer (em_model a)
                  (wo_embed w (em_model a) (em_texts a) (if em_dims a = 0 then None else Some (em_dims a))) e of
             (Inl x, e) \<Rightarrow> (Inl (engine_failed w x), e, c)
           | (Inr rows, e) \<Rightarrow>
               let bs = floats_bytes rows;
                   (fits, shm) = shm_write (cl_shm c) (blob_offset (em_out a)) (blob_length (em_out a)) bs;
                   c = c\<lparr>cl_shm := shm\<rparr>
               in if \<not> fits
                  then (Inl (Failed TooLarge (decimal (length bs) @ lit '' bytes of embeddings do not fit the blob'')), e, c)
                  else (Inr (wr_new 104 (f_u32 (word_of_nat (case rows of [] \<Rightarrow> 0 | r # _ \<Rightarrow> length r))
                    (f_u32 (word_of_nat (length rows)) (f_u64 rid [])))), e, c)))"

definition decide_model :: "world \<Rightarrow> decide_ask \<Rightarrow> str" where
  "decide_model w a =
     (if de_model a \<noteq> lit ''laya'' then de_model a
      else if wo_english w (de_state a) \<and> wo_dir w (lit ''laya-english'') \<noteq> None then lit ''laya-english''
      else lit ''laya-multilingual'')"

definition decide ::
  "world \<Rightarrow> options \<Rightarrow> u64 \<Rightarrow> decide_ask \<Rightarrow> engine \<Rightarrow> client \<Rightarrow> (failed + bytes) \<times> engine \<times> client" where
  "decide w opts rid a e c =
     (let model = decide_model w a in
      case ready w opts model None e of
        (Inl x, e) \<Rightarrow> (Inl x, e, c)
      | (Inr _, e) \<Rightarrow>
          (case eng_infer model (wo_decide w model (de_state a) (de_conversation a) (de_questions a)) e of
             (Inl x, e) \<Rightarrow> (Inl (engine_failed w x), e, c)
           | (Inr probs, e) \<Rightarrow>
               let bs = floats_bytes probs;
                   (fits, shm) = shm_write (cl_shm c) (blob_offset (de_out a)) (blob_length (de_out a)) bs;
                   c = c\<lparr>cl_shm := shm\<rparr>
               in if \<not> fits
                  then (Inl (Failed TooLarge (decimal (length bs) @ lit '' bytes of probabilities do not fit the blob'')), e, c)
                  else (Inr (fold (\<lambda>p w. wr_bytes (le_bytes 4 (length p)) w) probs
                    (wr_group 4 (length probs) (wr_new 105 (f_u64 rid [])))), e, c)))"

fun tier_byte :: "tier \<Rightarrow> u8" where
  "tier_byte TierVram = 0"
| "tier_byte TierHost = 1"
| "tier_byte TierDisk = 2"

definition left_ms :: "nat option \<Rightarrow> u64" where
  "left_ms left = (case left of None \<Rightarrow> - 1 | Some d \<Rightarrow> word_of_nat (min (d div 10 ^ 6) (2 ^ 63 - 1)))"

definition list_models :: "engine \<Rightarrow> u64 \<Rightarrow> bytes \<times> engine" where
  "list_models e rid =
     (let (ms, e) = eng_models e in
      (fold (\<lambda>m w. wr_text (lo_name m)
           (wr_bytes (f_u8 (tier_byte (lo_tier m)) (f_u64 (left_ms (lo_left m)) (f_u64 (word_of_nat (lo_vram m)) []))) w)) ms
         (wr_group 17 (length ms) (wr_new 106 (f_u64 rid []))), e))"

definition load_options :: "options \<Rightarrow> nat option \<Rightarrow> nat \<Rightarrow> bool \<Rightarrow> load" where
  "load_options opts kept ctx pin =
     (let ld = load_default\<lparr>ld_keep := (case kept of None \<Rightarrow> op_keep opts | Some k \<Rightarrow> k), ld_pin := pin\<rparr>;
          st = ld_settings ld
      in if 0 < ctx then ld\<lparr>ld_settings := st\<lparr>st_context := ctx, st_chunk := min (st_chunk st) ctx\<rparr>\<rparr> else ld)"

text \<open>Running a request: its last message or its failure, and whether the daemon is to stop.\<close>

fun run :: "world \<Rightarrow> options \<Rightarrow> u64 \<Rightarrow> ask \<Rightarrow> engine \<Rightarrow> client \<Rightarrow> ((failed + bytes) \<times> engine \<times> client) \<times> bool" where
  "run w opts rid (AskChat chat) e c = (chat_answer w opts rid chat e c, False)"
| "run w opts rid (AskEmbed a) e c = (embed w opts rid a e c, False)"
| "run w opts rid (AskDecide a) e c = (decide w opts rid a e c, False)"
| "run w opts rid (AskLoad model kept ctx pin) e c =
     (case load_named w model (load_options opts kept ctx pin) e of
        (Inl x, e) \<Rightarrow> ((Inl x, e, c), False)
      | (Inr _, e) \<Rightarrow> ((Inr (done_msg rid 0 0 0 0), e, c), False))"
| "run w opts rid (AskUnload model) e c = ((Inr (done_msg rid 0 0 0 0), snd (unload model e), c), False)"
| "run w opts rid AskList e c = (case list_models e rid of (msg, e) \<Rightarrow> ((Inr msg, e, c), False))"
| "run w opts rid AskShutdown e c = ((Inr (done_msg rid 0 0 0 0), e, c), True)"

definition bad_request :: failed where
  "bad_request = Failed BadRequest (lit ''not a request of tachyon.xml, or out of the shared memory'')"

definition answer_request :: "world \<Rightarrow> options \<Rightarrow> engine \<Rightarrow> client \<Rightarrow> engine \<times> client \<times> bool" where
  "answer_request w opts e c =
     (let (rid, ask) = read_request (request_area (cl_shm c));
          cancelled = cl_cancel c;
          c = c\<lparr>cl_cancel := False\<rparr>;
          ((result, e, c), stop) =
            (if cancelled then ((Inl (Failed Cancelled (lit ''cancelled'')), e, c), False)
             else case ask of Inl _ \<Rightarrow> ((Inl bad_request, e, c), False) | Inr ask \<Rightarrow> run w opts rid ask e c);
          msg = (case result of Inr msg \<Rightarrow> msg | Inl f \<Rightarrow> error_msg rid f)
      in (e, snd (send msg c), stop))"

fun drain :: "world \<Rightarrow> options \<Rightarrow> engine \<Rightarrow> client option list \<Rightarrow> nat list \<Rightarrow> bool \<Rightarrow> engine \<times> client option list \<times> bool" where
  "drain w opts e clients [] stop = (e, clients, stop)"
| "drain w opts e clients (i # queue) stop =
     (case clients ! i of
        Some c \<Rightarrow>
          if cl_queued c then
            (case answer_request w opts e (c\<lparr>cl_queued := False\<rparr>) of
               (e, c, s) \<Rightarrow> drain w opts e (clients[i := Some c]) queue (stop \<or> s))
          else drain w opts e clients queue stop
      | None \<Rightarrow> drain w opts e clients queue stop)"

text \<open>
  One turn of the daemon's loop: whom \<open>accept\<close> let in, and the clients whose sockets \<open>poll\<close> reported, in the order of
  their slots. It gives whether the daemon stops.
\<close>

definition serve_turn ::
  "world \<Rightarrow> options \<Rightarrow> client option \<Rightarrow> nat list \<Rightarrow> engine \<times> client option list \<Rightarrow> (error + bool) \<times> engine \<times> client option list" where
  "serve_turn w opts new polled st = (case st of (e, clients) \<Rightarrow>
     (let clients = accept new clients;
          (clients, queue) = fold ring polled (clients, []);
          (e, clients, stop) = drain w opts e clients queue False
      in if stop then (Inr True, e, clients)
         else case expire e of (Inl x, e) \<Rightarrow> (Inl x, e, clients) | (Inr _, e) \<Rightarrow> (Inr False, e, clients)))"

text \<open>
  The command line's \<open>call\<close>, on the messages its \<open>next\<close> gives one after the other: the texts it passed on, and how it
  ended (the error's text and code, or the last message). \<open>None\<close>: it still waits for a message.
\<close>

datatype called = Last u16 bytes | CallError str u16 | CallBad

fun client_call :: "bytes list \<Rightarrow> (str list \<times> called) option" where
  "client_call [] = None"
| "client_call (msg # msgs) =
     (case rd_open msg of
        Inl _ \<Rightarrow> Some ([], CallBad)
      | Inr (template, _, r) \<Rightarrow>
          if template = 101 then
            (case rd_text r of
               Inl _ \<Rightarrow> Some ([], CallBad)
             | Inr (t, _) \<Rightarrow> map_option (apfst (\<lambda>ts. t # ts)) (client_call msgs))
          else if template = 103 then
            Some ([], CallError (case rd_text r of Inl _ \<Rightarrow> [] | Inr (t, _) \<Rightarrow> t)
              (case slice msg 16 2 of None \<Rightarrow> 0 | Some c \<Rightarrow> word_of_nat (le_val c)))
          else Some ([], Last template msg))"

section \<open>Doorbells\<close>

definition rung :: "bytes \<Rightarrow> bool \<Rightarrow> bool" where
  "rung bs cancel =
     (let marks = filter (\<lambda>b. b = DOORBELL_REQUEST \<or> b = DOORBELL_CANCEL) bs
      in if marks = [] then cancel else last marks = DOORBELL_CANCEL)"

lemma doorbells_differ [simp]: "DOORBELL_REQUEST \<noteq> DOORBELL_CANCEL" "DOORBELL_CANCEL \<noteq> DOORBELL_REQUEST"
  by (simp_all add: DOORBELL_REQUEST_def DOORBELL_CANCEL_def)

lemma fold_bell: "fold bell bs (asked, cancel) = (asked \<or> DOORBELL_REQUEST \<in> set bs, rung bs cancel)"
proof (induction bs arbitrary: asked cancel)
  case Nil
  then show ?case by (simp add: rung_def)
next
  case (Cons b bs)
  show ?case using Cons by (auto simp: bell_def rung_def)
qed

lemma bells_on_bytes:
  "bells_on (map Bytes bss @ rest) (asked, cancel) =
     bells_on rest (asked \<or> DOORBELL_REQUEST \<in> set (concat bss), rung (concat bss) cancel)"
proof (induction bss arbitrary: asked cancel)
  case Nil
  then show ?case by (simp add: rung_def)
next
  case (Cons bs bss)
  have "rung (concat bss) (rung bs cancel) = rung (bs @ concat bss) cancel" by (auto simp: rung_def Let_def)
  then show ?case using Cons by (simp add: fold_bell)
qed

text \<open>
  Doorbells. However the bytes a client rang are split over reads, the daemon sees a request exactly when one was rung,
  and a cancel exactly when one was rung after the last request (or stood already and no request came): a cancel meant
  for an earlier request never stops a later one.
\<close>

theorem doorbells_read:
  "bells_on (map Bytes bss @ Block # rest) (False, cancel) =
     (Some (DOORBELL_REQUEST \<in> set (concat bss)), rung (concat bss) cancel, rest) \<and>
   (\<forall>before after. concat bss = before @ DOORBELL_REQUEST # after \<and> DOORBELL_REQUEST \<notin> set after \<longrightarrow>
      rung (concat bss) cancel = (DOORBELL_CANCEL \<in> set after))"
proof (intro conjI allI impI)
  show "bells_on (map Bytes bss @ Block # rest) (False, cancel) =
     (Some (DOORBELL_REQUEST \<in> set (concat bss)), rung (concat bss) cancel, rest)"
    by (simp add: bells_on_bytes)
next
  fix before after
  assume a: "concat bss = before @ DOORBELL_REQUEST # after \<and> DOORBELL_REQUEST \<notin> set after"
  have marks: "filter (\<lambda>b. b = DOORBELL_REQUEST \<or> b = DOORBELL_CANCEL) after = filter (\<lambda>b. b = DOORBELL_CANCEL) after"
    using a by (intro filter_cong) auto
  show "rung (concat bss) cancel = (DOORBELL_CANCEL \<in> set after)"
  proof (cases "DOORBELL_CANCEL \<in> set after")
    case True
    then have "filter (\<lambda>b. b = DOORBELL_CANCEL) after \<noteq> []" by (auto simp: filter_empty_conv)
    then have "last (filter (\<lambda>b. b = DOORBELL_CANCEL) after) = DOORBELL_CANCEL"
      using last_in_set by fastforce
    then show ?thesis using a marks True \<open>filter _ after \<noteq> []\<close> by (simp add: rung_def)
  next
    case False
    then have "filter (\<lambda>b. b = DOORBELL_CANCEL) after = []" by (auto simp: filter_empty_conv)
    then show ?thesis using a marks False by (simp add: rung_def)
  qed
qed

theorem doorbells_read_witness:
  "rung (concat [[2], [1, 2]]) False \<and> \<not> rung (concat [[2], [1]]) True"
proof -
  have "concat [[2], [1, 2]] = [2] @ DOORBELL_REQUEST # [2] \<and> DOORBELL_REQUEST \<notin> set [2 :: u8]"
    "concat [[2], [1]] = [2] @ DOORBELL_REQUEST # [] \<and> DOORBELL_REQUEST \<notin> set ([] :: u8 list)"
    by (simp_all add: DOORBELL_REQUEST_def)
  then show ?thesis
    using conjunct2 [OF doorbells_read [of "[[2], [1, 2]]" "[]" False], rule_format, of "[2]" "[2]"]
      conjunct2 [OF doorbells_read [of "[[2], [1]]" "[]" True], rule_format, of "[2]" "[]"]
    by (simp add: DOORBELL_CANCEL_def)
qed

section \<open>The queue\<close>

text \<open>What a client's socket says of it when the daemon looks.\<close>

definition asks :: "client option \<Rightarrow> bool" where
  "asks slot = (case slot of None \<Rightarrow> False | Some c \<Rightarrow> fst (bells c) = Some True)"

definition quiet :: "client option \<Rightarrow> bool" where
  "quiet slot = (case slot of None \<Rightarrow> True | Some c \<Rightarrow> \<not> cl_queued c)"

definition rung_slot :: "client option \<Rightarrow> client option" where
  "rung_slot slot = (case slot of None \<Rightarrow> None
     | Some c \<Rightarrow> (case bells c of (None, _) \<Rightarrow> None | (Some asked, c) \<Rightarrow> Some (if asked then c\<lparr>cl_queued := True\<rparr> else c)))"

lemma bells_queued [simp]: "bells c = (a, c') \<Longrightarrow> cl_queued c' = cl_queued c"
  by (auto simp: bells_def split: prod.splits)

lemma list_update_same: "xs ! i = x \<Longrightarrow> xs[i := x] = xs"
  by (auto simp: list_update_id)

lemma ring_quiet:
  assumes "i < length clients" "quiet (clients ! i)"
  shows "ring i (clients, queue) = (clients[i := rung_slot (clients ! i)], queue @ (if asks (clients ! i) then [i] else []))"
  using assms
  by (auto simp: ring_def quiet_def rung_slot_def asks_def list_update_same split: option.splits prod.splits bool.splits)

lemma fold_ring:
  assumes "distinct polled" "\<forall>i \<in> set polled. i < length clients \<and> quiet (clients ! i)"
  shows "fold ring polled (clients, queue) =
    (map (\<lambda>i. if i \<in> set polled then rung_slot (clients ! i) else clients ! i) [0..<length clients],
     queue @ filter (\<lambda>i. asks (clients ! i)) polled)"
  using assms
proof (induction polled arbitrary: clients queue)
  case Nil
  then show ?case by (simp add: map_nth)
next
  case (Cons i polled)
  let ?clients = "clients[i := rung_slot (clients ! i)]"
  have rest: "\<forall>j \<in> set polled. j < length ?clients \<and> quiet (?clients ! j)"
    using Cons.prems by (auto simp: nth_list_update)
  have same: "\<forall>j \<in> set polled. ?clients ! j = clients ! j"
    using Cons.prems(1) by (metis distinct.simps(2) nth_list_update_neq)
  have "filter (\<lambda>j. asks (?clients ! j)) polled = filter (\<lambda>j. asks (clients ! j)) polled"
    using same by (intro filter_cong) auto
  moreover have "map (\<lambda>j. if j \<in> set polled then rung_slot (?clients ! j) else ?clients ! j) [0..<length ?clients] =
      map (\<lambda>j. if j \<in> set (i # polled) then rung_slot (clients ! j) else clients ! j) [0..<length clients]"
    using Cons.prems by (intro nth_equalityI) (auto simp: nth_list_update)
  ultimately show ?case
    using Cons.IH [OF _ rest] Cons.prems ring_quiet [of i clients queue] by simp
qed

lemma rung_slot_queued:
  assumes "quiet slot"
  shows "(\<exists>c. rung_slot slot = Some c \<and> cl_queued c) \<longleftrightarrow> asks slot" "\<not> asks slot \<Longrightarrow> quiet (rung_slot slot)"
  using assms by (auto simp: rung_slot_def asks_def quiet_def split: option.splits prod.splits if_splits)

section \<open>Answers\<close>

text \<open>A last message: of another template than Text's, its block opening with the request's number.\<close>

definition is_final :: "u64 \<Rightarrow> bytes \<Rightarrow> bool" where
  "is_final rid msg \<longleftrightarrow> (\<exists>t block rest. t \<in> {102, 103, 104, 105, 106} \<and> msg = wr_new t block @ rest \<and>
     take 8 block = le_bytes 8 (unat rid))"

lemma is_finalI: "t \<in> {102, 103, 104, 105, 106} \<Longrightarrow> take 8 block = le_bytes 8 (unat rid) \<Longrightarrow> is_final rid (wr_new t block @ rest)"
  by (auto simp: is_final_def)

lemma fold_appends: "(\<And>x w. f x w = w @ g x) \<Longrightarrow> fold f xs w = w @ concat (map g xs)"
  by (induction xs arbitrary: w) simp_all

lemma final_done: "is_final rid (done_msg rid a b p t)"
  using is_finalI [of 102 _ rid "[]"] by (simp add: done_msg_def field_defs)

lemma final_error: "is_final rid (error_msg rid f)"
  by (cases f) (auto simp: error_msg_def wr_text_def field_defs intro!: is_finalI)

lemma final_list: "is_final rid (fst (list_models e rid))"
proof -
  obtain ms e' where ms: "eng_models e = (ms, e')" by fastforce
  let ?f = "\<lambda>m w. wr_text (lo_name m)
      (wr_bytes (f_u8 (tier_byte (lo_tier m)) (f_u64 (left_ms (lo_left m)) (f_u64 (word_of_nat (lo_vram m)) []))) w)"
  have "fold ?f ms w = w @ concat (map (\<lambda>m. ?f m []) ms)" for w
    by (rule fold_appends) (simp add: wr_text_def wr_bytes_def)
  then show ?thesis
    by (simp add: list_models_def ms wr_group_def is_finalI field_defs)
qed

lemma final_embed: "fst (embed w opts rid a e c) = Inr msg \<Longrightarrow> is_final rid msg"
  using is_finalI [of 104 _ rid "[]"]
  by (auto simp: embed_def Let_def field_defs split: sum.splits prod.splits if_splits)

lemma final_decide: "fst (decide w opts rid a e c) = Inr msg \<Longrightarrow> is_final rid msg"
proof -
  have "fold (\<lambda>p w. wr_bytes (le_bytes 4 (length p)) w) (ps :: u32 list list) v = v @ concat (map (\<lambda>p. le_bytes 4 (length p)) ps)" for ps v
    by (rule fold_appends) (simp add: wr_bytes_def)
  then show "fst (decide w opts rid a e c) = Inr msg \<Longrightarrow> is_final rid msg"
    by (auto simp: decide_def Let_def wr_group_def field_defs intro!: is_finalI split: sum.splits prod.splits if_splits)
qed

lemma send_stays:
  assumes "True \<notin> set (cl_left c)"
  obtains c' where "send msg c = (True, c')" "cl_out c' = cl_out c @ [msg]" "True \<notin> set (cl_left c')"
    "cl_shm c' = cl_shm c" "cl_queued c' = cl_queued c" "cl_cancel c' = cl_cancel c" "cl_inbox c' = cl_inbox c"
  using assms by (cases "cl_left c") (auto simp: send_def split: bool.splits)

lemma bells_keeps:
  assumes "bells c = (a, c')"
  shows "cl_out c' = cl_out c" "cl_left c' = cl_left c" "cl_shm c' = cl_shm c" "cl_queued c' = cl_queued c"
  using assms by (auto simp: bells_def split: prod.splits)

lemma streamed_front: "next_text s e = (r, s1, e1) \<Longrightarrow> streamed s1 e1 s2 e2 \<Longrightarrow> streamed s e s2 e2"
proof (rotate_tac, induction rule: streamed.induct)
  case (here s e)
  then show ?case using streamed.more [OF streamed.here] by blast
next
  case (more s e s1 e1 r s2 e2)
  then show ?case using streamed.more by blast
qed

text \<open>The pieces of a chat go out as Text messages; a chat that ends by itself has sent the whole answer.\<close>

lemma chat_pieces_effect:
  assumes "chat_pieces w rid s e c = (r, s', e', c')" "True \<notin> set (cl_left c)"
  shows "\<exists>texts. cl_out c' = cl_out c @ map (text_msg rid) texts \<and> True \<notin> set (cl_left c') \<and>
    cl_queued c' = cl_queued c \<and> cl_shm c' = cl_shm c \<and> streamed s e s' e' \<and>
    (r = Inr () \<longrightarrow> (\<exists>n. stream_all n s e = Some (Inr (concat texts), s', e')))"
  using assms
proof (induction w rid s e c arbitrary: r s' e' c' rule: chat_pieces.induct)
  case (1 w rid s e c)
  obtain r1 s1 e1 where nt: "next_text s e = (r1, s1, e1)" by (metis surj_pair)
  have st: "streamed s e s1 e1" using streamed.more [OF streamed.here nt] .
  consider x where "r1 = Inl x" | "r1 = Inr None" | t where "r1 = Inr (Some t)" by (metis not_None_eq sumE)
  then show ?case
  proof cases
    case (1 x)
    then show ?thesis using "1.prems" nt st by (subst (asm) chat_pieces.simps) (auto intro!: exI [of _ "[]"])
  next
    case 2
    then have "stream_all (Suc 0) s e = Some (Inr [], s1, e1)" using nt by simp
    moreover have "r = Inr ()" "s' = s1" "e' = e1" "c' = c"
      using "1.prems"(1) nt 2 by (subst (asm) chat_pieces.simps, simp)+
    ultimately have "\<exists>n. stream_all n s e = Some (Inr (concat []), s', e')" by (intro exI [of _ "Suc 0"]) (simp only: concat.simps)
    then show ?thesis using "1.prems"(2) st \<open>s' = s1\<close> \<open>e' = e1\<close> \<open>c' = c\<close> by (intro exI [of _ "[]"]) (simp only: list.map append_Nil2 simp_thms)
  next
    case (3 t)
    obtain c1 where c1: "send (text_msg rid t) c = (True, c1)" "cl_out c1 = cl_out c @ [text_msg rid t]"
      "True \<notin> set (cl_left c1)" "cl_shm c1 = cl_shm c" "cl_queued c1 = cl_queued c"
      using send_stays [OF "1.prems"(2)] by metis
    obtain asked c2 where b: "bells c1 = (asked, c2)" by fastforce
    note bk = bells_keeps [OF b]
    show ?thesis
    proof (cases "asked = None \<or> cl_cancel c2")
      case True
      then have "r = Inl (Failed Cancelled (lit ''cancelled''))" "s' = s1" "e' = e1" "c' = c2\<lparr>cl_cancel := False\<rparr>"
        using "1.prems"(1) nt 3 c1(1) b by (subst (asm) chat_pieces.simps, simp)+
      then show ?thesis using bk c1 st by (intro exI [of _ "[t]"]) simp
    next
      case False
      then have rec: "chat_pieces w rid s1 e1 c2 = (r, s', e', c')"
        using "1.prems"(1) nt 3 c1(1) b by (subst (asm) chat_pieces.simps) auto
      have left: "True \<notin> set (cl_left c2)" using c1 bk by simp
      obtain texts where ih: "cl_out c' = cl_out c2 @ map (text_msg rid) texts" "True \<notin> set (cl_left c')"
        "cl_queued c' = cl_queued c2" "cl_shm c' = cl_shm c2" "streamed s1 e1 s' e'"
        "r = Inr () \<longrightarrow> (\<exists>n. stream_all n s1 e1 = Some (Inr (concat texts), s', e'))"
        using "1.IH" [OF nt [symmetric] 3 refl refl c1(1) [symmetric] refl b [symmetric] False rec left] by auto
      have "\<exists>n. stream_all n s e = Some (Inr (concat (t # texts)), s', e')" if ok: "r = Inr ()"
      proof -
        obtain n where "stream_all n s1 e1 = Some (Inr (concat texts), s', e')" using ih(6) ok by blast
        then have "stream_all (Suc n) s e = Some (Inr (concat (t # texts)), s', e')" using nt 3 by simp
        then show ?thesis by blast
      qed
      then show ?thesis
        using ih bk c1 streamed_front [OF nt ih(5)] by (intro exI [of _ "t # texts"]) simp
    qed
  qed
qed

lemma chat_answer_effect:
  assumes "chat_answer w opts rid chat e c = (r, e', c')" "True \<notin> set (cl_left c)"
  shows "\<exists>texts. cl_out c' = cl_out c @ map (text_msg rid) texts \<and> True \<notin> set (cl_left c') \<and>
    cl_queued c' = cl_queued c \<and> (\<forall>msg. r = Inr msg \<longrightarrow> is_final rid msg)"
proof -
  have none: ?thesis if "c' = c" "\<exists>x. r = Inl x"
    using that assms(2) by (intro exI [of _ "[]"]) auto
  obtain r1 e1 where rd: "ready w opts (ch_model chat) (ch_keep chat) e = (r1, e1)" by fastforce
  show ?thesis
  proof (cases r1)
    case (Inl x)
    then have "c' = c" "\<exists>x. r = Inl x" using assms(1) rd by (auto simp: chat_answer_def)
      then show ?thesis by (rule none)
  next
    case r1: (Inr u)
    show ?thesis
    proof (cases "attachments w (cl_shm c) (ch_messages chat)")
      case (Inl x)
      then have "c' = c" "\<exists>x. r = Inl x" using assms(1) rd r1 by (auto simp: chat_answer_def)
      then show ?thesis by (rule none)
    next
      case at: (Inr messages)
      let ?req = "\<lparr>rq_messages = messages, rq_think = ch_think chat, rq_max_tokens = ch_max_tokens chat, rq_keep = ch_keep chat\<rparr>"
      obtain t0 e2 where i0: "instant e1 = (t0, e2)" by fastforce
      obtain r3 e3 where ch: "eng_chat (wo_disk w) (wo_see w) (wo_hear w) (wo_template w) (ch_model chat) ?req e2 = (r3, e3)"
        by fastforce
      show ?thesis
      proof (cases r3)
        case (Inl x)
        then have "c' = c" "\<exists>x. r = Inl x" using assms(1) rd r1 at i0 ch by (auto simp: chat_answer_def)
      then show ?thesis by (rule none)
      next
        case (Inr s)
        obtain t1 e4 where i1: "instant e3 = (t1, e4)" by fastforce
        obtain t2 e5 where i2: "instant e4 = (t2, e5)" by fastforce
        obtain r6 s6 e6 c6 where cp: "chat_pieces w rid s e5 c = (r6, s6, e6, c6)" by (metis surj_pair)
        obtain t7 e7 where i3: "instant e6 = (t7, e7)" by fastforce
        have "c' = c6 \<and> (\<forall>msg. r = Inr msg \<longrightarrow> is_final rid msg)"
          using assms(1) rd r1 at i0 ch Inr i1 i2 cp i3 final_done
          by (cases r6) (auto simp: chat_answer_def)
        then show ?thesis using chat_pieces_effect [OF cp assms(2)] by blast
      qed
    qed
  qed
qed

lemma run_effect:
  assumes "run w opts rid ask e c = ((r, e', c'), stop)" "True \<notin> set (cl_left c)"
  shows "\<exists>texts. cl_out c' = cl_out c @ map (text_msg rid) texts \<and> True \<notin> set (cl_left c') \<and>
    cl_queued c' = cl_queued c \<and> (\<forall>msg. r = Inr msg \<longrightarrow> is_final rid msg)"
proof (cases ask)
  case (AskChat chat)
  then have "chat_answer w opts rid chat e c = (r, e', c')" using assms(1) by simp
  then show ?thesis using assms(2) by (rule chat_answer_effect)
next
  case (AskEmbed a)
  then have em: "embed w opts rid a e c = (r, e', c')" using assms by simp
  then have "cl_out c' = cl_out c" "cl_left c' = cl_left c" "cl_queued c' = cl_queued c"
    by (auto simp: embed_def Let_def split: sum.splits prod.splits if_splits)
  then show ?thesis using assms(2) final_embed [of w opts rid a e c] em by (intro exI [of _ "[]"]) simp
next
  case (AskDecide a)
  then have de: "decide w opts rid a e c = (r, e', c')" using assms by simp
  then have "cl_out c' = cl_out c" "cl_left c' = cl_left c" "cl_queued c' = cl_queued c"
    by (auto simp: decide_def Let_def split: sum.splits prod.splits if_splits)
  then show ?thesis using assms(2) final_decide [of w opts rid a e c] de by (intro exI [of _ "[]"]) simp
next
  case AskList
  then show ?thesis using assms final_list [of rid e] by (intro exI [of _ "[]"]) (auto split: prod.splits)
qed (use assms final_done in \<open>auto intro!: exI [of _ "[]"] split: prod.splits sum.splits\<close>)


definition blank_client :: client where
  "blank_client =
     \<lparr>cl_shm = \<lparr>sh_mem = (\<lambda>_. 0), sh_size = DATA\<rparr>, cl_inbox = [], cl_out = [], cl_left = [], cl_queued = False,
      cl_cancel = False\<rparr>"

lemma blank_request: "read_request (request_area (cl_shm blank_client)) = (0, Inl Bad)"
proof -
  have "request_area (cl_shm blank_client) = replicate REQUEST_BYTES 0"
    by (simp add: request_area_def blank_client_def peek_def map_replicate_const)
  moreover have "slice (replicate REQUEST_BYTES (0 :: u8)) 0 8 = Some (replicate 8 0)"
    by (simp add: slice_def REQUEST_BYTES_def)
  ultimately show ?thesis
    by (simp add: read_request_def rd_open_def rd_take_def u16_at_def SCHEMA_def)
qed


text \<open>Draining answers every queued client once, in the queue's order, and touches no other.\<close>

lemma drain_effect:
  assumes "drain w opts e clients queue stop = (e', clients', stop')" "distinct queue"
    and "\<forall>i \<in> set queue. i < length clients \<and> (\<exists>c. clients ! i = Some c \<and> cl_queued c)"
  shows "length clients' = length clients \<and>
    (\<forall>i < length clients. i \<notin> set queue \<longrightarrow> clients' ! i = clients ! i) \<and>
    (\<forall>i \<in> set queue. \<exists>c e0 e1 c' s. clients ! i = Some c \<and> clients' ! i = Some c' \<and>
       answer_request w opts e0 (c\<lparr>cl_queued := False\<rparr>) = (e1, c', s))"
  using assms
proof (induction queue arbitrary: e clients stop)
  case Nil
  then show ?case by simp
next
  case (Cons i queue)
  obtain c where c: "clients ! i = Some c" "cl_queued c" using Cons.prems(3) by auto
  obtain e1 c1 s1 where a: "answer_request w opts e (c\<lparr>cl_queued := False\<rparr>) = (e1, c1, s1)" by (metis surj_pair)
  let ?clients = "clients[i := Some c1]"
  have run: "drain w opts e1 ?clients queue (stop \<or> s1) = (e', clients', stop')"
    using Cons.prems(1) c a by simp
  have il: "i < length clients" and out: "i \<notin> set queue" using Cons.prems(2,3) by auto
  have other: "?clients ! j = clients ! j" if "j \<in> set queue" for j
    using that out by (metis nth_list_update_neq)
  have pre: "\<forall>j \<in> set queue. j < length ?clients \<and> (\<exists>c. ?clients ! j = Some c \<and> cl_queued c)"
    using Cons.prems(3) other by simp
  have ih: "length clients' = length ?clients \<and>
      (\<forall>j < length ?clients. j \<notin> set queue \<longrightarrow> clients' ! j = ?clients ! j) \<and>
      (\<forall>j \<in> set queue. \<exists>c e0 e1 c' s. ?clients ! j = Some c \<and> clients' ! j = Some c' \<and>
         answer_request w opts e0 (c\<lparr>cl_queued := False\<rparr>) = (e1, c', s))"
    using Cons.IH [OF run _ pre] Cons.prems(2) by simp
  have "clients' ! i = Some c1" using ih il out by simp
  then have "\<exists>c e0 e1 c' s. clients ! j = Some c \<and> clients' ! j = Some c' \<and>
      answer_request w opts e0 (c\<lparr>cl_queued := False\<rparr>) = (e1, c', s)" if "j \<in> set (i # queue)" for j
  proof (cases "j = i")
    case True
    then show ?thesis using \<open>clients' ! i = Some c1\<close> c(1) a by blast
  next
    case False
    then have j: "j \<in> set queue" using that by simp
    show ?thesis using bspec [OF conjunct2 [OF conjunct2 [OF ih]] j] unfolding other [OF j] .
  qed
  moreover have "clients' ! j = clients ! j" if "j < length clients" "j \<notin> set (i # queue)" for j
    using ih that by simp
  ultimately show ?case using ih by simp
qed


definition ringing :: "client option list" where
  "ringing = [Some (blank_client\<lparr>cl_inbox := [Bytes [1]]\<rparr>), Some (blank_client\<lparr>cl_inbox := [Bytes [2, 1]]\<rparr>)]"


section \<open>An encoder whose time has come\<close>

lemma call_none: "list_all (\<lambda>x. x = None) (en_calls e) \<Longrightarrow> call e = (Inr (), e\<lparr>en_calls := tl (en_calls e)\<rparr>)"
  by (cases "en_calls e") (auto simp: call_def)

lemma expire_models_succeeds:
  assumes "list_all (\<lambda>x. x = None) (en_calls e)"
  shows "\<exists>v e' ms'. expire_models now ms e freed = ((Inr v, e'), ms') \<and> list_all (\<lambda>x. x = None) (en_calls e')"
  using assms
proof (induction ms arbitrary: e freed)
  case Nil
  then show ?case by auto
next
  case (Cons m ms)
  have tl: "list_all (\<lambda>x. x = None) (en_calls (e\<lparr>en_calls := tl (en_calls e)\<rparr>))"
    using Cons.prems by (cases "en_calls e") auto
  obtain e0 where e0: "(if expired now m \<and> in_vram m then call e else (Inr (), e)) = (Inr (), e0)"
    "list_all (\<lambda>x. x = None) (en_calls e0)"
    using Cons.prems tl call_none [OF Cons.prems] by (cases "expired now m \<and> in_vram m") auto
  obtain v e' ms' where rec: "expire_models now ms e0 (freed \<or> expired now m) = ((Inr v, e'), ms')"
    "list_all (\<lambda>x. x = None) (en_calls e')"
    using Cons.IH [OF e0(2)] by blast
  then show ?case using e0(1) by (auto split: if_splits)
qed

lemma expire_succeeds:
  assumes "list_all (\<lambda>x. x = None) (en_calls e)"
  shows "\<exists>e'. expire e = (Inr (), e') \<and> list_all (\<lambda>x. x = None) (en_calls e')"
proof -
  obtain now e1 where i: "instant e = (now, e1)" by fastforce
  have c1: "list_all (\<lambda>x. x = None) (en_calls e1)" using i assms by (auto simp: instant_def Let_def)
  obtain v e2 ms where m: "expire_models now (en_models e1) e1 False = ((Inr v, e2), ms)"
    and c2: "list_all (\<lambda>x. x = None) (en_calls e2)"
    using expire_models_succeeds [OF c1] by blast
  have "list_all (\<lambda>x. x = None) (tl (en_calls e2))" using c2 by (cases "en_calls e2") auto
  then show ?thesis
    using i m c2 by (cases v) (auto simp: expire_def Let_def call_none)
qed

lemma infer_expired:
  assumes "list_all (\<lambda>x. x = None) (en_calls e)"
    and "\<forall>h \<in> set (en_encoders e). hd_name h = name \<longrightarrow> \<not> hd_pin h \<and> (\<exists>t. hd_until h = Some t \<and> t \<le> en_now e)"
  shows "fst (eng_infer name out e) = Inl (NoModel name)"
proof -
  obtain e' where x: "expire e = (Inr (), e')" using expire_succeeds [OF assms(1)] by blast
  obtain now where now: "en_now e \<le> now" "en_encoders e' = filter (enc_kept now) (en_encoders e)"
    using expire_effect [OF x] by (metis Inr_not_Inl)
  have "hd_name h \<noteq> name" if "h \<in> set (en_encoders e')" for h
    using that now assms(2) by (fastforce simp: enc_kept_def)
  then have "index_of (\<lambda>h. hd_name h = name) (en_encoders e') = None"
    by (auto simp: index_of_def find_None_iff)
  then show ?thesis using x by (simp add: eng_infer_def eng_encoder_def)
qed

text \<open>
  C23. A request for an encoder can be refused because the encoder is loaded. If it is in VRAM with its keep-alive over, but
  no expiry has run since, the daemon finds it and does not load it; the engine's own expiry then drops it, and the
  request ends with the error \<open>NoModel\<close>, although its directory is there and every driver call succeeds. The same
  request repeated loads it.
\<close>

theorem expired_encoder_refused:
  assumes "list_all (\<lambda>x. x = None) (en_calls e)" "\<exists>h \<in> set (en_encoders e). hd_name h = em_model a"
    and "\<forall>h \<in> set (en_encoders e). hd_name h = em_model a \<longrightarrow> \<not> hd_pin h \<and> (\<exists>t. hd_until h = Some t \<and> t \<le> en_now e)"
  shows "fst (embed w opts rid a e c) = Inl (Failed EngineFailed (wo_display w (NoModel (em_model a))))"
proof -
  have "ready w opts (em_model a) None e = (Inr (), e)" using assms(2) by (simp add: ready_def eng_tier_def)
  moreover obtain e' where "eng_infer (em_model a)
      (wo_embed w (em_model a) (em_texts a) (if em_dims a = 0 then None else Some (em_dims a))) e = (Inl (NoModel (em_model a)), e')"
    using infer_expired [OF assms(1,3)] by (metis prod.collapse)
  ultimately show ?thesis by (simp add: embed_def engine_failed_def)
qed

definition old_encoder :: engine where
  "old_encoder =
     (eng_new 100 100 [] [] [])\<lparr>en_now := 50, en_encoders := [\<lparr>hd_name = lit ''e'', hd_bytes = 5, hd_keep = 20, hd_pin = False,
        hd_until = Some 30\<rparr>]\<rparr>"

definition small_embed :: embed_ask where
  "small_embed = \<lparr>em_model = lit ''e'', em_texts = [], em_dims = 0, em_out = \<lparr>blob_offset = 0, blob_length = 0\<rparr>\<rparr>"

theorem expired_encoder_refused_witness:
  "\<forall>w opts c. eng_tier (lit ''e'') old_encoder = Some TierVram \<and>
     fst (embed w opts 1 small_embed old_encoder c) = Inl (Failed EngineFailed (wo_display w (NoModel (lit ''e''))))"
proof (intro allI conjI)
  fix w opts c
  show "eng_tier (lit ''e'') old_encoder = Some TierVram" by (simp add: eng_tier_def old_encoder_def)
  show "fst (embed w opts 1 small_embed old_encoder c) = Inl (Failed EngineFailed (wo_display w (NoModel (lit ''e''))))"
    using expired_encoder_refused [of old_encoder small_embed w opts 1 c]
    by (simp add: old_encoder_def small_embed_def eng_new_def)
qed

text \<open>A loaded encoder is the last of the list, alone with its name, its time counted from its loading.\<close>

lemma load_encoder_held:
  assumes "load_encoder disk name path ld e = (Inr (), e')" "list_all (\<lambda>x. x = None) (en_calls e)"
  shows "\<exists>h. en_encoders e' = en_encoders e @ [h] \<and> hd_name h = name \<and> hd_pin h = ld_pin ld \<and>
    hd_until h = instant_add (en_now e') (ld_keep ld) \<and> list_all (\<lambda>x. x = None) (en_calls e')"
proof -
  obtain need where need: "co_enc_footprint (disk path) = Inr need"
    using assms(1) by (cases "co_enc_footprint (disk path)") (auto simp: load_encoder_def)
  obtain r1 e1 where rm: "room need None e = (r1, e1)" by fastforce
  have r1: "r1 = Inr ()" using assms(1) need rm by (cases r1) (auto simp: load_encoder_def)
  have env: "en_encoders e1 = en_encoders e" using room_frame [OF rm] by (simp add: same_env_def)
  have calls: "list_all (\<lambda>x. x = None) (en_calls e1)"
    using room_calls [OF rm] assms(2) by (auto simp: list_all_iff)
  have tl1: "list_all (\<lambda>x. x = None) (tl (en_calls e1))" using calls by (cases "en_calls e1") auto
  obtain now e2 where i: "instant (e1\<lparr>en_calls := tl (en_calls e1)\<rparr>) = (now, e2)" by fastforce
  have e2: "en_now e2 = now" "en_encoders e2 = en_encoders e1" "en_calls e2 = tl (en_calls e1)"
    using i by (auto simp: instant_def Let_def)
  have "e' = e2\<lparr>en_encoders := en_encoders e2 @ [\<lparr>hd_name = name, hd_bytes = co_enc_bytes (disk path),
               hd_keep = ld_keep ld, hd_pin = ld_pin ld, hd_until = instant_add now (ld_keep ld)\<rparr>]\<rparr>"
    using assms(1) need rm r1 i by (simp add: load_encoder_def call_none [OF calls])
  then show ?thesis using e2 env tl1 by simp
qed

text \<open>
  With a keep-alive of zero no encoder ever answers. The daemon loads it, its time is over as it is loaded, and the
  expiry that precedes every inference drops it: the request fails with \<open>NoModel\<close> after a successful load, every time.
\<close>

theorem keep_alive_zero_refuses:
  assumes "eng_tier (em_model a) e = None" "op_keep opts = 0" "wo_dir w (em_model a) = Some path"
    and "co_encoder (wo_disk w path) = Inr True" "list_all (\<lambda>x. x = None) (en_calls e)"
    and "eng_load (wo_disk w) (em_model a) path (load_default\<lparr>ld_keep := 0\<rparr>) e = (Inr (), e1)" "en_now e1 < INSTANT_END"
  shows "fst (embed w opts rid a e c) = Inl (Failed EngineFailed (wo_display w (NoModel (em_model a))))"
proof -
  let ?name = "em_model a" and ?ld = "load_default\<lparr>ld_keep := 0\<rparr>"
  obtain b e2 where u: "unload ?name e = (b, e2)" by fastforce
  have none2: "?name \<notin> hd_name ` set (en_encoders e2)"
    using u by (auto simp: unload_def Let_def call_def)
  have c2: "list_all (\<lambda>x. x = None) (en_calls e2)"
    using u assms(5) by (cases "en_calls e") (auto simp: unload_def Let_def call_def)
  obtain e3 where x: "expire e2 = (Inr (), e3)" and c3: "list_all (\<lambda>x. x = None) (en_calls e3)"
    using expire_succeeds [OF c2] by blast
  have none3: "?name \<notin> hd_name ` set (en_encoders e3)"
    using expire_effect [OF x] none2 by (metis (no_types, lifting) filter_is_subset image_mono subset_iff)
  have ld: "load_encoder (wo_disk w) ?name path ?ld e3 = (Inr (), e1)"
    using assms(4,6) u x by (simp add: eng_load_def)
  obtain h where h: "en_encoders e1 = en_encoders e3 @ [h]" "hd_name h = ?name" "hd_pin h = ld_pin ?ld"
    "hd_until h = instant_add (en_now e1) (ld_keep ?ld)" "list_all (\<lambda>x. x = None) (en_calls e1)"
    using load_encoder_held [OF ld c3] by blast
  have rdy: "ready w opts ?name None e = (Inr (), e1)"
    using assms(1-3,6) by (simp add: ready_def load_named_def dir_def)
  have old: "\<forall>k \<in> set (en_encoders e1). hd_name k = ?name \<longrightarrow> \<not> hd_pin k \<and> (\<exists>t. hd_until k = Some t \<and> t \<le> en_now e1)"
    using h none3 assms(7) by (auto simp: load_default_def instant_add_def image_iff)
  obtain e' where "eng_infer ?name
      (wo_embed w ?name (em_texts a) (if em_dims a = 0 then None else Some (em_dims a))) e1 = (Inl (NoModel ?name), e')"
    using infer_expired [OF h(5) old] by (metis prod.collapse)
  then show ?thesis using rdy by (simp add: embed_def engine_failed_def)
qed

definition enc_contents :: contents where
  "enc_contents =
     \<lparr>co_encoder = Inr True, co_tokenizer = Inl NoDriver, co_chat = Inl NoDriver, co_footprint = \<lambda>_. Inl NoDriver,
      co_weights = 0, co_table = 0, co_enc_footprint = Inr 5, co_enc_bytes = 5, co_vision = None, co_audio = None,
      co_vision_width = 0, co_audio_width = 0\<rparr>"

definition enc_world :: world where
  "enc_world =
     \<lparr>wo_disk = \<lambda>_. enc_contents, wo_dir = Some, wo_image = \<lambda>_. None, wo_wav = \<lambda>_. None, wo_english = \<lambda>_. True,
      wo_template = \<lambda>_ _ _. [], wo_display = \<lambda>_. [], wo_see = \<lambda>_. Inl NoDriver, wo_hear = \<lambda>_. Inl NoDriver,
      wo_embed = \<lambda>_ _ _. Inr [], wo_decide = \<lambda>_ _ _ _. Inr []\<rparr>"

theorem keep_alive_zero_refuses_witness:
  "fst (embed enc_world \<lparr>op_keep = 0, op_data = 0, op_vram = None, op_host = None, op_socket = []\<rparr> 1 small_embed (eng_new 100 100 [] [] []) blank_client) =
     Inl (Failed EngineFailed [])"
  using keep_alive_zero_refuses [of small_embed "eng_new 100 100 [] [] []" "\<lparr>op_keep = 0, op_data = 0, op_vram = None, op_host = None, op_socket = []\<rparr>" enc_world
      "lit ''e''" "(eng_new 100 100 [] [] [])\<lparr>en_encoders := [\<lparr>hd_name = lit ''e'', hd_bytes = 5, hd_keep = 0,
          hd_pin = False, hd_until = Some 0\<rparr>]\<rparr>" 1 blank_client]
  by (simp add: eng_new_def eng_tier_def small_embed_def enc_world_def enc_contents_def eng_load_def load_encoder_def
      unload_def expire_def instant_def call_def room.simps used_def load_default_def instant_add_def INSTANT_END_def
      Let_def)

end
