(* ===== verification/Probing.thy ===== *)
theory Probing
  imports Prelude
begin

text \<open>
  Open addressing as the tokenizer's two tables use it (\<open>token/mod.rs\<close>): a table of \<open>2 ^ m\<close> slots, a key searched from
  its home slot onwards, round the end, until its entry or a free slot. \<open>probe\<close> is that loop. The locale states what a
  table relies on (a home inside the table, a key for every entry that is not free) and proves lookup and insertion
  once, for the merges and for the words.
\<close>

section \<open>Powers of two\<close>

text \<open>\<open>usize::next_power_of_two\<close>\<close>

function next_power_of_two :: "nat \<Rightarrow> nat" where
  "next_power_of_two n = (if n \<le> 1 then 1 else 2 * next_power_of_two ((n + 1) div 2))"
  by pat_completeness auto
termination
proof (relation "measure (\<lambda>n. n)", goal_cases)
  case (2 n)
  then show ?case by auto
qed simp

declare next_power_of_two.simps [simp del]

lemma next_power_of_two_power: "\<exists>m. next_power_of_two n = 2 ^ m"
proof (induction n rule: next_power_of_two.induct)
  case (1 n)
  show ?case
  proof (cases "n \<le> 1")
    case True
    then show ?thesis by (auto simp: next_power_of_two.simps intro: exI [of _ 0])
  next
    case False
    obtain m where m: "next_power_of_two ((n + 1) div 2) = 2 ^ m" using 1 [OF False] by blast
    have "next_power_of_two n = 2 ^ Suc m" using False m by (simp add: next_power_of_two.simps [of n])
    then show ?thesis by blast
  qed
qed

lemma next_power_of_two_ge: "n \<le> next_power_of_two n"
  by (induction n rule: next_power_of_two.induct) (subst next_power_of_two.simps, auto)

lemma next_power_of_two_pos [simp]: "0 < next_power_of_two n"
  using next_power_of_two_power [of n] by auto

text \<open>The mask of a table of \<open>2 ^ m\<close> slots keeps an index inside it.\<close>

lemma and_mask_mod: "n = 2 ^ m \<Longrightarrow> i AND (n - 1 :: nat) = i mod n"
  using take_bit_eq_mask [of m i] by (simp add: take_bit_eq_mod mask_eq_exp_minus_1)

section \<open>The loop\<close>

text \<open>\<open>None\<close>: the loop never ends.\<close>

partial_function (option) probe :: "(nat \<Rightarrow> bool) \<Rightarrow> nat \<Rightarrow> nat \<Rightarrow> nat option" where
  "probe stop msk i = (if stop i then Some i else probe stop msk ((i + 1) AND msk))"

lemma probe_reaches:
  assumes "n = 2 ^ m" "\<And>c. c < d \<Longrightarrow> \<not> stop ((h + c) mod n)" "stop ((h + d) mod n)"
  shows "probe stop (n - 1) (h mod n) = Some ((h + d) mod n)"
  using assms(2,3)
proof (induction d arbitrary: h)
  case 0
  then show ?case by (simp add: probe.simps)
next
  case (Suc d)
  have "probe stop (n - 1) (Suc h mod n) = Some ((Suc h + d) mod n)"
  proof (rule Suc.IH)
    show "\<not> stop ((Suc h + c) mod n)" if "c < d" for c using Suc.prems(1) [of "Suc c"] that by simp
    show "stop ((Suc h + d) mod n)" using Suc.prems(2) by simp
  qed
  moreover have "(h mod n + 1) AND (n - 1) = Suc h mod n"
    unfolding and_mask_mod [OF assms(1)] by (simp add: mod_Suc_eq)
  moreover have "\<not> stop (h mod n)" using Suc.prems(1) [of 0] by simp
  ultimately show ?case by (subst probe.simps) simp
qed

lemma probe_stops:
  assumes "n = 2 ^ m" "j < n" "stop j" "h < n"
  obtains d where "probe stop (n - 1) h = Some ((h + d) mod n)" "d < n" "stop ((h + d) mod n)"
    "\<And>c. c < d \<Longrightarrow> \<not> stop ((h + c) mod n)"
proof -
  let ?d = "LEAST d. stop ((h + d) mod n)"
  have "(h + (j + n - h)) mod n = j" using assms(2,4) by simp
  then have ex: "stop ((h + (j + n - h) mod n) mod n)" using assms(3) by (metis mod_add_right_eq)
  then have s: "stop ((h + ?d) mod n)" by (rule LeastI)
  have least: "\<not> stop ((h + c) mod n)" if "c < ?d" for c using that not_less_Least by blast
  have "?d \<le> (j + n - h) mod n" using ex by (rule Least_le)
  then have "?d < n" using assms(2) mod_less_divisor [of n "j + n - h"] by linarith
  then show ?thesis
    using that [of ?d] probe_reaches [where stop = stop and h = h and d = ?d, OF assms(1) least s] assms(4) s least by simp
qed

lemma probe_finds:
  assumes "n = 2 ^ m" "j < n" "stop j" "h < n"
  shows "\<exists>i < n. probe stop (n - 1) h = Some i \<and> stop i"
proof -
  have "0 < n" using assms(2) by simp
  then show ?thesis using probe_stops [where stop = stop, OF assms] mod_less_divisor by metis
qed

lemma probe_cong:
  assumes "n = 2 ^ m" "h < n" "\<And>i. i < n \<Longrightarrow> P i = Q i" "j < n" "Q j"
  shows "probe P (n - 1) h = probe Q (n - 1) h"
proof -
  obtain d where d: "probe Q (n - 1) h = Some ((h + d) mod n)" "Q ((h + d) mod n)"
    "\<And>c. c < d \<Longrightarrow> \<not> Q ((h + c) mod n)"
    using probe_stops [where stop = Q, OF assms(1,4,5,2)] by metis
  have "probe P (n - 1) (h mod n) = Some ((h + d) mod n)"
    using d(2,3) assms(1,3) by (intro probe_reaches [OF assms(1)]) simp_all
  then show ?thesis using d(1) assms(2) by simp
qed

section \<open>Tables\<close>

locale probing =
  fixes home :: "nat \<Rightarrow> 'k \<Rightarrow> nat"
    and key_of :: "'e \<Rightarrow> 'k option"
  assumes home_less: "n = 2 ^ m \<Longrightarrow> home n k < n"
begin

text \<open>Where a key's search ends: its entry, or a free slot.\<close>

definition ends :: "'e list \<Rightarrow> 'k \<Rightarrow> nat \<Rightarrow> bool" where
  "ends es k i \<longleftrightarrow> key_of (es ! i) = None \<or> key_of (es ! i) = Some k"

definition seek :: "'e list \<Rightarrow> 'k \<Rightarrow> nat option" where
  "seek es k = probe (ends es k) (length es - 1) (home (length es) k)"

text \<open>The invariant: a power of two of slots, one of them free, and every entry found from its own key.\<close>

definition invar :: "'e list \<Rightarrow> bool" where
  "invar es \<longleftrightarrow> (\<exists>m. length es = 2 ^ m) \<and> (\<exists>i < length es. key_of (es ! i) = None) \<and>
     (\<forall>i < length es. \<forall>k. key_of (es ! i) = Some k \<longrightarrow> seek es k = Some i)"

definition entry :: "'e list \<Rightarrow> 'k \<Rightarrow> 'e option" where
  "entry es k = (case seek es k of None \<Rightarrow> None | Some i \<Rightarrow> if key_of (es ! i) = None then None else Some (es ! i))"

lemma seek_ends:
  assumes "invar es"
  obtains d where "seek es k = Some ((home (length es) k + d) mod length es)" "d < length es"
    "ends es k ((home (length es) k + d) mod length es)"
    "\<And>c. c < d \<Longrightarrow> \<not> ends es k ((home (length es) k + c) mod length es)"
proof -
  obtain m i where m: "length es = 2 ^ m" and i: "i < length es" "key_of (es ! i) = None"
    using assms by (auto simp: invar_def)
  have "ends es k i" using i by (simp add: ends_def)
  then show ?thesis using probe_stops [OF m i(1) _ home_less [OF m]] that unfolding seek_def by metis
qed

lemma seek_Some:
  assumes "invar es"
  obtains i where "seek es k = Some i" "i < length es" "ends es k i"
proof -
  have "0 < length es" using assms by (auto simp: invar_def)
  then show ?thesis using seek_ends [OF assms, of k] that mod_less_divisor by metis
qed

text \<open>A lookup finds the one entry of the key, if there is one.\<close>

lemma entry_Some_iff:
  assumes "invar es"
  shows "entry es k = Some e \<longleftrightarrow> e \<in> set es \<and> key_of e = Some k"
proof
  assume "entry es k = Some e"
  moreover obtain i where "seek es k = Some i" "i < length es" "ends es k i" using seek_Some [OF assms] .
  ultimately show "e \<in> set es \<and> key_of e = Some k" by (auto simp: entry_def ends_def split: if_splits)
next
  assume "e \<in> set es \<and> key_of e = Some k"
  then obtain i where i: "i < length es" "es ! i = e" "key_of (es ! i) = Some k" by (auto simp: in_set_conv_nth)
  then have "seek es k = Some i" using assms by (auto simp: invar_def)
  then show "entry es k = Some e" using i by (simp add: entry_def)
qed

lemma entry_None_iff: "invar es \<Longrightarrow> entry es k = None \<longleftrightarrow> (\<forall>e \<in> set es. key_of e \<noteq> Some k)"
  using entry_Some_iff [of es k] by (metis not_None_eq)

text \<open>An entry put in the free slot its own search ends at keeps every search right.\<close>

lemma seek_update_same:
  assumes "invar es" "seek es k = Some i" "key_of (es ! i) = None" "key_of e = Some k"
  shows "seek (es[i := e]) k = Some i"
proof -
  obtain m where m: "length es = 2 ^ m" using assms(1) by (auto simp: invar_def)
  let ?n = "length es"
  obtain d where d: "seek es k = Some ((home ?n k + d) mod ?n)"
    "\<And>c. c < d \<Longrightarrow> \<not> ends es k ((home ?n k + c) mod ?n)"
    using seek_ends [OF assms(1)] by metis
  have i: "i = (home ?n k + d) mod ?n" using d(1) assms(2) by simp
  have "i < ?n" using i m by simp
  then have stop: "ends (es[i := e]) k ((home ?n k + d) mod ?n)" using i assms(4) by (simp add: ends_def)
  have before: "\<not> ends (es[i := e]) k ((home ?n k + c) mod ?n)" if "c < d" for c
  proof -
    have "(home ?n k + c) mod ?n \<noteq> i" using d(2) [OF that] assms(3) by (auto simp: ends_def)
    then show ?thesis using d(2) [OF that] by (simp add: ends_def)
  qed
  show ?thesis
    using probe_reaches [OF m, of d "ends (es[i := e]) k", OF before stop] home_less [OF m, of k] i by (simp add: seek_def)
qed

lemma seek_update_other:
  assumes "invar es" "seek es k = Some i" "key_of (es ! i) = None" "key_of e = Some k"
    and "j < length es" "key_of (es ! j) = Some l"
  shows "seek (es[i := e]) l = Some j"
proof -
  obtain m where m: "length es = 2 ^ m" using assms(1) by (auto simp: invar_def)
  let ?n = "length es"
  have jl: "seek es l = Some j" using assms(1,5,6) by (auto simp: invar_def)
  have kl: "k \<noteq> l" using jl assms(2,3,6) by auto
  have ij: "i \<noteq> j" using assms(3,6) by auto
  obtain d where d: "seek es l = Some ((home ?n l + d) mod ?n)"
    "\<And>c. c < d \<Longrightarrow> \<not> ends es l ((home ?n l + c) mod ?n)"
    using seek_ends [OF assms(1)] by metis
  have j: "j = (home ?n l + d) mod ?n" using d(1) jl by simp
  have stop: "ends (es[i := e]) l ((home ?n l + d) mod ?n)" using j assms(6) ij by (simp add: ends_def)
  have before: "\<not> ends (es[i := e]) l ((home ?n l + c) mod ?n)" if "c < d" for c
  proof -
    have "(home ?n l + c) mod ?n \<noteq> i" using d(2) [OF that] assms(3) by (auto simp: ends_def)
    then show ?thesis using d(2) [OF that] by (simp add: ends_def)
  qed
  show ?thesis
    using probe_reaches [OF m, of d "ends (es[i := e]) l", OF before stop] home_less [OF m, of l] j by (simp add: seek_def)
qed

lemma insert_invar:
  assumes "invar es" "seek es k = Some i" "key_of (es ! i) = None" "key_of e = Some k"
    and "\<exists>j < length es. j \<noteq> i \<and> key_of (es ! j) = None"
  shows "invar (es[i := e])"
proof -
  have il: "i < length es" using seek_Some [OF assms(1), of k] assms(2) by auto
  have "seek (es[i := e]) l = Some j" if "j < length es" "key_of (es[i := e] ! j) = Some l" for j l
  proof (cases "j = i")
    case True
    then show ?thesis using that il assms(4) seek_update_same [OF assms(1-4)] by simp
  next
    case False
    then show ?thesis using that seek_update_other [OF assms(1-4)] by simp
  qed
  moreover have "\<exists>j < length es. key_of (es[i := e] ! j) = None" using assms(5) by (metis nth_list_update_neq)
  ultimately show ?thesis using assms(1) unfolding invar_def by auto
qed

text \<open>The map a table stands for, and the law of insertion.\<close>

lemma insert_entry:
  assumes "invar es" "seek es k = Some i" "key_of (es ! i) = None" "key_of e = Some k"
    and "\<exists>j < length es. j \<noteq> i \<and> key_of (es ! j) = None"
  shows "entry (es[i := e]) = (entry es)(k \<mapsto> e)"
proof
  fix l
  have il: "i < length es" using seek_Some [OF assms(1), of k] assms(2) by auto
  have new: "entry (es[i := e]) l = Some f \<longleftrightarrow> ((entry es)(k \<mapsto> e)) l = Some f" for f
  proof (cases "l = k")
    case True
    have "es[i := e] ! i = e" using il by simp
    then have "entry (es[i := e]) k = Some e"
      using seek_update_same [OF assms(1-4)] assms(4) by (simp add: entry_def)
    then show ?thesis using True by simp
  next
    case False
    have "f \<in> set (es[i := e]) \<and> key_of f = Some l \<longleftrightarrow> f \<in> set es \<and> key_of f = Some l"
      using il assms(3,4) False
      by (auto simp: in_set_conv_nth nth_list_update)
        (metis option.distinct(1))+
    then show ?thesis using entry_Some_iff [OF insert_invar [OF assms]] entry_Some_iff [OF assms(1)] False by simp
  qed
  show "entry (es[i := e]) l = ((entry es)(k \<mapsto> e)) l"
    using new by (metis not_None_eq)
qed

lemma empty_invar:
  assumes "length es = 2 ^ m" "\<And>e. e \<in> set es \<Longrightarrow> key_of e = None"
  shows "invar es" "entry es = Map.empty"
proof -
  have none: "key_of (es ! i) = None" if "i < length es" for i using assms(2) that by simp
  have "0 < length es" using assms(1) by simp
  then have "\<exists>i < length es. key_of (es ! i) = None" using none by blast
  then show inv: "invar es" using none assms(1) unfolding invar_def by auto
  show "entry es = Map.empty" using entry_None_iff [OF inv] assms(2) by fastforce
qed

end

end
