(* ===== verification/Bpe.thy ===== *)
theory Bpe
  imports Probing Token
begin

text \<open>
  Byte-pair encoding, \<open>token/mod.rs\<close>: the table of merges (\<open>slot\<close>, \<open>find\<close>, \<open>Tokenizer::merge\<close>, the loop of
  \<open>Tokenizer::build\<close> that fills it) and \<open>Tokenizer::merge_all\<close>, which keeps the symbols in linked lists and the merges
  to come in a tournament tree. \<open>bpe\<close> is the textbook algorithm on a plain list; the two agree.
\<close>

section \<open>The table of merges\<close>

definition slot :: "u64 \<Rightarrow> nat \<Rightarrow> nat" where
  "slot key msk = unat (drop_bit 40 (key * 0x9E3779B97F4A7C15)) AND msk"

definition pair_key :: "u32 \<Rightarrow> u32 \<Rightarrow> u64" where
  "pair_key a b = push_bit 32 (ucast a) OR ucast b"

definition quad :: "u32 list \<Rightarrow> nat \<Rightarrow> u32 list" where
  "quad table i = take 4 (drop (4 * i) table)"

text \<open>\<open>None\<close>: \<open>find\<close> does not return (an endless loop, or a table of no entry, where it panics).\<close>

definition tbl_find :: "u32 list \<Rightarrow> u32 \<Rightarrow> u32 \<Rightarrow> (nat \<times> u32 list) option" where
  "tbl_find table a b =
     (if length table < 4 then None
      else let msk = length table div 4 - 1 in
        map_option (\<lambda>i. (4 * i, quad table i))
          (probe (\<lambda>i. quad table i ! 0 = NONE \<or> quad table i ! 0 = a \<and> quad table i ! 1 = b) msk (slot (pair_key a b) msk)))"

definition tok_merge :: "tokenizer \<Rightarrow> u32 \<Rightarrow> u32 \<Rightarrow> (u32 \<times> u32) option option" where
  "tok_merge t a b =
     map_option (\<lambda>(_, e). if e ! 0 = NONE then None else Some (e ! 2, e ! 3)) (tbl_find (tk_merges t) a b)"

text \<open>\<open>Tokenizer::build\<close>'s loop over the merges, each as \<open>[left, right, rank, merged]\<close>: the first of a pair counts.\<close>

definition tbl_put :: "u32 list \<Rightarrow> u32 list \<Rightarrow> u32 list option" where
  "tbl_put key table =
     map_option (\<lambda>(at, e). if e ! 0 = NONE then overwrite table at key else table) (tbl_find table (key ! 0) (key ! 1))"

fun tbl_fill :: "u32 list list \<Rightarrow> u32 list \<Rightarrow> u32 list option" where
  "tbl_fill [] table = Some table"
| "tbl_fill (key # keys) table = Option.bind (tbl_put key table) (tbl_fill keys)"

definition tbl_new :: "nat \<Rightarrow> u32 list" where
  "tbl_new merges = replicate (4 * max (next_power_of_two (2 * merges)) 2) NONE"

section \<open>Merging\<close>

text \<open>The textbook algorithm: the mergeable pair of lowest rank, the leftmost of equals, becomes one symbol.\<close>

fun first_least :: "('a \<Rightarrow> nat) \<Rightarrow> 'a list \<Rightarrow> 'a option" where
  "first_least f [] = None"
| "first_least f (x # xs) = (case first_least f xs of None \<Rightarrow> Some x | Some y \<Rightarrow> Some (if f x \<le> f y then x else y))"

definition del :: "nat \<Rightarrow> 'a list \<Rightarrow> 'a list" where
  "del k xs = take k xs @ drop (Suc k) xs"

definition mergeable :: "(u32 \<Rightarrow> u32 \<Rightarrow> (u32 \<times> u32) option) \<Rightarrow> u32 list \<Rightarrow> nat \<Rightarrow> bool" where
  "mergeable mg xs k \<longleftrightarrow> Suc k < length xs \<and> (case mg (xs ! k) (xs ! Suc k) of None \<Rightarrow> False | Some (r, _) \<Rightarrow> r \<noteq> NONE)"

definition rank_at :: "(u32 \<Rightarrow> u32 \<Rightarrow> (u32 \<times> u32) option) \<Rightarrow> u32 list \<Rightarrow> nat \<Rightarrow> nat" where
  "rank_at mg xs k = (case mg (xs ! k) (xs ! Suc k) of None \<Rightarrow> unat NONE | Some (r, _) \<Rightarrow> unat r)"

definition made_at :: "(u32 \<Rightarrow> u32 \<Rightarrow> (u32 \<times> u32) option) \<Rightarrow> u32 list \<Rightarrow> nat \<Rightarrow> u32" where
  "made_at mg xs k = (case mg (xs ! k) (xs ! Suc k) of None \<Rightarrow> NONE | Some (_, m) \<Rightarrow> m)"

definition best :: "(u32 \<Rightarrow> u32 \<Rightarrow> (u32 \<times> u32) option) \<Rightarrow> u32 list \<Rightarrow> nat option" where
  "best mg xs = first_least (rank_at mg xs) (filter (mergeable mg xs) [0..<length xs])"

lemma first_least_in: "first_least f xs = Some x \<Longrightarrow> x \<in> set xs"
  by (induction xs) (auto split: option.splits if_splits)

lemma best_in: "best mg xs = Some k \<Longrightarrow> mergeable mg xs k"
  unfolding best_def by (drule first_least_in) simp

lemma length_del [simp]: "k < length xs \<Longrightarrow> length (del k xs) = length xs - 1"
  by (simp add: del_def)

function bpe :: "(u32 \<Rightarrow> u32 \<Rightarrow> (u32 \<times> u32) option) \<Rightarrow> u32 list \<Rightarrow> u32 list" where
  "bpe mg xs = (case best mg xs of None \<Rightarrow> xs | Some k \<Rightarrow> bpe mg (del (Suc k) (xs[k := made_at mg xs k])))"
  by pat_completeness auto
termination
  by (relation "measure (length \<circ> snd)") (auto dest!: best_in simp: mergeable_def)

declare bpe.simps [simp del]

text \<open>
  \<open>Work\<close>: positions are \<open>u32\<close> in the source, natural numbers here, and \<open>prev\<close> of the first is \<open>0u32.wrapping_sub(1)\<close>;
  a key of the tree is \<open>rank << 32 | position\<close>, a \<open>u64\<close>.
\<close>

record work =
  wk_ids :: "u32 list"
  wk_next :: "nat list"
  wk_prev :: "nat list"
  wk_tree :: "nat list"
  wk_merged :: "u32 list"

definition KEY_MAX :: nat where "KEY_MAX = 2 ^ 64 - 1"

definition key_at :: "u32 \<Rightarrow> nat \<Rightarrow> nat" where
  "key_at rank i = push_bit 32 (unat rank) OR i"

text \<open>\<open>Work::set\<close>: the loop up the tree, ended early by a node that does not change.\<close>

function lift_key :: "nat list \<Rightarrow> nat \<Rightarrow> nat list" where
  "lift_key tree k =
     (if 1 < k then
        let least = min (tree ! k) (tree ! (k XOR 1)); old = tree ! (k div 2); tree = tree[k div 2 := least]
        in if old = least then tree else lift_key tree (k div 2)
      else tree)"
  by pat_completeness auto
termination
  by (relation "measure snd") auto

declare lift_key.simps [simp del]

definition wk_set :: "nat \<Rightarrow> nat \<times> u32 \<Rightarrow> work \<Rightarrow> work" where
  "wk_set i km w =
     (let k = length (wk_tree w) div 2 + i in
      w\<lparr>wk_merged := (wk_merged w)[i := snd km], wk_tree := lift_key ((wk_tree w)[k := fst km]) k\<rparr>)"

definition get :: "'a list \<Rightarrow> nat \<Rightarrow> 'a option" where
  "get xs i = (if i < length xs then Some (xs ! i) else None)"

text \<open>A lookup's outcome as \<open>(rank << 32 | i, merged)\<close>: \<open>unwrap_or((NONE, NONE))\<close> where there is no merge.\<close>

definition pair_leaf :: "(u32 \<times> u32) option \<Rightarrow> nat \<Rightarrow> nat \<times> u32" where
  "pair_leaf r i = (case r of None \<Rightarrow> (key_at NONE i, NONE) | Some (rank, merged) \<Rightarrow> (key_at rank i, merged))"

text \<open>\<open>Tokenizer::after\<close>; the lookup is a parameter here, \<open>tok_merge t\<close> in \<open>merge_all\<close>.\<close>

definition after :: "(u32 \<Rightarrow> u32 \<Rightarrow> (u32 \<times> u32) option option) \<Rightarrow> work \<Rightarrow> nat \<Rightarrow> (nat \<times> u32) option" where
  "after mg w i =
     map_option (\<lambda>r. pair_leaf r i)
       (case (get (wk_ids w) i, Option.bind (get (wk_next w) i) (get (wk_ids w))) of
          (Some a, Some b) \<Rightarrow> mg a b
        | _ \<Rightarrow> Some None)"

text \<open>The tree above its leaves: \<open>for k in (1..half).rev()\<close>.\<close>

definition tree_fill :: "nat list \<Rightarrow> nat \<Rightarrow> nat list" where
  "tree_fill tree half = fold (\<lambda>k tree. tree[k := min (tree ! (2 * k)) (tree ! (2 * k + 1))]) (rev [1..<half]) tree"

definition set_if :: "(u32 \<Rightarrow> u32 \<Rightarrow> (u32 \<times> u32) option option) \<Rightarrow> nat \<Rightarrow> nat \<Rightarrow> work \<Rightarrow> work option" where
  "set_if mg n k w = (if k < n then map_option (\<lambda>km. wk_set k km w) (after mg w k) else Some w)"

definition merge_step :: "(u32 \<Rightarrow> u32 \<Rightarrow> (u32 \<times> u32) option option) \<Rightarrow> nat \<Rightarrow> work \<Rightarrow> work option" where
  "merge_step mg n w =
     (let i = wk_tree w ! 1 mod 2 ^ 32; j = wk_next w ! i; far = wk_next w ! j;
          w = w\<lparr>wk_ids := (wk_ids w)[i := wk_merged w ! i, j := NONE], wk_next := (wk_next w)[i := far]\<rparr>;
          w = w\<lparr>wk_prev := (if far < length (wk_prev w) then (wk_prev w)[far := i] else wk_prev w)\<rparr>;
          w = wk_set j (KEY_MAX, NONE) w;
          before = wk_prev w ! i
      in Option.bind (set_if mg n before w) (set_if mg n i))"

partial_function (option) merge_loop :: "(u32 \<Rightarrow> u32 \<Rightarrow> (u32 \<times> u32) option option) \<Rightarrow> nat \<Rightarrow> work \<Rightarrow> work option" where
  "merge_loop mg n w =
     (if wk_tree w ! 1 div 2 ^ 32 = unat NONE then Some w else Option.bind (merge_step mg n w) (merge_loop mg n))"

fun first_keys :: "(u32 \<Rightarrow> u32 \<Rightarrow> (u32 \<times> u32) option option) \<Rightarrow> nat \<Rightarrow> u32 list \<Rightarrow> (nat \<times> u32) list option" where
  "first_keys mg i (a # b # ids) =
     Option.bind (mg a b) (\<lambda>r. Option.bind (first_keys mg (Suc i) (b # ids)) (\<lambda>ks.
       Some (pair_leaf r i # ks)))"
| "first_keys mg i ids = Some []"

text \<open>\<open>merge_all\<close> on the symbols of a piece.\<close>

definition merge_ids :: "(u32 \<Rightarrow> u32 \<Rightarrow> (u32 \<times> u32) option option) \<Rightarrow> u32 list \<Rightarrow> u32 list option" where
  "merge_ids mg ids =
     (let n = length ids; half = next_power_of_two n in
      Option.bind (first_keys mg 0 ids) (\<lambda>ks.
      let tree = overwrite (replicate (2 * half) KEY_MAX) half (map fst ks);
          w = \<lparr>wk_ids = ids, wk_next = [1..<n + 1], wk_prev = map (\<lambda>i. (i + 2 ^ 32 - 1) mod 2 ^ 32) [0..<n],
               wk_tree = tree_fill tree half, wk_merged = map snd ks @ [NONE]\<rparr>
      in map_option (\<lambda>w. filter (\<lambda>x. x \<noteq> NONE) (wk_ids w)) (merge_loop mg n w)))"

section \<open>The tournament tree\<close>

definition tree_ok :: "nat list \<Rightarrow> nat \<Rightarrow> bool" where
  "tree_ok tree half \<longleftrightarrow> length tree = 2 * half \<and> 0 < half \<and>
     (\<forall>k. 0 < k \<and> k < half \<longrightarrow> tree ! k = min (tree ! (2 * k)) (tree ! (2 * k + 1)))"

lemma tree_root_le:
  assumes "tree_ok tree half" "0 < k" "k < 2 * half"
  shows "tree ! 1 \<le> tree ! k"
  using assms(2,3)
proof (induction k rule: less_induct)
  case (less k)
  show ?case
  proof (cases "k = 1")
    case False
    then have "tree ! 1 \<le> tree ! (k div 2)" using less by simp
    moreover have "0 < k div 2" "k div 2 < half" using False less.prems by auto
    then have "tree ! (k div 2) = min (tree ! (2 * (k div 2))) (tree ! (2 * (k div 2) + 1))"
      using assms(1) by (simp add: tree_ok_def)
    then have "tree ! (k div 2) \<le> tree ! (2 * (k div 2))" "tree ! (k div 2) \<le> tree ! (2 * (k div 2) + 1)" by simp_all
    then have "tree ! (k div 2) \<le> tree ! k" by (cases "even k") auto
    ultimately show ?thesis by simp
  qed simp
qed

lemma tree_root_leaf:
  assumes "tree_ok tree half"
  obtains i where "i < half" "tree ! 1 = tree ! (half + i)"
proof -
  have leaf: "\<exists>l. half \<le> l \<and> l < 2 * half \<and> tree ! l = tree ! k" if "0 < k" "k < 2 * half" for k
    using that
  proof (induction "2 * half - k" arbitrary: k rule: less_induct)
    case less
    show ?case
    proof (cases "half \<le> k")
      case False
      then have "tree ! k = tree ! (2 * k) \<or> tree ! k = tree ! (2 * k + 1)"
        using assms less.prems unfolding tree_ok_def by (metis linorder_not_less min_def)
      moreover have "\<exists>l. half \<le> l \<and> l < 2 * half \<and> tree ! l = tree ! (2 * k)"
        by (rule less.hyps) (use less.prems False in simp_all)
      moreover have "\<exists>l. half \<le> l \<and> l < 2 * half \<and> tree ! l = tree ! (2 * k + 1)"
        by (rule less.hyps) (use less.prems False in simp_all)
      ultimately show ?thesis by auto
    qed (use less in auto)
  qed
  have "0 < half" using assms by (simp add: tree_ok_def)
  then obtain l where "half \<le> l" "l < 2 * half" "tree ! l = tree ! 1" using leaf [of 1] by auto
  then show ?thesis using that [of "l - half"] by simp
qed

lemma xor_sibling: "k XOR Suc 0 = (if even k then Suc k else k - 1)" for k :: nat
  by (cases "even k") (auto simp: xor_nat_def xor_one_eq even_nat_iff nat_add_distrib nat_diff_distrib')

lemma min_siblings:
  fixes tree :: "nat list"
  shows "min (tree ! k) (tree ! (k XOR 1)) = min (tree ! (2 * (k div 2))) (tree ! (2 * (k div 2) + 1))"
proof (cases "even k")
  case True
  then have "2 * (k div 2) = k" by simp
  then show ?thesis using True by (simp add: xor_sibling)
next
  case False
  then have "2 * (k div 2) + 1 = k" by simp
  then show ?thesis using False by (simp add: xor_sibling min.commute [of "tree ! k"])
qed

text \<open>\<open>Work::set\<close>'s loop restores the tree above a leaf that changed, and no leaf changes.\<close>

lemma lift_key_ok:
  assumes "length tree = 2 * half" "0 < half" "0 < k" "k < 2 * half"
    and "\<And>j. 0 < j \<Longrightarrow> j < half \<Longrightarrow> j \<noteq> k div 2 \<Longrightarrow> tree ! j = min (tree ! (2 * j)) (tree ! (2 * j + 1))"
  shows "tree_ok (lift_key tree k) half \<and> (\<forall>l \<ge> half. lift_key tree k ! l = tree ! l)"
  using assms
proof (induction tree k rule: lift_key.induct)
  case (1 tree k)
  show ?case
  proof (cases "1 < k")
    case False
    then have "lift_key tree k = tree" "k div 2 = 0" by (simp_all add: lift_key.simps)
    then show ?thesis using "1.prems" by (auto simp: tree_ok_def)
  next
    case True
    let ?p = "k div 2"
    let ?least = "min (tree ! k) (tree ! (k XOR 1))"
    let ?tree = "tree[?p := ?least]"
    have p: "0 < ?p" "?p < half" using True "1.prems"(4) by auto
    have here: "?tree ! ?p = min (?tree ! (2 * ?p)) (?tree ! (2 * ?p + 1))"
      using p "1.prems"(1) min_siblings [of tree k] by simp
    have others: "?tree ! j = min (?tree ! (2 * j)) (?tree ! (2 * j + 1))" if "0 < j" "j < half" "j \<noteq> ?p div 2" for j
    proof (cases "j = ?p")
      case False
      have "?p \<noteq> 2 * j" "?p \<noteq> 2 * j + 1" using that(3) by auto
      then show ?thesis using "1.prems"(5) [OF that(1,2) False] False by simp
    qed (use here in simp)
    show ?thesis
    proof (cases "tree ! ?p = ?least")
      case same: True
      then have id: "?tree = tree" by (metis list_update_id)
      have run: "lift_key tree k = ?tree" using True same by (subst lift_key.simps) (simp add: Let_def)
      have "tree ! j = min (tree ! (2 * j)) (tree ! (2 * j + 1))" if "0 < j" "j < half" for j
        using "1.prems"(5) [OF that] here id by (cases "j = ?p") simp_all
      then show ?thesis using run id "1.prems"(1,2) by (auto simp: tree_ok_def)
    next
      case False
      then have run: "lift_key tree k = lift_key ?tree ?p" using True by (subst lift_key.simps) (simp add: Let_def)
      have "tree_ok (lift_key ?tree ?p) half \<and> (\<forall>l \<ge> half. lift_key ?tree ?p ! l = ?tree ! l)"
        using "1.IH" [OF True refl refl refl False] "1.prems"(1,2) p others by simp
      then show ?thesis using run p by simp
    qed
  qed
qed

lemma tree_set_ok:
  assumes "tree_ok tree half" "i < half"
  shows "tree_ok (lift_key (tree[half + i := x]) (half + i)) half"
    and "l < half \<Longrightarrow> lift_key (tree[half + i := x]) (half + i) ! (half + l) = (if l = i then x else tree ! (half + l))"
proof -
  let ?tree = "tree[half + i := x]"
  have "?tree ! j = min (?tree ! (2 * j)) (?tree ! (2 * j + 1))" if "0 < j" "j < half" "j \<noteq> (half + i) div 2" for j
  proof -
    have "half + i \<noteq> 2 * j" "half + i \<noteq> 2 * j + 1" "half + i \<noteq> j" using that by auto
    then show ?thesis using assms(1) that(1,2) by (simp add: tree_ok_def)
  qed
  then have all: "tree_ok (lift_key ?tree (half + i)) half \<and> (\<forall>l \<ge> half. lift_key ?tree (half + i) ! l = ?tree ! l)"
    using assms lift_key_ok [of ?tree half "half + i"] by (simp add: tree_ok_def)
  then show "tree_ok (lift_key ?tree (half + i)) half" by simp
  show "lift_key ?tree (half + i) ! (half + l) = (if l = i then x else tree ! (half + l))" if "l < half"
    using all assms that by (auto simp: tree_ok_def nth_list_update)
qed

lemma tree_fill_ok:
  assumes "length tree = 2 * half" "0 < half"
  shows "tree_ok (tree_fill tree half) half \<and> (\<forall>l \<ge> half. tree_fill tree half ! l = tree ! l)"
proof -
  let ?f = "\<lambda>k (tree :: nat list). tree[k := min (tree ! (2 * k)) (tree ! (2 * k + 1))]"
  have "length (fold ?f (rev [m..<half]) tree) = 2 * half \<and>
      (\<forall>l \<ge> half. fold ?f (rev [m..<half]) tree ! l = tree ! l) \<and>
      (\<forall>j. m \<le> j \<and> j < half \<longrightarrow> fold ?f (rev [m..<half]) tree ! j =
         min (fold ?f (rev [m..<half]) tree ! (2 * j)) (fold ?f (rev [m..<half]) tree ! (2 * j + 1)))"
    if "m \<le> half" "0 < m" for m
    using that
  proof (induction "half - m" arbitrary: m)
    case 0
    then show ?case using assms by simp
  next
    case (Suc d)
    let ?t = "fold ?f (rev [Suc m..<half]) tree"
    have up: "fold ?f (rev [m..<half]) tree = ?f m ?t" using Suc.hyps(2) by (simp add: upt_conv_Cons)
    have ih: "length ?t = 2 * half" "\<forall>l \<ge> half. ?t ! l = tree ! l"
      "\<forall>j. Suc m \<le> j \<and> j < half \<longrightarrow> ?t ! j = min (?t ! (2 * j)) (?t ! (2 * j + 1))"
      using Suc.hyps(1) [of "Suc m"] Suc.hyps(2) by auto
    have "?f m ?t ! j = min (?f m ?t ! (2 * j)) (?f m ?t ! (2 * j + 1))" if "m \<le> j" "j < half" for j
      using that ih Suc.hyps(2) Suc.prems by (cases "j = m") simp_all
    then show ?case unfolding up using ih Suc.hyps(2) Suc.prems by simp
  qed
  from this [of 1] show ?thesis using assms by (auto simp: tree_fill_def tree_ok_def)
qed

section \<open>The reference\<close>

lemma first_least_first:
  fixes x :: nat
  assumes "x \<in> set xs" "sorted_wrt (<) xs" "\<And>y. y \<in> set xs \<Longrightarrow> f x \<le> f y \<and> (y < x \<longrightarrow> f x < f y)"
  shows "first_least f xs = Some x"
  using assms
proof (induction xs)
  case (Cons z xs)
  show ?case
  proof (cases "x = z")
    case True
    have "f x \<le> f y" if "first_least f xs = Some y" for y
      using Cons.prems(3) first_least_in [OF that] by simp
    then show ?thesis using True by (auto split: option.splits)
  next
    case False
    then have x: "x \<in> set xs" using Cons.prems(1) by simp
    then have "first_least f xs = Some x" using Cons by simp
    moreover have "z < x" using Cons.prems(2) x by simp
    then have "f x < f z" using Cons.prems(3) by simp
    ultimately show ?thesis by simp
  qed
qed simp

lemma first_least_None [simp]: "first_least f xs = None \<longleftrightarrow> xs = []"
  by (cases xs) (auto split: option.splits)

lemma mergeable_rank: "mergeable mg xs k \<longleftrightarrow> Suc k < length xs \<and> rank_at mg xs k \<noteq> unat NONE"
  by (auto simp: mergeable_def rank_at_def word_unat_eq_iff split: option.splits prod.splits)

lemma best_eq_Some:
  assumes "mergeable mg xs k"
    and "\<And>l. mergeable mg xs l \<Longrightarrow> rank_at mg xs k \<le> rank_at mg xs l \<and> (l < k \<longrightarrow> rank_at mg xs k < rank_at mg xs l)"
  shows "best mg xs = Some k"
  unfolding best_def
proof (rule first_least_first)
  show "k \<in> set (filter (mergeable mg xs) [0..<length xs])" using assms(1) by (simp add: mergeable_def)
  show "sorted_wrt (<) (filter (mergeable mg xs) [0..<length xs])" by (simp add: sorted_wrt_filter)
qed (use assms(2) in simp)

lemma best_None_iff: "best mg xs = None \<longleftrightarrow> (\<forall>k. \<not> mergeable mg xs k)"
  by (auto simp: best_def filter_empty_conv mergeable_def)

lemma nth_del: "Suc k < length xs \<Longrightarrow> l < length xs - 1 \<Longrightarrow> del (Suc k) xs ! l = (if l \<le> k then xs ! l else xs ! Suc l)"
  by (auto simp: del_def nth_append min_def)

lemma set_del: "set (del k xs) \<subseteq> set xs"
  by (auto simp: del_def dest: in_set_takeD in_set_dropD)

lemma sorted_del: "sorted_wrt R xs \<Longrightarrow> sorted_wrt R (del k xs)"
proof -
  assume s: "sorted_wrt R xs"
  then have "sorted_wrt R (take k xs @ drop k xs)" by simp
  moreover have "set (drop (Suc k) xs) \<subseteq> set (drop k xs)" by (simp add: set_drop_subset_set_drop)
  ultimately show ?thesis using s unfolding del_def sorted_wrt_append by (auto intro: sorted_wrt_drop)
qed

section \<open>The invariant of the loop\<close>

text \<open>
  \<open>ps\<close>, ascending, are the positions still in use; \<open>linked\<close>: the lists link them, and every other symbol is \<open>NONE\<close>.
  \<open>keyed\<close>: the leaf of a position in use, \<open>dirty\<close> ones excepted, holds its merge; every other leaf holds none.
\<close>

definition linked :: "nat \<Rightarrow> nat list \<Rightarrow> work \<Rightarrow> bool" where
  "linked n ps w \<longleftrightarrow> n < 2 ^ 32 \<and> length (wk_ids w) = n \<and> length (wk_next w) = n \<and> length (wk_prev w) = n \<and>
     n \<le> length (wk_merged w) \<and> sorted_wrt (<) ps \<and> set ps \<subseteq> {..<n} \<and>
     (\<forall>p < n. p \<notin> set ps \<longrightarrow> wk_ids w ! p = NONE) \<and>
     (\<forall>k < length ps. wk_next w ! (ps ! k) = (if Suc k < length ps then ps ! Suc k else n) \<and>
        wk_prev w ! (ps ! k) = (if k = 0 then 2 ^ 32 - 1 else ps ! (k - 1)))"

definition syms :: "nat list \<Rightarrow> work \<Rightarrow> u32 list" where
  "syms ps w = map (\<lambda>p. wk_ids w ! p) ps"

definition leaf_rank :: "(u32 \<Rightarrow> u32 \<Rightarrow> (u32 \<times> u32) option) \<Rightarrow> u32 list \<Rightarrow> nat \<Rightarrow> nat" where
  "leaf_rank mg xs k = (if Suc k < length xs then rank_at mg xs k else unat NONE)"

definition leaf_ok :: "(u32 \<Rightarrow> u32 \<Rightarrow> (u32 \<times> u32) option) \<Rightarrow> u32 list \<Rightarrow> nat \<Rightarrow> nat \<Rightarrow> nat \<Rightarrow> u32 \<Rightarrow> bool" where
  "leaf_ok mg xs k p x m \<longleftrightarrow> x div 2 ^ 32 = leaf_rank mg xs k \<and>
     (leaf_rank mg xs k \<noteq> unat NONE \<longrightarrow> x = leaf_rank mg xs k * 2 ^ 32 + p \<and> m = made_at mg xs k)"

definition keyed :: "(u32 \<Rightarrow> u32 \<Rightarrow> (u32 \<times> u32) option) \<Rightarrow> nat set \<Rightarrow> nat list \<Rightarrow> nat \<Rightarrow> work \<Rightarrow> bool" where
  "keyed mg dirty ps half w \<longleftrightarrow> tree_ok (wk_tree w) half \<and>
     (\<forall>k < length ps. ps ! k \<notin> dirty \<longrightarrow> leaf_ok mg (syms ps w) k (ps ! k) (wk_tree w ! (half + ps ! k)) (wk_merged w ! (ps ! k))) \<and>
     (\<forall>p < half. p \<notin> set ps \<longrightarrow> wk_tree w ! (half + p) div 2 ^ 32 = unat NONE)"

lemma key_at_eq:
  assumes "p < 2 ^ 32"
  shows "key_at r p = unat r * 2 ^ 32 + p"
proof -
  have "p = take_bit 32 p" using assms by (simp add: take_bit_nat_eq_self)
  then have "push_bit 32 (unat r) AND p = 0"
    by (metis (no_types, lifting) bit_0_eq bit_and_iff bit_eq_iff bit_push_bit_iff bit_take_bit_iff bot_fun_def bot_apply bot_bool_def linorder_not_less)
  then show ?thesis by (simp add: key_at_def push_bit_eq_mult flip: disjunctive_add_eq_or)
qed

lemma syms_nth [simp]: "k < length ps \<Longrightarrow> syms ps w ! k = wk_ids w ! (ps ! k)" "length (syms ps w) = length ps"
  by (simp_all add: syms_def)

lemma linked_nth: "linked n ps w \<Longrightarrow> k < length ps \<Longrightarrow> ps ! k < n"
  by (drule nth_mem) (auto simp: linked_def)

lemma after_leaf:
  assumes "linked n ps w" "k < length ps"
  obtains x m where "after (\<lambda>a b. Some (mg a b)) w (ps ! k) = Some (x, m)" "leaf_ok mg (syms ps w) k (ps ! k) x m"
proof -
  have p: "ps ! k < n" "n < 2 ^ 32" using assms linked_nth [OF assms] by (auto simp: linked_def)
  then have key: "key_at r (ps ! k) = unat r * 2 ^ 32 + ps ! k" "key_at r (ps ! k) div 2 ^ 32 = unat r" for r
    by (simp_all add: key_at_eq)
  have a: "get (wk_ids w) (ps ! k) = Some (wk_ids w ! (ps ! k))" and nx: "get (wk_next w) (ps ! k) = Some (wk_next w ! (ps ! k))"
    using assms p by (simp_all add: get_def linked_def)
  show ?thesis
  proof (cases "Suc k < length ps")
    case True
    have "get (wk_ids w) (wk_next w ! (ps ! k)) = Some (wk_ids w ! (ps ! Suc k))"
      using assms True linked_nth [OF assms(1) True] by (simp add: get_def linked_def)
    then have "after (\<lambda>a b. Some (mg a b)) w (ps ! k) = Some (pair_leaf (mg (wk_ids w ! (ps ! k)) (wk_ids w ! (ps ! Suc k))) (ps ! k))"
      using a nx by (simp add: after_def)
    then show ?thesis
      using that True key assms(2)
      by (cases "mg (wk_ids w ! (ps ! k)) (wk_ids w ! (ps ! Suc k))")
        (auto simp: leaf_ok_def leaf_rank_def rank_at_def made_at_def pair_leaf_def)
  next
    case False
    have "get (wk_ids w) (wk_next w ! (ps ! k)) = None" using assms False by (simp add: get_def linked_def)
    then have "after (\<lambda>a b. Some (mg a b)) w (ps ! k) = Some (key_at NONE (ps ! k), NONE)" using a nx by (simp add: after_def pair_leaf_def)
    then show ?thesis using that False key by (simp add: leaf_ok_def leaf_rank_def)
  qed
qed

lemma leaf_ok_cong:
  assumes "Suc k < length xs \<longleftrightarrow> Suc l < length ys" "Suc k < length xs \<Longrightarrow> xs ! k = ys ! l \<and> xs ! Suc k = ys ! Suc l"
  shows "leaf_ok mg xs k = leaf_ok mg ys l"
  using assms by (intro ext) (auto simp: leaf_ok_def leaf_rank_def rank_at_def made_at_def)

lemma wk_set_simps [simp]:
  "wk_ids (wk_set i km w) = wk_ids w" "wk_next (wk_set i km w) = wk_next w" "wk_prev (wk_set i km w) = wk_prev w"
  "wk_merged (wk_set i km w) = (wk_merged w)[i := snd km]"
  "length (wk_tree w) = 2 * half \<Longrightarrow> wk_tree (wk_set i km w) = lift_key ((wk_tree w)[half + i := fst km]) (half + i)"
  by (simp_all add: wk_set_def Let_def)

lemma linked_set [simp]: "linked n ps (wk_set i km w) = linked n ps w"
  by (simp add: linked_def)

lemma syms_set [simp]: "syms ps (wk_set i km w) = syms ps w"
  by (simp add: syms_def)

text \<open>A recomputed leaf is clean.\<close>

lemma set_clean:
  assumes "linked n ps w" "keyed mg dirty ps half w" "p \<in> set ps \<or> n \<le> p" "n \<le> half"
  obtains w' where "set_if (\<lambda>a b. Some (mg a b)) n p w = Some w'" "linked n ps w'" "keyed mg (dirty - {p}) ps half w'"
    "wk_ids w' = wk_ids w" "wk_prev w' = wk_prev w"
proof (cases "p < n")
  case False
  then have "p \<notin> set ps" using assms(1) by (auto simp: linked_def)
  then have "keyed mg (dirty - {p}) ps half w"
    using assms(2) unfolding keyed_def by (metis Diff_iff nth_mem singletonD)
  then show ?thesis using that False assms(1) by (simp add: set_if_def)
next
  case True
  then obtain k where k: "k < length ps" "ps ! k = p" using assms(3) by (auto simp: in_set_conv_nth)
  obtain x m where a: "after (\<lambda>a b. Some (mg a b)) w p = Some (x, m)" and ok: "leaf_ok mg (syms ps w) k p x m"
    using after_leaf [OF assms(1) k(1)] k(2) by metis
  let ?w = "wk_set p (x, m) w"
  have t: "tree_ok (wk_tree w) half" using assms(2) by (simp add: keyed_def)
  then have len: "length (wk_tree w) = 2 * half" by (simp add: tree_ok_def)
  have ph: "p < half" using True assms(4) by simp
  have leaf: "wk_tree ?w ! (half + l) = (if l = p then x else wk_tree w ! (half + l))" if "l < half" for l
    using tree_set_ok(2) [OF t ph that] len by simp
  have "leaf_ok mg (syms ps ?w) l (ps ! l) (wk_tree ?w ! (half + ps ! l)) (wk_merged ?w ! (ps ! l))"
    if l: "l < length ps" "ps ! l \<notin> dirty - {p}" for l
  proof -
    have lh: "ps ! l < half" using linked_nth [OF assms(1) l(1)] assms(4) by simp
    show ?thesis
    proof (cases "ps ! l = p")
      case True
      have "distinct ps" using assms(1) by (simp add: linked_def strict_sorted_iff)
      then have "l = k" using True k l(1) nth_eq_iff_index_eq [of ps l k] by simp
      then show ?thesis using True ok leaf [OF lh] \<open>p < n\<close> assms(1) by (simp add: linked_def)
    next
      case False
      then have "ps ! l \<notin> dirty" using l(2) by simp
      then have "leaf_ok mg (syms ps w) l (ps ! l) (wk_tree w ! (half + ps ! l)) (wk_merged w ! (ps ! l))"
        using assms(2) l(1) by (simp add: keyed_def)
      then show ?thesis using False leaf [OF lh] by simp
    qed
  qed
  moreover have "wk_tree ?w ! (half + l) div 2 ^ 32 = unat NONE" if "l < half" "l \<notin> set ps" for l
    using leaf [OF that(1)] that k assms(2) unfolding keyed_def by (metis nth_mem)
  ultimately have "keyed mg (dirty - {p}) ps half ?w"
    using tree_set_ok(1) [OF t ph] len unfolding keyed_def by simp
  then show ?thesis using that [of ?w] True a assms(1) by (simp add: set_if_def)
qed

text \<open>The root names the pair the reference merges, or there is none.\<close>

lemma leaf_rank_mergeable: "k < length xs \<Longrightarrow> mergeable mg xs k \<longleftrightarrow> leaf_rank mg xs k \<noteq> unat NONE"
  by (auto simp: mergeable_rank leaf_rank_def)

lemma rank_at_le: "rank_at mg xs k \<le> unat NONE"
proof -
  have "unat r \<le> unat NONE" for r :: u32 using unat_u32_less [of r] by (simp add: NONE_def del: unat_u32_less)
  then show ?thesis by (auto simp: rank_at_def split: option.splits)
qed

lemma root_leaf:
  assumes "linked n ps w" "keyed mg {} ps half w" "n \<le> half" "mergeable mg (syms ps w) k"
  shows "wk_tree w ! 1 \<le> rank_at mg (syms ps w) k * 2 ^ 32 + ps ! k"
    "wk_tree w ! (half + ps ! k) = rank_at mg (syms ps w) k * 2 ^ 32 + ps ! k"
    "wk_merged w ! (ps ! k) = made_at mg (syms ps w) k"
proof -
  have k: "Suc k < length ps" "leaf_rank mg (syms ps w) k \<noteq> unat NONE" "leaf_rank mg (syms ps w) k = rank_at mg (syms ps w) k"
    using assms(4) leaf_rank_mergeable [of k "syms ps w" mg] by (auto simp: mergeable_def leaf_rank_def)
  have "leaf_ok mg (syms ps w) k (ps ! k) (wk_tree w ! (half + ps ! k)) (wk_merged w ! (ps ! k))"
    using assms(2) k(1) by (simp add: keyed_def)
  then show leaf: "wk_tree w ! (half + ps ! k) = rank_at mg (syms ps w) k * 2 ^ 32 + ps ! k"
    and "wk_merged w ! (ps ! k) = made_at mg (syms ps w) k"
    using k(2,3) by (auto simp: leaf_ok_def)
  have "ps ! k < half" using linked_nth [OF assms(1)] k(1) assms(3) by (meson Suc_lessD order_less_le_trans)
  then show "wk_tree w ! 1 \<le> rank_at mg (syms ps w) k * 2 ^ 32 + ps ! k"
    using tree_root_le [of "wk_tree w" half "half + ps ! k"] assms(2) leaf by (simp add: keyed_def)
qed

lemma root_none:
  assumes "linked n ps w" "keyed mg {} ps half w" "n \<le> half" "wk_tree w ! 1 div 2 ^ 32 = unat NONE"
  shows "best mg (syms ps w) = None"
  unfolding best_None_iff
proof
  fix k
  show "\<not> mergeable mg (syms ps w) k"
  proof
    assume m: "mergeable mg (syms ps w) k"
    then have k: "k < length ps" "rank_at mg (syms ps w) k \<noteq> unat NONE" by (auto simp: mergeable_rank)
    have "ps ! k < 2 ^ 32" using linked_nth [OF assms(1) k(1)] assms(1) by (simp add: linked_def)
    then have "(rank_at mg (syms ps w) k * 2 ^ 32 + ps ! k) div 2 ^ 32 = rank_at mg (syms ps w) k" by simp
    moreover have "wk_tree w ! 1 div 2 ^ 32 \<le> (rank_at mg (syms ps w) k * 2 ^ 32 + ps ! k) div 2 ^ 32"
      using root_leaf(1) [OF assms(1-3) m] by (rule div_le_mono)
    ultimately have "unat NONE \<le> rank_at mg (syms ps w) k" using assms(4) by simp
    then show False using rank_at_le [of mg "syms ps w" k] k(2) by simp
  qed
qed

lemma high_le:
  assumes "a * c + p \<le> b * c + q" "q < (c :: nat)"
  shows "a \<le> b"
proof (rule ccontr)
  assume "\<not> a \<le> b"
  then have "Suc b * c \<le> a * c" by (intro mult_le_mono1) simp
  then show False using assms by simp
qed

lemma root_best:
  assumes "linked n ps w" "keyed mg {} ps half w" "n \<le> half" "wk_tree w ! 1 div 2 ^ 32 \<noteq> unat NONE"
  obtains k where "best mg (syms ps w) = Some k" "Suc k < length ps" "wk_tree w ! 1 mod 2 ^ 32 = ps ! k"
    "wk_merged w ! (ps ! k) = made_at mg (syms ps w) k"
proof -
  let ?xs = "syms ps w"
  have t: "tree_ok (wk_tree w) half" using assms(2) by (simp add: keyed_def)
  obtain p where p: "p < half" "wk_tree w ! 1 = wk_tree w ! (half + p)" using tree_root_leaf [OF t] .
  then have "p \<in> set ps" using assms(2,4) unfolding keyed_def by metis
  then obtain k where k: "k < length ps" "ps ! k = p" by (auto simp: in_set_conv_nth)
  have "wk_tree w ! (half + p) div 2 ^ 32 = leaf_rank mg ?xs k"
    using assms(2) k by (auto simp: keyed_def leaf_ok_def)
  then have m: "mergeable mg ?xs k" using assms(4) p(2) k(1) by (simp add: leaf_rank_mergeable)
  have root: "wk_tree w ! 1 = rank_at mg ?xs k * 2 ^ 32 + ps ! k" using root_leaf(2) [OF assms(1-3) m] p(2) k(2) by simp
  have small: "ps ! l < 2 ^ 32" if "l < length ps" for l using linked_nth [OF assms(1) that] assms(1) by (simp add: linked_def)
  have "best mg ?xs = Some k"
  proof (rule best_eq_Some [OF m])
    fix l
    assume l: "mergeable mg ?xs l"
    then have ll: "l < length ps" by (simp add: mergeable_def)
    have le: "rank_at mg ?xs k * 2 ^ 32 + ps ! k \<le> rank_at mg ?xs l * 2 ^ 32 + ps ! l"
      using root_leaf(1) [OF assms(1-3) l] root by simp
    then have "rank_at mg ?xs k \<le> rank_at mg ?xs l" using small [OF ll] by (rule high_le)
    moreover have "ps ! l < ps ! k" if "l < k"
      using assms(1) that k(1) by (simp add: linked_def sorted_wrt_iff_nth_less)
    ultimately show "rank_at mg ?xs k \<le> rank_at mg ?xs l \<and> (l < k \<longrightarrow> rank_at mg ?xs k < rank_at mg ?xs l)"
      using le by (metis leD le_neq_implies_less nat_add_left_cancel_le)
  qed
  moreover have "wk_tree w ! 1 mod 2 ^ 32 = ps ! k" using root small [OF k(1)] by simp
  ultimately show ?thesis using that m root_leaf(3) [OF assms(1-3) m] by (simp add: mergeable_def)
qed

section \<open>A turn of the loop\<close>

lemma set_del_distinct:
  assumes "distinct xs" "k < length xs"
  shows "set (del k xs) = set xs - {xs ! k}"
proof -
  have "xs = take k xs @ xs ! k # drop (Suc k) xs" using assms(2) by (rule id_take_nth_drop)
  then show ?thesis using assms(1) unfolding del_def
    by (metis Diff_insert_absorb Un_iff Un_insert_right distinct_append distinct.simps(2) disjoint_iff list.set_intros(1) list.simps(15) set_append)
qed

text \<open>The lists and the tree after position \<open>ps ! Suc k\<close> is merged into \<open>ps ! k\<close>, before the two leaves are set again.\<close>

definition cut :: "nat list \<Rightarrow> nat \<Rightarrow> work \<Rightarrow> work" where
  "cut ps k w =
     (let i = ps ! k; j = ps ! Suc k; far = wk_next w ! j;
          w = w\<lparr>wk_ids := (wk_ids w)[i := wk_merged w ! i, j := NONE], wk_next := (wk_next w)[i := far]\<rparr>
      in w\<lparr>wk_prev := (if far < length (wk_prev w) then (wk_prev w)[far := i] else wk_prev w)\<rparr>)"

lemma cut_simps [simp]:
  "wk_ids (cut ps k w) = (wk_ids w)[ps ! k := wk_merged w ! (ps ! k), ps ! Suc k := NONE]"
  "wk_next (cut ps k w) = (wk_next w)[ps ! k := wk_next w ! (ps ! Suc k)]"
  "wk_prev (cut ps k w) = (if wk_next w ! (ps ! Suc k) < length (wk_prev w)
     then (wk_prev w)[wk_next w ! (ps ! Suc k) := ps ! k] else wk_prev w)"
  "wk_tree (cut ps k w) = wk_tree w" "wk_merged (cut ps k w) = wk_merged w"
  by (simp_all add: cut_def Let_def)

lemma linked_distinct: "linked n ps w \<Longrightarrow> distinct ps"
  by (simp add: linked_def strict_sorted_iff)

lemma linked_eq_iff: "linked n ps w \<Longrightarrow> a < length ps \<Longrightarrow> b < length ps \<Longrightarrow> ps ! a = ps ! b \<longleftrightarrow> a = b"
  by (simp add: linked_distinct nth_eq_iff_index_eq)

lemma linked_next:
  "linked n ps w \<Longrightarrow> k < length ps \<Longrightarrow> wk_next w ! (ps ! k) = (if Suc k < length ps then ps ! Suc k else n)"
  by (simp add: linked_def)

lemma linked_prev:
  "linked n ps w \<Longrightarrow> k < length ps \<Longrightarrow> wk_prev w ! (ps ! k) = (if k = 0 then 2 ^ 32 - 1 else ps ! (k - 1))"
  by (simp add: linked_def)

lemma cut_next:
  assumes "linked n ps w" "Suc k < length ps" "l < length ps - 1"
  shows "wk_next (cut ps k w) ! (del (Suc k) ps ! l) = (if Suc l < length ps - 1 then del (Suc k) ps ! Suc l else n)"
proof -
  note ne = linked_eq_iff [OF assms(1)] and nx = linked_next [OF assms(1)]
  have i: "ps ! k < length (wk_next w)" using linked_nth [OF assms(1), of k] assms(1,2) by (simp add: linked_def)
  consider "l < k" | "l = k" | "k < l" by linarith
  then show ?thesis
  proof cases
    case 1
    then have "Suc l < length ps - 1" using assms(2) by linarith
    then show ?thesis using 1 assms(2,3) ne [of l k] nx [of l] by (simp add: nth_del)
  next
    case 2
    then show ?thesis using assms(2,3) nx [of "Suc k"] i by (auto simp: nth_del)
  next
    case 3
    have "Suc l < length ps" using assms(3) by simp
    then show ?thesis using 3 assms(2,3) ne [of "Suc l" k] nx [of "Suc l"] by (auto simp: nth_del)
  qed
qed

lemma cut_prev:
  assumes "linked n ps w" "Suc k < length ps" "l < length ps - 1"
  shows "wk_prev (cut ps k w) ! (del (Suc k) ps ! l) = (if l = 0 then 2 ^ 32 - 1 else del (Suc k) ps ! (l - 1))"
proof -
  note ne = linked_eq_iff [OF assms(1)] and nx = linked_next [OF assms(1)] and pv = linked_prev [OF assms(1)]
  have len: "length (wk_prev w) = n" using assms(1) by (simp add: linked_def)
  have bound: "ps ! m < n" if "m < length ps" for m using linked_nth [OF assms(1) that] .
  show ?thesis
  proof (cases "l = Suc k")
    case True
    then have "Suc (Suc k) < length ps" using assms(3) by simp
    then show ?thesis using True assms(2,3) nx [of "Suc k"] bound [of "Suc (Suc k)"] len by (simp add: nth_del)
  next
    case False
    let ?m = "if l \<le> k then l else Suc l"
    have m: "?m < length ps" "?m \<noteq> Suc (Suc k)" using assms(2,3) False by auto
    then have "wk_prev (cut ps k w) ! (ps ! ?m) = wk_prev w ! (ps ! ?m)"
      using nx [of "Suc k"] ne [of ?m "Suc (Suc k)"] assms(2) bound [OF m(1)] len by (auto simp: nth_list_update)
    also have "\<dots> = (if ?m = 0 then 2 ^ 32 - 1 else ps ! (?m - 1))" using pv m(1) by simp
    also have "\<dots> = (if l = 0 then 2 ^ 32 - 1 else del (Suc k) ps ! (l - 1))"
      using False assms(2,3) by (auto simp: nth_del)
    finally have "wk_prev (cut ps k w) ! (ps ! ?m) = (if l = 0 then 2 ^ 32 - 1 else del (Suc k) ps ! (l - 1))" .
    moreover have "del (Suc k) ps ! l = ps ! ?m" using nth_del [OF assms(2,3)] by simp
    ultimately show ?thesis by (simp only:)
  qed
qed

lemma cut_linked:
  assumes "linked n ps w" "Suc k < length ps"
  shows "linked n (del (Suc k) ps) (cut ps k w)"
proof -
  have set: "set (del (Suc k) ps) = set ps - {ps ! Suc k}" using set_del_distinct [OF linked_distinct [OF assms(1)] assms(2)] .
  have ij: "ps ! k \<noteq> ps ! Suc k" using linked_eq_iff [OF assms(1)] assms(2) by simp
  have "wk_ids (cut ps k w) ! p = NONE" if "p < n" "p \<notin> set (del (Suc k) ps)" for p
  proof (cases "p = ps ! Suc k")
    case False
    then have p: "p \<notin> set ps" using that set by simp
    then have "p \<noteq> ps ! k" using assms(2) by (metis Suc_lessD nth_mem)
    then show ?thesis using False p that(1) assms(1) by (simp add: linked_def)
  qed (use that assms(1) in \<open>simp add: linked_def\<close>)
  moreover have "set (del (Suc k) ps) \<subseteq> {..<n}" using set assms(1) by (auto simp: linked_def)
  moreover have "sorted_wrt (<) (del (Suc k) ps)" using assms(1) by (simp add: linked_def sorted_del)
  ultimately show ?thesis
    using assms cut_next [OF assms] cut_prev [OF assms] unfolding linked_def by simp
qed

lemma cut_syms:
  assumes "linked n ps w" "Suc k < length ps"
  shows "syms (del (Suc k) ps) (cut ps k w) = del (Suc k) ((syms ps w)[k := wk_merged w ! (ps ! k)])"
proof (rule nth_equalityI)
  show "length (syms (del (Suc k) ps) (cut ps k w)) = length (del (Suc k) ((syms ps w)[k := wk_merged w ! (ps ! k)]))"
    using assms(2) by simp
  fix l
  assume "l < length (syms (del (Suc k) ps) (cut ps k w))"
  then have l: "l < length ps - 1" using assms(2) by simp
  let ?m = "if l \<le> k then l else Suc l"
  have m: "?m < length ps" "?m \<noteq> Suc k" using assms(2) l by auto
  note ne = linked_eq_iff [OF assms(1)]
  have i: "ps ! k < length (wk_ids w)" using linked_nth [OF assms(1), of k] assms by (simp add: linked_def)
  have "syms (del (Suc k) ps) (cut ps k w) ! l = wk_ids (cut ps k w) ! (ps ! ?m)" using l assms(2) by (simp add: nth_del)
  also have "\<dots> = (syms ps w)[k := wk_merged w ! (ps ! k)] ! ?m"
    using m ne [of ?m k] ne [of ?m "Suc k"] assms(2) i by (cases "l \<le> k") (auto simp: nth_list_update)
  finally show "syms (del (Suc k) ps) (cut ps k w) ! l = del (Suc k) ((syms ps w)[k := wk_merged w ! (ps ! k)]) ! l"
    using l assms(2) by (simp add: nth_del)
qed

lemma cut_keyed:
  assumes "linked n ps w" "keyed mg {} ps half w" "n \<le> half" "Suc k < length ps"
  shows "keyed mg {wk_prev (cut ps k w) ! (ps ! k), ps ! k} (del (Suc k) ps) half (wk_set (ps ! Suc k) (KEY_MAX, NONE) (cut ps k w))"
proof -
  let ?w = "cut ps k w" and ?ps = "del (Suc k) ps" and ?j = "ps ! Suc k"
  let ?v = "wk_set ?j (KEY_MAX, NONE) ?w"
  have t: "tree_ok (wk_tree w) half" using assms(2) by (simp add: keyed_def)
  then have len: "length (wk_tree ?w) = 2 * half" by (simp add: tree_ok_def)
  have small: "ps ! l < half" if "l < length ps" for l using linked_nth [OF assms(1) that] assms(3) by simp
  have tv: "wk_tree ?v = lift_key ((wk_tree w)[half + ?j := KEY_MAX]) (half + ?j)" using len by simp
  note leaf = tree_set_ok(2) [OF t small [OF assms(4)], of _ KEY_MAX, folded tv]
  have tree: "tree_ok (wk_tree ?v) half" unfolding tv using tree_set_ok(1) [OF t small [OF assms(4)]] .
  note ne = linked_eq_iff [OF assms(1)]
  have set: "set ?ps = set ps - {?j}" using set_del_distinct [OF linked_distinct [OF assms(1)] assms(4)] .
  have before: "wk_prev ?w ! (ps ! k) = (if k = 0 then 2 ^ 32 - 1 else ps ! (k - 1))"
    using cut_prev [OF assms(1,4), of k] assms(4) by (simp add: nth_del split: if_splits)
  have "leaf_ok mg (syms ?ps ?v) l (?ps ! l) (wk_tree ?v ! (half + ?ps ! l)) (wk_merged ?v ! (?ps ! l))"
    if l: "l < length ?ps" "?ps ! l \<notin> {wk_prev ?w ! (ps ! k), ps ! k}" for l
  proof -
    let ?m = "if l \<le> k then l else Suc l"
    have ll: "l < length ps - 1" using l(1) assms(4) by simp
    have pm: "?ps ! l = ps ! ?m" using nth_del [OF assms(4) ll] by simp
    have m: "?m < length ps" "?m \<noteq> k" "?m \<noteq> Suc k" using ll assms(4) l(2) pm by (auto split: if_splits)
    have m1: "Suc ?m \<noteq> k" using l(2) pm before by (cases k) (auto split: if_splits)
    have "leaf_ok mg (syms ps w) ?m (ps ! ?m) (wk_tree w ! (half + ps ! ?m)) (wk_merged w ! (ps ! ?m))"
      using assms(2) m(1) by (simp add: keyed_def)
    moreover have "leaf_ok mg (syms ?ps ?v) l = leaf_ok mg (syms ps w) ?m"
    proof (rule leaf_ok_cong)
      show "Suc l < length (syms ?ps ?v) \<longleftrightarrow> Suc ?m < length (syms ps w)" using ll m assms(4) by auto
      assume "Suc l < length (syms ?ps ?v)"
      then have sl: "Suc l < length ps - 1" using assms(4) by simp
      then show "syms ?ps ?v ! l = syms ps w ! ?m \<and> syms ?ps ?v ! Suc l = syms ps w ! Suc ?m"
        using cut_syms [OF assms(1,4)] m m1 ll assms(4) by (auto simp: nth_del)
    qed
    moreover have "ps ! ?m \<noteq> ?j" using ne [of ?m "Suc k"] m assms(4) by simp
    ultimately show ?thesis using leaf [OF small [OF m(1)]] pm by simp
  qed
  moreover have "wk_tree ?v ! (half + p) div 2 ^ 32 = unat NONE" if "p < half" "p \<notin> set ?ps" for p
    using leaf [OF that(1)] that assms(2) set by (auto simp: keyed_def KEY_MAX_def NONE_def)
  ultimately show ?thesis using tree unfolding keyed_def by blast
qed

lemma merge_step_ok:
  assumes "linked n ps w" "keyed mg {} ps half w" "n \<le> half" "wk_tree w ! 1 div 2 ^ 32 \<noteq> unat NONE"
  obtains k w' where "best mg (syms ps w) = Some k" "Suc k < length ps" "merge_step (\<lambda>a b. Some (mg a b)) n w = Some w'"
    "linked n (del (Suc k) ps) w'" "keyed mg {} (del (Suc k) ps) half w'"
    "syms (del (Suc k) ps) w' = del (Suc k) ((syms ps w)[k := made_at mg (syms ps w) k])"
proof -
  obtain k where k: "best mg (syms ps w) = Some k" "Suc k < length ps" "wk_tree w ! 1 mod 2 ^ 32 = ps ! k"
    "wk_merged w ! (ps ! k) = made_at mg (syms ps w) k"
    using root_best [OF assms] .
  let ?ps = "del (Suc k) ps" and ?p = "wk_prev (cut ps k w) ! (ps ! k)"
  let ?v = "wk_set (ps ! Suc k) (KEY_MAX, NONE) (cut ps k w)"
  have j: "wk_next w ! (ps ! k) = ps ! Suc k" using linked_next [OF assms(1), of k] k(2) by simp
  have step: "merge_step (\<lambda>a b. Some (mg a b)) n w =
      Option.bind (set_if (\<lambda>a b. Some (mg a b)) n ?p ?v) (set_if (\<lambda>a b. Some (mg a b)) n (ps ! k))"
    unfolding merge_step_def Let_def k(3) j cut_def by simp
  have lk: "linked n ?ps ?v" using cut_linked [OF assms(1) k(2)] by simp
  have i: "ps ! k = ?ps ! k" "k < length ?ps" using k(2) by (simp_all add: nth_del)
  have "?p = (if k = 0 then 2 ^ 32 - 1 else ?ps ! (k - 1))"
    using linked_prev [OF cut_linked [OF assms(1) k(2)] i(2)] i(1) by simp
  then have p: "?p \<in> set ?ps \<or> n \<le> ?p"
    using assms(1) i(2) by (cases "k = 0") (auto simp: linked_def)
  obtain v1 where v1: "set_if (\<lambda>a b. Some (mg a b)) n ?p ?v = Some v1" "linked n ?ps v1"
    "keyed mg ({?p, ps ! k} - {?p}) ?ps half v1" "wk_ids v1 = wk_ids ?v"
    by (rule set_clean [OF lk cut_keyed [OF assms(1-3) k(2)] p assms(3)])
  have pk: "ps ! k \<in> set ?ps \<or> n \<le> ps ! k" using i by simp
  obtain v2 where v2: "set_if (\<lambda>a b. Some (mg a b)) n (ps ! k) v1 = Some v2" "linked n ?ps v2"
    "keyed mg ({?p, ps ! k} - {?p} - {ps ! k}) ?ps half v2" "wk_ids v2 = wk_ids v1"
    by (rule set_clean [OF v1(2,3) pk assms(3)])
  have "{?p, ps ! k} - {?p} - {ps ! k} = {}" by blast
  then have "keyed mg {} ?ps half v2" using v2(3) by (simp only:)
  moreover have "syms ?ps v2 = syms ?ps (cut ps k w)" using v2(4) v1(4) by (simp add: syms_def)
  ultimately show ?thesis using that [of k v2] k step v1(1) v2(1,2) cut_syms [OF assms(1) k(2)] by simp
qed

lemma live_filter:
  assumes "linked n ps w"
  shows "filter (\<lambda>x. x \<noteq> NONE) (wk_ids w) = filter (\<lambda>x. x \<noteq> NONE) (syms ps w)"
proof -
  let ?ids = "wk_ids w"
  have n: "length ?ids = n" using assms by (simp add: linked_def)
  have ps: "ps = filter (\<lambda>p. p \<in> set ps) [0..<n]"
  proof (rule strict_sorted_equal)
    show "sorted_wrt (<) ps" using assms by (simp add: linked_def)
    show "sorted_wrt (<) (filter (\<lambda>p. p \<in> set ps) [0..<n])" by (simp add: sorted_wrt_filter)
    show "set ps = set (filter (\<lambda>p. p \<in> set ps) [0..<n])" using assms by (auto simp: linked_def)
  qed
  have "filter (\<lambda>p. ?ids ! p \<noteq> NONE) ps = filter (\<lambda>p. p \<in> set ps \<and> ?ids ! p \<noteq> NONE) [0..<n]"
    by (subst ps) (simp add: conj_commute)
  also have "\<dots> = filter (\<lambda>p. ?ids ! p \<noteq> NONE) [0..<n]"
    by (rule filter_cong) (use assms in \<open>auto simp: linked_def\<close>)
  finally have "filter (\<lambda>p. ?ids ! p \<noteq> NONE) ps = filter (\<lambda>p. ?ids ! p \<noteq> NONE) [0..<n]" .
  then have "filter (\<lambda>x. x \<noteq> NONE) (map ((!) ?ids) [0..<n]) = filter (\<lambda>x. x \<noteq> NONE) (syms ps w)"
    by (simp add: filter_map comp_def syms_def)
  then show ?thesis using n by (metis map_nth)
qed

lemma merge_loop_ok:
  assumes "linked n ps w" "keyed mg {} ps half w" "n \<le> half"
  obtains w' where "merge_loop (\<lambda>a b. Some (mg a b)) n w = Some w'"
    "filter (\<lambda>x. x \<noteq> NONE) (wk_ids w') = filter (\<lambda>x. x \<noteq> NONE) (bpe mg (syms ps w))"
proof -
  have "\<exists>w'. merge_loop (\<lambda>a b. Some (mg a b)) n w = Some w' \<and>
      filter (\<lambda>x. x \<noteq> NONE) (wk_ids w') = filter (\<lambda>x. x \<noteq> NONE) (bpe mg (syms ps w))"
    using assms(1,2)
  proof (induction "length ps" arbitrary: ps w rule: less_induct)
    case less
    show ?case
    proof (cases "wk_tree w ! 1 div 2 ^ 32 = unat NONE")
      case True
      then have "merge_loop (\<lambda>a b. Some (mg a b)) n w = Some w" by (subst merge_loop.simps) simp
      moreover have "bpe mg (syms ps w) = syms ps w"
        using root_none [OF less.prems assms(3) True] by (subst bpe.simps) simp
      ultimately show ?thesis using live_filter [OF less.prems(1)] by simp
    next
      case False
      obtain k w1 where k: "best mg (syms ps w) = Some k" "Suc k < length ps" "merge_step (\<lambda>a b. Some (mg a b)) n w = Some w1"
        "linked n (del (Suc k) ps) w1" "keyed mg {} (del (Suc k) ps) half w1"
        "syms (del (Suc k) ps) w1 = del (Suc k) ((syms ps w)[k := made_at mg (syms ps w) k])"
        using merge_step_ok [OF less.prems assms(3) False] .
      have "merge_loop (\<lambda>a b. Some (mg a b)) n w = merge_loop (\<lambda>a b. Some (mg a b)) n w1"
        using False k(3) by (subst merge_loop.simps) simp
      moreover have "bpe mg (syms ps w) = bpe mg (syms (del (Suc k) ps) w1)" using k(1,6) by (subst bpe.simps) simp
      ultimately show ?thesis using less.hyps [OF _ k(4,5)] k(2) by simp
    qed
  qed
  then show ?thesis using that by blast
qed

text \<open>The state \<open>merge_all\<close> starts from.\<close>

lemma first_keys_ok:
  "\<exists>ks. first_keys (\<lambda>a b. Some (mg a b)) i ids = Some ks \<and> length ks = length ids - 1 \<and>
    (\<forall>k. Suc k < length ids \<longrightarrow> ks ! k = pair_leaf (mg (ids ! k) (ids ! Suc k)) (i + k))"
proof (induction "\<lambda>a b. Some (mg a b)" i ids rule: first_keys.induct)
  case (1 i a b ids)
  obtain ks where ks: "first_keys (\<lambda>a b. Some (mg a b)) (Suc i) (b # ids) = Some ks" "length ks = length ids"
    "\<forall>k. Suc k < length (b # ids) \<longrightarrow> ks ! k = pair_leaf (mg ((b # ids) ! k) ((b # ids) ! Suc k)) (Suc i + k)"
    using "1" by auto
  have "(pair_leaf (mg a b) i # ks) ! k = pair_leaf (mg ((a # b # ids) ! k) ((a # b # ids) ! Suc k)) (i + k)"
    if "Suc k < length (a # b # ids)" for k
    using that ks(3) by (cases k) simp_all
  then show ?case using ks(1,2) by simp
qed simp_all

lemma merge_ids_ok:
  assumes "length ids < 2 ^ 32"
  shows "merge_ids (\<lambda>a b. Some (mg a b)) ids = Some (filter (\<lambda>x. x \<noteq> NONE) (bpe mg ids))"
proof -
  let ?n = "length ids" and ?half = "next_power_of_two (length ids)" and ?M = "\<lambda>a b. Some (mg a b)" and ?ps = "[0..<length ids]"
  obtain ks where ks: "first_keys ?M 0 ids = Some ks" "length ks = ?n - 1"
    "\<And>k. Suc k < ?n \<Longrightarrow> ks ! k = pair_leaf (mg (ids ! k) (ids ! Suc k)) k"
    using first_keys_ok [of mg 0 ids] by auto
  let ?leaves = "overwrite (replicate (2 * ?half) KEY_MAX) ?half (map fst ks)"
  let ?w = "\<lparr>wk_ids = ids, wk_next = [1..<?n + 1], wk_prev = map (\<lambda>i. (i + 2 ^ 32 - 1) mod 2 ^ 32) [0..<?n],
               wk_tree = tree_fill ?leaves ?half, wk_merged = map snd ks @ [NONE]\<rparr>"
  have half: "?n \<le> ?half" by (rule next_power_of_two_ge)
  have len: "length ?leaves = 2 * ?half" using ks(2) half by (simp add: length_overwrite)
  have at: "?leaves ! (?half + p) = (if p < ?n - 1 then fst (ks ! p) else KEY_MAX)" if "p < ?half" for p
    using that ks(2) half by (auto simp: overwrite_def nth_append)
  have tree: "tree_ok (wk_tree ?w) ?half" and leaf: "wk_tree ?w ! (?half + p) = ?leaves ! (?half + p)" for p
    using tree_fill_ok [OF len next_power_of_two_pos] by simp_all
  have "(k + 2 ^ 32 - 1) mod 2 ^ 32 = k - 1" if "0 < k" "k < ?n" for k :: nat
  proof -
    have eq: "k + 2 ^ 32 - 1 = k - 1 + 2 ^ 32" using that(1) by simp
    have "k - 1 < 2 ^ 32" using that(2) assms by simp
    then show ?thesis unfolding eq by simp
  qed
  then have lk: "linked ?n ?ps ?w" using assms ks(2) by (auto simp: linked_def nth_append Suc_le_eq)
  have sy: "syms ?ps ?w = ids" by (simp add: syms_def map_nth)
  have ok: "leaf_ok mg ids k k (wk_tree ?w ! (?half + k)) (wk_merged ?w ! k)" if "k < ?n" for k
  proof (cases "Suc k < ?n")
    case True
    have "k < 2 ^ 32" using that assms by simp
    then show ?thesis
      using True that half ks at [of k] leaf [of k]
      by (cases "mg (ids ! k) (ids ! Suc k)")
        (auto simp: leaf_ok_def leaf_rank_def rank_at_def made_at_def key_at_eq nth_append pair_leaf_def)
  next
    case False
    then show ?thesis using that half at [of k] leaf [of k] by (simp add: leaf_ok_def leaf_rank_def KEY_MAX_def NONE_def)
  qed
  have dead: "wk_tree ?w ! (?half + p) div 2 ^ 32 = unat NONE" if "p < ?half" "p \<notin> set ?ps" for p
    using that at [of p] leaf [of p] by (simp add: KEY_MAX_def NONE_def)
  have key: "keyed mg {} ?ps ?half ?w"
    unfolding keyed_def sy
  proof (intro conjI allI impI tree)
    fix k
    assume "k < length ?ps"
    then have "k < ?n" "?ps ! k = k" by simp_all
    then show "leaf_ok mg ids k (?ps ! k) (wk_tree ?w ! (?half + ?ps ! k)) (wk_merged ?w ! (?ps ! k))"
      using ok [of k] by (simp only:)
  qed (rule dead)
  obtain w' where "merge_loop ?M ?n ?w = Some w'"
    "filter (\<lambda>x. x \<noteq> NONE) (wk_ids w') = filter (\<lambda>x. x \<noteq> NONE) (bpe mg (syms ?ps ?w))"
    using merge_loop_ok [OF lk key half] .
  then show ?thesis using ks(1) sy by (simp add: merge_ids_def Let_def)
qed

section \<open>The table of merges is a map\<close>

lemma slot_less:
  assumes "n = 2 ^ m"
  shows "slot key (n - 1) < n"
  unfolding slot_def and_mask_mod [OF assms] using assms by simp

definition pair_home :: "nat \<Rightarrow> u32 \<times> u32 \<Rightarrow> nat" where
  "pair_home n k = slot (pair_key (fst k) (snd k)) (n - 1)"

definition quad_key :: "u32 list \<Rightarrow> (u32 \<times> u32) option" where
  "quad_key e = (if e ! 0 = NONE then None else Some (e ! 0, e ! 1))"

interpretation pairs: probing pair_home quad_key
  by unfold_locales (use slot_less in \<open>simp add: pair_home_def\<close>)

definition quads :: "u32 list \<Rightarrow> u32 list list" where
  "quads table = map (quad table) [0..<length table div 4]"

lemma quads_nth [simp]: "i < length table div 4 \<Longrightarrow> quads table ! i = quad table i" "length (quads table) = length table div 4"
  by (simp_all add: quads_def)

lemma tbl_find_seek:
  assumes "pairs.invar (quads table)"
  shows "tbl_find table a b = map_option (\<lambda>i. (4 * i, quad table i)) (pairs.seek (quads table) (a, b))"
proof -
  obtain m j where m: "length table div 4 = 2 ^ m" and j: "j < length table div 4" "quad table j ! 0 = NONE"
    using assms by (auto simp: pairs.invar_def quad_key_def split: if_splits)
  have "4 \<le> length table" using j(1) by linarith
  moreover have "probe (\<lambda>i. quad table i ! 0 = NONE \<or> quad table i ! 0 = a \<and> quad table i ! 1 = b)
      (length table div 4 - 1) (slot (pair_key a b) (length table div 4 - 1)) = pairs.seek (quads table) (a, b)"
    unfolding pairs.seek_def pair_home_def quads_nth(2) fst_conv snd_conv
    by (rule probe_cong [OF m slot_less [OF m] _ j(1)]) (use j in \<open>auto simp: pairs.ends_def quad_key_def\<close>)
  ultimately show ?thesis by (simp add: tbl_find_def)
qed

lemma tbl_find_entry:
  assumes "pairs.invar (quads table)"
  obtains at e where "tbl_find table a b = Some (at, e)"
    "(if e ! 0 = NONE then None else Some e) = pairs.entry (quads table) (a, b)"
proof -
  obtain i where i: "pairs.seek (quads table) (a, b) = Some i" "i < length (quads table)"
    using pairs.seek_Some [OF assms] by metis
  then show ?thesis
    using that [of "4 * i" "quad table i"] tbl_find_seek [OF assms] by (simp add: pairs.entry_def quad_key_def)
qed

lemma quads_overwrite:
  assumes "length key = 4" "i < length table div 4"
  shows "quads (overwrite table (4 * i) key) = (quads table)[i := key]"
proof (rule nth_equalityI)
  have len: "length (overwrite table (4 * i) key) = length table" using assms by (simp add: overwrite_def)
  then show "length (quads (overwrite table (4 * i) key)) = length ((quads table)[i := key])" by simp
  fix l
  assume "l < length (quads (overwrite table (4 * i) key))"
  then have l: "l < length table div 4" using len by simp
  have "quad (overwrite table (4 * i) key) l = (if l = i then key else quad table l)"
  proof (rule nth_equalityI)
    show "length (quad (overwrite table (4 * i) key) l) = length (if l = i then key else quad table l)"
      using l len assms(1) by (simp add: quad_def)
    fix x
    assume "x < length (quad (overwrite table (4 * i) key) l)"
    then have x: "x < 4" by (simp add: quad_def)
    show "quad (overwrite table (4 * i) key) l ! x = (if l = i then key else quad table l) ! x"
    proof (cases "l = i")
      case True
      then show ?thesis using x l assms by (simp add: quad_def overwrite_def nth_append)
    next
      case False
      then consider "l < i" | "i < l" by linarith
      then show ?thesis using x l assms False by cases (auto simp: quad_def overwrite_def nth_append)
    qed
  qed
  then show "quads (overwrite table (4 * i) key) ! l = (quads table)[i := key] ! l" using l len by (simp add: nth_list_update)
qed

text \<open>How many slots are in use.\<close>

definition busy :: "u32 list \<Rightarrow> nat" where
  "busy table = card {i. i < length table div 4 \<and> quad table i ! 0 \<noteq> NONE}"

lemma free_slot:
  assumes "Suc (busy table) < length table div 4"
  shows "\<exists>j < length table div 4. j \<noteq> i \<and> quad table j ! 0 = NONE"
proof (rule ccontr)
  assume "\<not> ?thesis"
  have fin: "finite (insert i {i. i < length table div 4 \<and> quad table i ! 0 \<noteq> NONE})" by simp
  from \<open>\<not> ?thesis\<close> have "{..<length table div 4} \<subseteq> insert i {i. i < length table div 4 \<and> quad table i ! 0 \<noteq> NONE}" by auto
  then have "length table div 4 \<le> card (insert i {i. i < length table div 4 \<and> quad table i ! 0 \<noteq> NONE})"
    by (metis (lifting) card_lessThan card_mono [OF fin])
  also have "\<dots> \<le> Suc (busy table)" unfolding busy_def by (simp add: card_insert_if)
  finally show False using assms by simp
qed

lemma tbl_put_ok:
  assumes "pairs.invar (quads table)" "Suc (busy table) < length table div 4" "length key = 4" "key ! 0 \<noteq> NONE"
  obtains table' where "tbl_put key table = Some table'" "pairs.invar (quads table')" "length table' = length table"
    "busy table' \<le> Suc (busy table)"
    "pairs.entry (quads table') = pairs.entry (quads table) ++ (if pairs.entry (quads table) (key ! 0, key ! 1) = None
       then [(key ! 0, key ! 1) \<mapsto> key] else Map.empty)"
proof -
  obtain i where i: "pairs.seek (quads table) (key ! 0, key ! 1) = Some i" "i < length table div 4"
    using pairs.seek_Some [OF assms(1)] by (metis quads_nth(2))
  have find: "tbl_find table (key ! 0) (key ! 1) = Some (4 * i, quad table i)" using tbl_find_seek [OF assms(1)] i(1) by simp
  have entry: "pairs.entry (quads table) (key ! 0, key ! 1) = (if quad table i ! 0 = NONE then None else Some (quad table i))"
    using i by (simp add: pairs.entry_def quad_key_def)
  show ?thesis
  proof (cases "quad table i ! 0 = NONE")
    case False
    then show ?thesis using that [of table] find assms(1) entry by (simp add: tbl_put_def)
  next
    case True
    let ?t = "overwrite table (4 * i) key"
    have len: "length ?t = length table" using assms(3) i(2) by (simp add: overwrite_def)
    note q = quads_overwrite [OF assms(3) i(2)]
    have key: "quad_key key = Some (key ! 0, key ! 1)" "quad_key (quads table ! i) = None"
      using assms(4) True i(2) by (simp_all add: quad_key_def)
    have free: "\<exists>j < length (quads table). j \<noteq> i \<and> quad_key (quads table ! j) = None"
      using free_slot [OF assms(2), of i] by (auto simp: quad_key_def)
    have "{l. l < length ?t div 4 \<and> quad ?t l ! 0 \<noteq> NONE} \<subseteq> insert i {l. l < length table div 4 \<and> quad table l ! 0 \<noteq> NONE}"
    proof
      fix l
      assume "l \<in> {l. l < length ?t div 4 \<and> quad ?t l ! 0 \<noteq> NONE}"
      then have l: "l < length table div 4" "quads ?t ! l ! 0 \<noteq> NONE" using len by simp_all
      then show "l \<in> insert i {l. l < length table div 4 \<and> quad table l ! 0 \<noteq> NONE}" unfolding q by (cases "l = i") simp_all
    qed
    then have "busy ?t \<le> card (insert i {l. l < length table div 4 \<and> quad table l ! 0 \<noteq> NONE})"
      unfolding busy_def by (intro card_mono) simp_all
    also have "\<dots> \<le> Suc (busy table)" unfolding busy_def by (simp add: card_insert_if)
    finally show ?thesis
      using that [of ?t] find True len entry pairs.insert_invar [OF assms(1) i(1) key(2,1) free]
        pairs.insert_entry [OF assms(1) i(1) key(2,1) free] by (simp add: tbl_put_def q)
  qed
qed

text \<open>The merge of a pair by a plain list of rules: the first that names it.\<close>

definition rule_for :: "u32 list list \<Rightarrow> u32 \<Rightarrow> u32 \<Rightarrow> (u32 \<times> u32) option" where
  "rule_for keys a b = map_option (\<lambda>k. (k ! 2, k ! 3)) (find (\<lambda>k. k ! 0 = a \<and> k ! 1 = b) keys)"

definition rules_ok :: "u32 list list \<Rightarrow> bool" where
  "rules_ok keys \<longleftrightarrow> list_all (\<lambda>k. length k = 4 \<and> k ! 0 \<noteq> NONE) keys"

lemma tbl_fill_ok:
  assumes "pairs.invar (quads table)" "busy table + length keys < length table div 4" "rules_ok keys"
  obtains table' where "tbl_fill keys table = Some table'" "pairs.invar (quads table')"
    "\<And>a b. pairs.entry (quads table') (a, b) = (case pairs.entry (quads table) (a, b) of
       Some e \<Rightarrow> Some e | None \<Rightarrow> find (\<lambda>k. k ! 0 = a \<and> k ! 1 = b) keys)"
proof -
  have "\<exists>table'. tbl_fill keys table = Some table' \<and> pairs.invar (quads table') \<and>
    (\<forall>a b. pairs.entry (quads table') (a, b) = (case pairs.entry (quads table) (a, b) of
       Some e \<Rightarrow> Some e | None \<Rightarrow> find (\<lambda>k. k ! 0 = a \<and> k ! 1 = b) keys))"
    using assms
  proof (induction keys arbitrary: table)
    case Nil
    then show ?case by (auto split: option.splits)
  next
    case (Cons key keys)
    obtain t1 where t1: "tbl_put key table = Some t1" "pairs.invar (quads t1)" "length t1 = length table"
      "busy t1 \<le> Suc (busy table)"
      "pairs.entry (quads t1) = pairs.entry (quads table) ++ (if pairs.entry (quads table) (key ! 0, key ! 1) = None
         then [(key ! 0, key ! 1) \<mapsto> key] else Map.empty)"
      using tbl_put_ok [OF Cons.prems(1), of key] Cons.prems(2,3) by (auto simp: rules_ok_def)
    have "busy t1 + length keys < length t1 div 4" using t1(3,4) Cons.prems(2) by simp
    moreover have "rules_ok keys" using Cons.prems(3) by (simp add: rules_ok_def)
    ultimately obtain t2 where t2: "tbl_fill keys t1 = Some t2" "pairs.invar (quads t2)"
      "\<forall>a b. pairs.entry (quads t2) (a, b) = (case pairs.entry (quads t1) (a, b) of
         Some e \<Rightarrow> Some e | None \<Rightarrow> find (\<lambda>k. k ! 0 = a \<and> k ! 1 = b) keys)"
      using Cons.IH [OF t1(2)] by blast
    have "pairs.entry (quads t2) (a, b) = (case pairs.entry (quads table) (a, b) of
         Some e \<Rightarrow> Some e | None \<Rightarrow> find (\<lambda>k. k ! 0 = a \<and> k ! 1 = b) (key # keys))" for a b
      unfolding spec [OF spec [OF t2(3)]] t1(5)
      by (cases "pairs.entry (quads table) (a, b)") (auto simp: map_add_def split: option.splits)
    then show ?case using t1(1) t2(1,2) by auto
  qed
  then show ?thesis using that by blast
qed

lemma tbl_new_ok:
  "pairs.invar (quads (tbl_new n))" "pairs.entry (quads (tbl_new n)) = Map.empty" "busy (tbl_new n) = 0"
  "length (tbl_new n) div 4 = max (next_power_of_two (2 * n)) 2"
proof -
  show len: "length (tbl_new n) div 4 = max (next_power_of_two (2 * n)) 2" by (simp add: tbl_new_def)
  obtain m where "next_power_of_two (2 * n) = 2 ^ m" using next_power_of_two_power by blast
  then obtain l where l: "length (quads (tbl_new n)) = 2 ^ l" using len by (metis max_def power_one_right quads_nth(2))
  have none: "quad (tbl_new n) i ! 0 = NONE" if "i < length (tbl_new n) div 4" for i
    using that by (simp add: quad_def tbl_new_def)
  then have "quad_key e = None" if "e \<in> set (quads (tbl_new n))" for e
    using that by (auto simp: quads_def quad_key_def)
  then show "pairs.invar (quads (tbl_new n))" "pairs.entry (quads (tbl_new n)) = Map.empty"
    using pairs.empty_invar [OF l] by auto
  have "{i. i < length (tbl_new n) div 4 \<and> quad (tbl_new n) i ! 0 \<noteq> NONE} = {}" using none by auto
  then show "busy (tbl_new n) = 0" unfolding busy_def by (simp only: card.empty)
qed

text \<open>The table \<open>build\<close> fills looks a pair up as the list of rules does.\<close>

lemma built_table:
  assumes "rules_ok keys"
  obtains table where "tbl_fill keys (tbl_new (length keys)) = Some table"
    "\<And>t. tk_merges t = table \<Longrightarrow> tok_merge t = (\<lambda>a b. Some (rule_for keys a b))"
proof -
  have "busy (tbl_new (length keys)) + length keys < length (tbl_new (length keys)) div 4"
    using tbl_new_ok(3,4) [of "length keys"] next_power_of_two_ge [of "2 * length keys"] by auto
  then obtain table where t: "tbl_fill keys (tbl_new (length keys)) = Some table" "pairs.invar (quads table)"
    "\<And>a b. pairs.entry (quads table) (a, b) = find (\<lambda>k. k ! 0 = a \<and> k ! 1 = b) keys"
    using tbl_fill_ok [OF tbl_new_ok(1) _ assms] tbl_new_ok(2) by auto
  have "tok_merge u a b = Some (rule_for keys a b)" if "tk_merges u = table" for u a b
  proof -
    obtain at e where "tbl_find table a b = Some (at, e)" "(if e ! 0 = NONE then None else Some e) = pairs.entry (quads table) (a, b)"
      using tbl_find_entry [OF t(2)] by metis
    then have e: "tbl_find table a b = Some (at, e)"
      "find (\<lambda>k. k ! 0 = a \<and> k ! 1 = b) keys = (if e ! 0 = NONE then None else Some e)"
      using t(3) [of a b] by simp_all
    show ?thesis unfolding tok_merge_def rule_for_def that e by simp
  qed
  then show ?thesis using that t(1) by blast
qed

end
