(* ===== verification/Unicode.thy ===== *)
theory Unicode
  imports Utf8
begin

text \<open>
  \<open>token/unicode.rs\<close>: which characters are letters, and Normalization Form C. The tables of \<open>unicode.bin\<close> are a
  parameter, as is the table of the standard library's \<open>char::is_numeric\<close> above ASCII; \<open>char::is_whitespace\<close> is
  written out. Characters are numbers, as everywhere in the development.
\<close>

section \<open>Tables\<close>

type_synonym triple = "nat \<times> nat \<times> nat"

record tables =
  tb_letters :: "triple list"
  tb_classes :: "triple list"
  tb_decomposed :: "triple list"
  tb_composed :: "triple list"
  tb_numbers :: "nat \<Rightarrow> bool"

text \<open>\<open>tables\<close>: numbers of seven bits a byte, the last one below \<open>0x80\<close>; a number cut by the end of the data counts.\<close>

fun varint :: "bytes \<Rightarrow> nat \<times> bytes" where
  "varint [] = (0, [])"
| "varint (b # bs) =
     (if b < 0x80 then (unat b, bs) else let (v, rest) = varint bs in (unat (b AND 0x7F) + 128 * v, rest))"

fun varint_triples :: "nat \<Rightarrow> bytes \<Rightarrow> triple list \<times> bytes" where
  "varint_triples 0 bs = ([], bs)"
| "varint_triples (Suc n) bs =
     (let (a, bs) = varint bs; (b, bs) = varint bs; (c, bs) = varint bs; (ts, bs) = varint_triples n bs in ((a, b, c) # ts, bs))"

definition uni_section :: "bytes \<Rightarrow> triple list \<times> bytes" where
  "uni_section bs = (let (n, bs) = varint bs in varint_triples n bs)"

text \<open>The first two sections' ranges are gaps from the last one's end, the third's characters from the last one.\<close>

fun gap_ranges :: "nat \<Rightarrow> triple list \<Rightarrow> triple list" where
  "gap_ranges prev [] = []"
| "gap_ranges prev ((a, b, c) # ts) = (prev + a, prev + a + b, c) # gap_ranges (prev + a + b + 1) ts"

fun gap_chars :: "nat \<Rightarrow> triple list \<Rightarrow> triple list" where
  "gap_chars prev [] = []"
| "gap_chars prev ((gap, a, b) # ts) = (prev + gap, a, b) # gap_chars (prev + gap + 1) ts"

definition uni_tables :: "bytes \<Rightarrow> (nat \<Rightarrow> bool) \<Rightarrow> tables" where
  "uni_tables bin numbers =
     (let (letters, bs) = uni_section bin; (classes, bs) = uni_section bs; (decomposed, bs) = uni_section bs;
          (composed, _) = uni_section bs
      in \<lparr>tb_letters = gap_ranges 0 letters, tb_classes = gap_ranges 0 classes, tb_decomposed = gap_chars 0 decomposed,
          tb_composed = composed, tb_numbers = numbers\<rparr>)"

text \<open>\<open>lookup\<close>: the tables are sorted, so \<open>partition_point\<close> is the length of the prefix.\<close>

definition tbl_lookup :: "triple list \<Rightarrow> nat \<Rightarrow> nat" where
  "tbl_lookup ranges c =
     (case dropWhile (\<lambda>(_, upto, _). upto < c) ranges of [] \<Rightarrow> 0 | (first, _, v) # _ \<Rightarrow> if first \<le> c then v else 0)"

section \<open>Classes of characters\<close>

definition kind_of :: "tables \<Rightarrow> scalar \<Rightarrow> nat" where
  "kind_of tb c =
     (if 65 \<le> c \<and> c \<le> 90 then 1 else if 97 \<le> c \<and> c \<le> 122 then 2 else if c < 128 then 0 else tbl_lookup (tb_letters tb) c)"

definition is_letter :: "tables \<Rightarrow> scalar \<Rightarrow> bool" where
  "is_letter tb c \<longleftrightarrow> 1 \<le> kind_of tb c \<and> kind_of tb c \<le> 3"

definition is_numeric :: "tables \<Rightarrow> scalar \<Rightarrow> bool" where
  "is_numeric tb c \<longleftrightarrow> 48 \<le> c \<and> c \<le> 57 \<or> 127 < c \<and> tb_numbers tb c"

definition is_whitespace :: "scalar \<Rightarrow> bool" where
  "is_whitespace c \<longleftrightarrow> c = 32 \<or> 9 \<le> c \<and> c \<le> 13 \<or> c = 0x85 \<or> c = 0xA0 \<or> c = 0x1680 \<or> 0x2000 \<le> c \<and> c \<le> 0x200A \<or>
     c = 0x2028 \<or> c = 0x2029 \<or> c = 0x202F \<or> c = 0x205F \<or> c = 0x3000"

section \<open>Normalization Form C\<close>

definition S0 :: nat where "S0 = 0xAC00"
definition L0 :: nat where "L0 = 0x1100"
definition V0 :: nat where "V0 = 0x1161"
definition T0 :: nat where "T0 = 0x11A7"
definition LN :: nat where "LN = 19"
definition VN :: nat where "VN = 21"
definition TN :: nat where "TN = 28"

lemmas hangul_defs = S0_def L0_def V0_def T0_def LN_def VN_def TN_def

text \<open>\<open>None\<close>: the recursion does not end (tables that decompose a character into itself).\<close>

partial_function (option) decompose :: "tables \<Rightarrow> nat \<Rightarrow> nat list option" where
  "decompose tb c =
     (if S0 \<le> c \<and> c < S0 + LN * VN * TN then
        (let s = c - S0 in
         Some ([L0 + s div (VN * TN), V0 + s mod (VN * TN) div TN] @ (if s mod TN \<noteq> 0 then [T0 + s mod TN] else [])))
      else case find (\<lambda>(x, _). x = c) (tb_decomposed tb) of
        None \<Rightarrow> Some [c]
      | Some (_, a, b) \<Rightarrow>
          Option.bind (decompose tb a) (\<lambda>xs.
            if b \<noteq> 0 then Option.bind (decompose tb b) (\<lambda>ys. Some (xs @ ys)) else Some xs))"

definition compose :: "tables \<Rightarrow> nat \<Rightarrow> nat \<Rightarrow> nat option" where
  "compose tb a b =
     (if L0 \<le> a \<and> a < L0 + LN \<and> V0 \<le> b \<and> b < V0 + VN then Some (S0 + ((a - L0) * VN + b - V0) * TN)
      else if S0 \<le> a \<and> a < S0 + LN * VN * TN \<and> (a - S0) mod TN = 0 \<and> T0 + 1 \<le> b \<and> b < T0 + TN then Some (a + b - T0)
      else map_option (\<lambda>(_, _, c). c) (find (\<lambda>(x, y, _). x = a \<and> y = b) (tb_composed tb)))"

fun decompose_all :: "tables \<Rightarrow> nat list \<Rightarrow> nat list option" where
  "decompose_all tb [] = Some []"
| "decompose_all tb (c # cs) =
     Option.bind (decompose tb c) (\<lambda>xs. Option.bind (decompose_all tb cs) (\<lambda>ys. Some (xs @ ys)))"

text \<open>Canonical order: each run of marks, up to the next starter, sorted by class, equals kept in place.\<close>

function reorder :: "('a \<Rightarrow> nat) \<Rightarrow> 'a list \<Rightarrow> 'a list" where
  "reorder cc cs =
     (case cs of [] \<Rightarrow> []
      | c # rest \<Rightarrow>
          if cc c = 0 then c # reorder cc rest
          else sort_key cc (takeWhile (\<lambda>x. cc x \<noteq> 0) cs) @ reorder cc (dropWhile (\<lambda>x. cc x \<noteq> 0) cs))"
  by pat_completeness auto
termination
proof (relation "measure (length \<circ> snd)", goal_cases)
  case (3 cc cs c rest)
  then show ?case using length_dropWhile_le [of "\<lambda>x. cc x \<noteq> 0" rest] by (simp add: less_Suc_eq_le)
qed simp_all

declare reorder.simps [simp del]

text \<open>The last loop: \<open>starter\<close> is the place of the last starter written, \<open>prev\<close> (\<open>last\<close> in the source) the class of the last character written.\<close>

definition recompose_step ::
  "tables \<Rightarrow> nat \<times> nat \<Rightarrow> nat list \<times> nat option \<times> nat \<Rightarrow> nat list \<times> nat option \<times> nat" where
  "recompose_step tb ccc st = (case (ccc, st) of ((c, cc), (out, starter, prev)) \<Rightarrow>
     (let found = (case starter of
            None \<Rightarrow> None
          | Some s \<Rightarrow> if length out = s + 1 \<or> prev \<noteq> 0 \<and> prev < cc
                      then map_option (\<lambda>x. (s, x)) (compose tb (out ! s) c) else None)
      in case found of
           Some (s, composite) \<Rightarrow> (out[s := composite], starter, prev)
         | None \<Rightarrow> (out @ [c], if cc = 0 then Some (length out) else starter, cc)))"

definition nfc :: "tables \<Rightarrow> str \<Rightarrow> str option" where
  "nfc tb s =
     (if list_all (\<lambda>c. c < 0x300) s then Some s
      else map_option (\<lambda>d.
        let marked = reorder snd (map (\<lambda>c. (c, tbl_lookup (tb_classes tb) c)) d);
            (out, _, _) = fold (recompose_step tb) marked ([], None, 0)
        in filter is_scalar out) (decompose_all tb s))"

section \<open>Hangul\<close>

definition syllable :: "nat \<Rightarrow> bool" where
  "syllable c \<longleftrightarrow> S0 \<le> c \<and> c < S0 + LN * VN * TN"

definition jamo :: "nat \<Rightarrow> nat list" where
  "jamo c = (let s = c - S0 in
     [L0 + s div (VN * TN), V0 + s mod (VN * TN) div TN] @ (if s mod TN = 0 then [] else [T0 + s mod TN]))"

lemma decompose_syllable: "syllable c \<Longrightarrow> decompose tb c = Some (jamo c)"
  by (subst decompose.simps) (simp add: syllable_def jamo_def Let_def)

lemma decompose_plain:
  assumes "\<not> syllable c" "\<forall>e \<in> set (tb_decomposed tb). fst e \<noteq> c"
  shows "decompose tb c = Some [c]"
proof -
  have "find (\<lambda>(x, _). x = c) (tb_decomposed tb) = None" using assms(2) by (auto simp: find_None_iff)
  then show ?thesis using assms(1) by (subst decompose.simps) (auto simp: syllable_def)
qed

text \<open>A leading consonant, a vowel and a trailing consonant compose to the syllable they come from.\<close>

lemma compose_jamo:
  assumes "syllable c"
  shows "compose tb (L0 + (c - S0) div (VN * TN)) (V0 + (c - S0) mod (VN * TN) div TN) = Some (c - (c - S0) mod TN)"
    and "(c - S0) mod TN \<noteq> 0 \<Longrightarrow> compose tb (c - (c - S0) mod TN) (T0 + (c - S0) mod TN) = Some c"
proof -
  obtain s where s: "c = S0 + s" "s < LN * VN * TN" using assms by (metis add_diff_inverse_nat add_less_cancel_left not_le syllable_def)
  have parts: "s = (s div (VN * TN) * VN + s mod (VN * TN) div TN) * TN + s mod TN"
  proof -
    have "s mod (VN * TN) mod TN = s mod TN" by (simp add: mod_mod_cancel)
    then have "s mod (VN * TN) = s mod (VN * TN) div TN * TN + s mod TN" by (metis div_mult_mod_eq)
    then have "s = s div (VN * TN) * (VN * TN) + (s mod (VN * TN) div TN * TN + s mod TN)" by (metis div_mult_mod_eq)
    then show ?thesis by (simp add: algebra_simps)
  qed
  have l: "s div (VN * TN) < LN" using s(2) by (simp add: hangul_defs less_mult_imp_div_less)
  have v: "s mod (VN * TN) div TN < VN" by (simp add: hangul_defs less_mult_imp_div_less)
  have "S0 + (s div (VN * TN) * VN + s mod (VN * TN) div TN) * TN = S0 + s - s mod TN" using parts by linarith
  then show "compose tb (L0 + (c - S0) div (VN * TN)) (V0 + (c - S0) mod (VN * TN) div TN) = Some (c - (c - S0) mod TN)"
    using l v s(1) by (simp add: compose_def)
  assume t: "(c - S0) mod TN \<noteq> 0"
  define q where "q = s - s mod TN"
  have le: "s mod TN \<le> s" by simp
  have q: "c - (c - S0) mod TN = S0 + q" "(c - S0) mod TN = s mod TN" "q + s mod TN = s"
    using s(1) le by (simp_all add: q_def)
  have "q mod TN = 0" unfolding q_def by (simp add: minus_mod_eq_mult_div)
  moreover have "q < LN * VN * TN" using s(2) q(3) by linarith
  moreover have "s mod TN < TN" by (simp add: TN_def)
  moreover have "\<not> S0 + q < L0 + LN" by (simp add: hangul_defs)
  moreover have "S0 + q + (T0 + s mod TN) - T0 = c" using s(1) q(3) by simp
  ultimately have "compose tb (S0 + q) (T0 + s mod TN) = Some c" using t q(2) by (simp add: compose_def)
  then show "compose tb (c - (c - S0) mod TN) (T0 + (c - S0) mod TN) = Some c" unfolding q(1) unfolding q(2) .
qed

text \<open>What the tables of \<open>unicode.bin\<close> say of Hangul: nothing decomposes a letter of it, and its combining classes are zero.\<close>

definition hangul_plain :: "tables \<Rightarrow> nat \<Rightarrow> bool" where
  "hangul_plain tb c \<longleftrightarrow> (\<forall>x \<in> set (jamo c). tbl_lookup (tb_classes tb) x = 0 \<and> (\<forall>e \<in> set (tb_decomposed tb). fst e \<noteq> x))"

lemma jamo_range: "syllable c \<Longrightarrow> x \<in> set (jamo c) \<Longrightarrow> 0x300 \<le> x \<and> \<not> syllable x \<and> is_scalar x"
proof -
  assume c: "syllable c" and x: "x \<in> set (jamo c)"
  have "(c - S0) div (VN * TN) < LN" using c by (simp add: syllable_def hangul_defs) linarith
  moreover have "(c - S0) mod (VN * TN) div TN < VN" by (simp add: hangul_defs less_mult_imp_div_less)
  moreover have "(c - S0) mod TN < TN" by (simp add: TN_def)
  ultimately show ?thesis using x by (auto simp: jamo_def Let_def hangul_defs syllable_def is_scalar_def split: if_splits)
qed

lemma decompose_plain_all:
  "list_all (\<lambda>x. decompose tb x = Some [x]) xs \<Longrightarrow> decompose_all tb xs = Some xs"
  by (induction xs) auto

lemma reorder_starters: "list_all (\<lambda>x. cc x = 0) xs \<Longrightarrow> reorder cc xs = xs"
  by (induction xs) (simp_all add: reorder.simps)

lemma recompose_jamo:
  assumes "syllable c"
  shows "fst (fold (recompose_step tb) (map (\<lambda>x. (x, 0)) (jamo c)) ([], None, 0)) = [c]"
  using compose_jamo [OF assms, of tb]
  by (auto simp: jamo_def Let_def recompose_step_def)

text \<open>
  Hangul in Normalization Form C: a syllable stays as it is, and the letters it decomposes into become it again,
  whatever the tables hold for other scripts.
\<close>

theorem nfc_hangul:
  assumes "syllable c" "hangul_plain tb c"
  shows "nfc tb [c] = Some [c] \<and> nfc tb (jamo c) = Some [c]"
proof -
  have plain: "decompose_all tb (jamo c) = Some (jamo c)"
    using assms by (intro decompose_plain_all) (auto simp: list_all_iff hangul_plain_def dest: jamo_range intro!: decompose_plain)
  have one: "decompose_all tb [c] = Some (jamo c)" using decompose_syllable [OF assms(1)] by simp
  have big: "\<not> c < 0x300" "\<not> list_all (\<lambda>x. x < 0x300) (jamo c)" "is_scalar c"
    using assms(1) by (auto simp: syllable_def hangul_defs jamo_def Let_def is_scalar_def)
  have zero: "map (\<lambda>x. (x, tbl_lookup (tb_classes tb) x)) (jamo c) = map (\<lambda>x. (x, 0)) (jamo c)"
    using assms(2) by (simp add: hangul_plain_def)
  have order: "reorder snd (map (\<lambda>x. (x, 0 :: nat)) (jamo c)) = map (\<lambda>x. (x, 0)) (jamo c)"
    by (rule reorder_starters) (simp add: list_all_iff)
  obtain st where st: "fold (recompose_step tb) (map (\<lambda>x. (x, 0)) (jamo c)) ([], None, 0) = ([c], st)"
    using recompose_jamo [OF assms(1), of tb] by (metis prod.collapse)
  show ?thesis using plain one big st unfolding nfc_def by (simp add: zero order Let_def split: prod.splits)
qed

definition no_tables :: tables where
  "no_tables = \<lparr>tb_letters = [], tb_classes = [], tb_decomposed = [], tb_composed = [], tb_numbers = \<lambda>_. False\<rparr>"

theorem nfc_hangul_witness: "nfc no_tables [0xAC01] = Some [0xAC01] \<and> nfc no_tables [0x1100, 0x1161, 0x11A8] = Some [0xAC01]"
  using nfc_hangul [of "0xAC01" no_tables]
  by (simp add: syllable_def hangul_plain_def no_tables_def jamo_def Let_def hangul_defs tbl_lookup_def)

end
