(* ===== verification/Pieces.thy ===== *)
theory Pieces
  imports Unicode
begin

text \<open>
  \<open>token/bytes.rs\<close>: how byte-level BPE cuts a text into pieces. The source matches three regular expressions by hand;
  here they are also written as expressions with a backtracking semantics, and the hand-written matchers agree with
  them. The source counts lengths in bytes, always at ends of characters; the model counts characters.
\<close>

section \<open>Bytes and characters\<close>

definition printable :: "nat \<Rightarrow> bool" where
  "printable b \<longleftrightarrow> 33 \<le> b \<and> b \<le> 126 \<or> 0xA1 \<le> b \<and> b \<le> 0xAC \<or> 0xAE \<le> b \<and> b \<le> 0xFF"

definition byte_of :: "scalar \<Rightarrow> u8 option" where
  "byte_of c =
     (if c \<le> 255 then (if printable c then Some (byte c) else None)
      else if c \<le> 323 then
        (let others = filter (\<lambda>b. \<not> printable b) [0..<256] in
         if c - 256 < length others then Some (byte (others ! (c - 256))) else None)
      else None)"

datatype char_class = Letter | Number | Space | Other

definition class_of :: "tables \<Rightarrow> scalar \<Rightarrow> char_class" where
  "class_of tb c =
     (if is_letter tb c then Letter else if is_numeric tb c then Number else if is_whitespace c then Space else Other)"

section \<open>The matchers\<close>

datatype pattern = Gpt2 | Cl100k | O200k

text \<open>\<open>run\<close>: at most \<open>most\<close> characters (\<open>None\<close> for \<open>usize::MAX\<close>).\<close>

definition run_len :: "str \<Rightarrow> nat option \<Rightarrow> (scalar \<Rightarrow> bool) \<Rightarrow> nat" where
  "run_len s most keep = length (takeWhile keep (case most of None \<Rightarrow> s | Some m \<Rightarrow> take m s))"

definition ascii_lower :: "scalar \<Rightarrow> scalar" where
  "ascii_lower c = (if 65 \<le> c \<and> c \<le> 90 then c + 32 else c)"

definition lowered :: "bool \<Rightarrow> scalar \<Rightarrow> scalar" where
  "lowered ci c = (if ci then ascii_lower c else c)"

definition contraction :: "str \<Rightarrow> bool \<Rightarrow> nat option" where
  "contraction s ci =
     (case s of
        q # a # rest \<Rightarrow>
          (let low = lowered ci in
           if q \<noteq> 39 then None
           else if low a \<in> {115, 116, 109, 100} then Some 2
           else case rest of
                  b # _ \<Rightarrow> if low a \<in> {114, 118} \<and> low b = 101 \<or> low a = 108 \<and> low b = 108 then Some 3 else None
                | [] \<Rightarrow> None)
      | _ \<Rightarrow> None)"

definition spaces :: "str \<Rightarrow> nat" where
  "spaces s = (let n = run_len s None is_whitespace in if n < length s \<and> 1 < n then n - 1 else n)"

definition gpt2 :: "tables \<Rightarrow> str \<Rightarrow> nat" where
  "gpt2 tb s =
     (case contraction s False of
        Some n \<Rightarrow> n
      | None \<Rightarrow>
          let skip = (case s of c # _ \<Rightarrow> if c = 32 then 1 else 0 | [] \<Rightarrow> 0) in
          case drop skip s of
            c # _ \<Rightarrow> if class_of tb c \<noteq> Space then skip + run_len (drop skip s) None (\<lambda>d. class_of tb d = class_of tb c) else spaces s
          | [] \<Rightarrow> spaces s)"

text \<open>\<open>rest\<close>, the last alternatives of the two other patterns.\<close>

definition newline :: "scalar \<Rightarrow> bool" where
  "newline c \<longleftrightarrow> c = 13 \<or> c = 10"

definition rest_len :: "tables \<Rightarrow> str \<Rightarrow> bool \<Rightarrow> bool \<Rightarrow> nat" where
  "rest_len tb s symbols slash =
     (if symbols then
        let skip = (case s of c # _ \<Rightarrow> if c = 32 then 1 else 0 | [] \<Rightarrow> 0);
            n = skip + run_len (drop skip s) None (\<lambda>c. class_of tb c = Other)
        in n + run_len (drop n s) None (\<lambda>c. newline c \<or> slash \<and> c = 47)
      else
        let ws = take (run_len s None is_whitespace) s in
        if \<exists>c \<in> set ws. newline c then length (dropWhile (\<lambda>c. \<not> newline c) (rev ws)) else spaces s)"

definition cl100k :: "tables \<Rightarrow> str \<Rightarrow> nat" where
  "cl100k tb s =
     (case contraction s True of
        Some n \<Rightarrow> n
      | None \<Rightarrow>
          let c0 = (case s of c # _ \<Rightarrow> c | [] \<Rightarrow> 32); c1 = (case s of _ # c # _ \<Rightarrow> Some c | _ \<Rightarrow> None) in
          case class_of tb c0 of
            Letter \<Rightarrow> run_len s None (is_letter tb)
          | Number \<Rightarrow> run_len s (Some 3) (is_numeric tb)
          | c \<Rightarrow>
              if \<not> newline c0 \<and> (case c1 of Some d \<Rightarrow> is_letter tb d | None \<Rightarrow> False)
              then 1 + run_len (drop 1 s) None (is_letter tb)
              else rest_len tb s (c = Other \<or> c0 = 32 \<and> (case c1 of Some d \<Rightarrow> class_of tb d = Other | None \<Rightarrow> False)) False)"

text \<open>\<open>word\<close>: the kinds of the letters and marks at the start.\<close>

fun first_some :: "('a \<Rightarrow> 'b option) \<Rightarrow> 'a list \<Rightarrow> 'b option" where
  "first_some f [] = None"
| "first_some f (x # xs) = (case f x of None \<Rightarrow> first_some f xs | Some y \<Rightarrow> Some y)"

definition word_len :: "tables \<Rightarrow> str \<Rightarrow> bool \<Rightarrow> nat option" where
  "word_len tb s upper_first =
     (let ks = takeWhile (\<lambda>k. k \<noteq> 0) (map (kind_of tb) s);
          most = length (takeWhile (\<lambda>k. k \<noteq> 2) ks);
          upto = (\<lambda>a. a + length (takeWhile (\<lambda>k. 2 \<le> k) (drop a ks)))
      in if upper_first then (if 0 < most then Some (upto most) else None)
         else first_some (\<lambda>a. if a < upto a then Some (upto a) else None) (rev [0..<Suc most]))"

definition o200k :: "tables \<Rightarrow> str \<Rightarrow> nat" where
  "o200k tb s =
     (let c0 = (case s of c # _ \<Rightarrow> c | [] \<Rightarrow> 32); c1 = (case s of _ # c # _ \<Rightarrow> Some c | _ \<Rightarrow> None);
          prefix = (if \<not> newline c0 \<and> \<not> is_letter tb c0 \<and> \<not> is_numeric tb c0 then [1] else []);
          tries = [(upper, start). upper \<leftarrow> [False, True], start \<leftarrow> prefix @ [0]]
      in case first_some (\<lambda>(upper, start). map_option (\<lambda>n. start + n) (word_len tb (drop start s) upper)) tries of
           Some n \<Rightarrow> n + (case contraction (drop n s) True of None \<Rightarrow> 0 | Some m \<Rightarrow> m)
         | None \<Rightarrow>
             if is_numeric tb c0 then run_len s (Some 3) (is_numeric tb)
             else rest_len tb s (class_of tb c0 = Other \<or> c0 = 32 \<and> (case c1 of Some d \<Rightarrow> class_of tb d = Other | None \<Rightarrow> False)) True)"

fun piece_len :: "tables \<Rightarrow> pattern \<Rightarrow> str \<Rightarrow> nat" where
  "piece_len tb Gpt2 s = gpt2 tb s"
| "piece_len tb Cl100k s = cl100k tb s"
| "piece_len tb O200k s = o200k tb s"

section \<open>Every match takes something\<close>

lemma run_len_pos: "s \<noteq> [] \<Longrightarrow> keep (hd s) \<Longrightarrow> most \<noteq> Some 0 \<Longrightarrow> 0 < run_len s most keep"
  by (cases s; cases most; auto simp: run_len_def take_Cons split: nat.splits)

lemma spaces_pos: "s \<noteq> [] \<Longrightarrow> is_whitespace (hd s) \<Longrightarrow> 0 < spaces s"
  using run_len_pos [of s is_whitespace None] by (auto simp: spaces_def Let_def)

lemma space_class [simp]: "class_of tb 32 = Space" "\<not> is_letter tb 32" "\<not> is_numeric tb 32" "is_whitespace 32"
  by (simp_all add: class_of_def is_letter_def is_numeric_def is_whitespace_def kind_of_def)

lemma newline_class: "newline c \<Longrightarrow> class_of tb c = Space \<and> \<not> is_letter tb c \<and> \<not> is_numeric tb c \<and> is_whitespace c"
  by (auto simp: newline_def class_of_def is_letter_def is_numeric_def is_whitespace_def kind_of_def)

lemma class_Space: "class_of tb c = Space \<longleftrightarrow> \<not> is_letter tb c \<and> \<not> is_numeric tb c \<and> is_whitespace c"
  by (simp add: class_of_def)

lemma class_Other: "class_of tb c = Other \<longleftrightarrow> \<not> is_letter tb c \<and> \<not> is_numeric tb c \<and> \<not> is_whitespace c"
  by (simp add: class_of_def)

lemma contraction_pos: "contraction s ci = Some n \<Longrightarrow> 0 < n"
  by (auto simp: contraction_def Let_def split: list.splits if_splits)

lemma rest_len_pos:
  assumes "s \<noteq> []" "symbols \<Longrightarrow> class_of tb (hd s) = Other \<or> hd s = 32" "\<not> symbols \<Longrightarrow> is_whitespace (hd s)"
  shows "0 < rest_len tb s symbols slash"
proof (cases symbols)
  case True
  obtain c cs where s: "s = c # cs" using assms(1) by (cases s) auto
  show ?thesis
  proof (cases "c = 32")
    case False
    then have "0 < run_len s None (\<lambda>c. class_of tb c = Other)" using assms(2) True s by (intro run_len_pos) simp_all
    then show ?thesis using True s False by (simp add: rest_len_def Let_def)
  qed (use True s in \<open>simp add: rest_len_def Let_def\<close>)
next
  case False
  have "dropWhile (\<lambda>c. \<not> newline c) (rev ws) \<noteq> []" if "\<exists>c \<in> set ws. newline c" for ws
    using that by (simp add: dropWhile_eq_Nil_conv)
  then show ?thesis using False spaces_pos [OF assms(1) assms(3) [OF False]] by (auto simp: rest_len_def Let_def)
qed

lemma gpt2_pos: "s \<noteq> [] \<Longrightarrow> 0 < gpt2 tb s"
proof -
  assume "s \<noteq> []"
  then obtain c cs where s: "s = c # cs" by (cases s) auto
  show ?thesis
  proof (cases "contraction s False")
    case None
    have "0 < run_len (c # cs) None (\<lambda>d. class_of tb d = class_of tb c)" by (rule run_len_pos) simp_all
    moreover have "0 < spaces (c # cs)" if "is_whitespace c" using that by (intro spaces_pos) simp_all
    ultimately show ?thesis
      using None s by (auto simp: gpt2_def Let_def class_Space split: list.splits)
  qed (auto simp: gpt2_def dest: contraction_pos)
qed

lemma cl100k_pos: "s \<noteq> [] \<Longrightarrow> 0 < cl100k tb s"
proof -
  assume "s \<noteq> []"
  then obtain c cs where s: "s = c # cs" by (cases s) auto
  show ?thesis
  proof (cases "contraction s True")
    case None
    have "0 < run_len (c # cs) None (is_letter tb)" if "class_of tb c = Letter"
      using that by (intro run_len_pos) (auto simp: class_of_def split: if_splits)
    moreover have "0 < run_len (c # cs) (Some 3) (is_numeric tb)" if "class_of tb c = Number"
      using that by (intro run_len_pos) (auto simp: class_of_def split: if_splits)
    moreover have "0 < rest_len tb (c # cs) symbols False"
      if "class_of tb c = Space \<or> class_of tb c = Other \<and> symbols" "symbols \<Longrightarrow> class_of tb c = Other \<or> c = 32" for symbols
      using that by (intro rest_len_pos) (auto simp: class_Space)
    ultimately show ?thesis
      using None s by (cases "class_of tb c") (auto simp: cl100k_def Let_def)
  qed (auto simp: cl100k_def dest: contraction_pos)
qed

lemma first_some_in: "first_some f xs = Some y \<Longrightarrow> \<exists>x \<in> set xs. f x = Some y"
  by (induction xs) (auto split: option.splits)

lemma first_some_None: "first_some f xs = None \<longleftrightarrow> (\<forall>x \<in> set xs. f x = None)"
  by (induction xs) (auto split: option.splits)

lemma word_len_pos: "word_len tb s upper = Some n \<Longrightarrow> 0 < n"
  by (auto simp: word_len_def Let_def split: if_splits dest!: first_some_in)

text \<open>A letter or mark starts a word.\<close>

lemma word_len_kind:
  assumes "kind_of tb (hd s) \<noteq> 0" "s \<noteq> []"
  shows "word_len tb s False \<noteq> None \<or> word_len tb s True \<noteq> None"
proof -
  obtain c cs where s: "s = c # cs" using assms(2) by (cases s) auto
  show ?thesis
  proof (cases "kind_of tb c = 2")
    case True
    then have "word_len tb s False = Some (length (takeWhile (\<lambda>k. 2 \<le> k) (takeWhile (\<lambda>k. k \<noteq> 0) (map (kind_of tb) s))))"
      using s by (simp add: word_len_def Let_def)
    then show ?thesis by simp
  qed (use assms(1) s in \<open>simp add: word_len_def Let_def\<close>)
qed

lemma o200k_pos: "s \<noteq> [] \<Longrightarrow> 0 < o200k tb s"
proof -
  assume ne: "s \<noteq> []"
  then obtain c cs where s: "s = c # cs" by (cases s) auto
  let ?prefix = "if \<not> newline c \<and> \<not> is_letter tb c \<and> \<not> is_numeric tb c then [1 :: nat] else []"
  let ?tries = "[(upper, start). upper \<leftarrow> [False, True], start \<leftarrow> ?prefix @ [0]]"
  let ?f = "\<lambda>(upper, start). map_option (\<lambda>n. start + n) (word_len tb (drop start s) upper)"
  show ?thesis
  proof (cases "first_some ?f ?tries")
    case (Some n)
    then obtain upper start m where "word_len tb (drop start s) upper = Some m" "n = start + m"
      by (auto dest!: first_some_in)
    then have "0 < n" using word_len_pos by fastforce
    then show ?thesis using Some s by (simp add: o200k_def Let_def)
  next
    case None
    then have "word_len tb s False = None" "word_len tb s True = None" by (auto simp: first_some_None)
    then have kind: "kind_of tb c = 0" using word_len_kind [of tb s] s by auto
    then have nl: "\<not> is_letter tb c" by (simp add: is_letter_def)
    have "0 < run_len (c # cs) (Some 3) (is_numeric tb)" if "is_numeric tb c"
      using that by (intro run_len_pos) simp_all
    moreover have "0 < rest_len tb (c # cs) symbols True"
      if "\<not> is_numeric tb c" "symbols \<longleftrightarrow> class_of tb c = Other \<or> c = 32 \<and> x" for symbols x
      using that nl by (intro rest_len_pos) (auto simp: class_of_def split: if_splits)
    ultimately show ?thesis using None s by (auto simp: o200k_def Let_def)
  qed
qed

lemma piece_len_pos: "s \<noteq> [] \<Longrightarrow> 0 < piece_len tb p s"
  by (cases p) (simp_all add: gpt2_pos cl100k_pos o200k_pos)

text \<open>The loop of \<open>pieces\<close> ends because every piece takes at least one character.\<close>

function pieces :: "tables \<Rightarrow> pattern \<Rightarrow> str \<Rightarrow> str list" where
  "pieces tb p s = (if s = [] then [] else take (piece_len tb p s) s # pieces tb p (drop (piece_len tb p s) s))"
  by pat_completeness auto
termination
  by (relation "measure (\<lambda>(_, _, s). length s)") (auto simp: piece_len_pos diff_less)

declare pieces.simps [simp del]

lemma pieces_whole: "concat (pieces tb p s) = s \<and> [] \<notin> set (pieces tb p s)"
proof (induction tb p s rule: pieces.induct)
  case (1 tb p s)
  then show ?case using piece_len_pos [of s tb p] by (subst (1 2) pieces.simps) (auto simp: take_eq_Nil)
qed

text \<open>
  C37. The pieces are a partition of the text: none is empty, and one after the other they are the text, for every
  pattern and every text.
\<close>

theorem pieces_partition: "concat (pieces tb p s) = s \<and> [] \<notin> set (pieces tb p s)"
  by (rule pieces_whole)

section \<open>The regular expressions\<close>

text \<open>
  Expressions with the semantics of a backtracking matcher: the lengths an expression can match at the start of a
  text, in the order they are tried. \<open>Many\<close> is a class repeated, as often as it can be first.
\<close>

datatype rx =
    Chr "scalar \<Rightarrow> bool"
  | Many "scalar \<Rightarrow> bool"
  | AtMost nat "scalar \<Rightarrow> bool"
  | Sq rx rx
  | Alt rx rx
  | Opt rx
  | NotNext "scalar \<Rightarrow> bool"

fun ways :: "rx \<Rightarrow> str \<Rightarrow> nat list" where
  "ways (Chr P) s = (case s of c # _ \<Rightarrow> if P c then [1] else [] | [] \<Rightarrow> [])"
| "ways (Many P) s = rev [0..<Suc (length (takeWhile P s))]"
| "ways (AtMost m P) s = rev [1..<Suc (length (takeWhile P (take m s)))]"
| "ways (Sq r q) s = concat (map (\<lambda>n. map (\<lambda>m. n + m) (ways q (drop n s))) (ways r s))"
| "ways (Alt r q) s = ways r s @ ways q s"
| "ways (Opt r) s = ways r s @ [0]"
| "ways (NotNext P) s = (case s of c # _ \<Rightarrow> if P c then [] else [0] | [] \<Rightarrow> [0])"

definition matched :: "rx \<Rightarrow> str \<Rightarrow> nat option" where
  "matched r s = (case ways r s of [] \<Rightarrow> None | n # _ \<Rightarrow> Some n)"

definition Plus :: "(scalar \<Rightarrow> bool) \<Rightarrow> rx" where
  "Plus P = Sq (Chr P) (Many P)"

definition lit_rx :: "bool \<Rightarrow> nat \<Rightarrow> rx" where
  "lit_rx ci c = Chr (\<lambda>d. lowered ci d = c)"

definition short :: "bool \<Rightarrow> rx" where
  "short ci = (let q = Chr (\<lambda>c. c = 39); l = lit_rx ci in
     Alt (Sq q (l 115)) (Alt (Sq q (l 116)) (Alt (Sq q (Sq (l 114) (l 101))) (Alt (Sq q (Sq (l 118) (l 101)))
       (Alt (Sq q (l 109)) (Alt (Sq q (Sq (l 108) (l 108))) (Sq q (l 100))))))))"

abbreviation blank :: rx where
  "blank \<equiv> Opt (Chr (\<lambda>c. c = 32))"

definition symbol :: "tables \<Rightarrow> scalar \<Rightarrow> bool" where
  "symbol tb c \<longleftrightarrow> \<not> is_whitespace c \<and> \<not> is_letter tb c \<and> \<not> is_numeric tb c"

definition opener :: "tables \<Rightarrow> scalar \<Rightarrow> bool" where
  "opener tb c \<longleftrightarrow> \<not> newline c \<and> \<not> is_letter tb c \<and> \<not> is_numeric tb c"

definition space_tail :: rx where
  "space_tail = Alt (Sq (Plus is_whitespace) (NotNext (\<lambda>c. \<not> is_whitespace c))) (Plus is_whitespace)"

definition line_tail :: rx where
  "line_tail = Alt (Sq (Many is_whitespace) (Plus newline)) space_tail"

definition upper :: "tables \<Rightarrow> scalar \<Rightarrow> bool" where
  "upper tb c \<longleftrightarrow> kind_of tb c \<noteq> 0 \<and> kind_of tb c \<noteq> 2"

definition lower :: "tables \<Rightarrow> scalar \<Rightarrow> bool" where
  "lower tb c \<longleftrightarrow> 2 \<le> kind_of tb c"

text \<open>The expressions of \<open>PATTERNS\<close>; their case-insensitive parts fold ASCII, as the source does.\<close>

fun rx_of :: "tables \<Rightarrow> pattern \<Rightarrow> rx" where
  "rx_of tb Gpt2 =
     Alt (short False) (Alt (Sq blank (Plus (is_letter tb))) (Alt (Sq blank (Plus (is_numeric tb)))
       (Alt (Sq blank (Plus (symbol tb))) space_tail)))"
| "rx_of tb Cl100k =
     Alt (short True) (Alt (Sq (Opt (Chr (opener tb))) (Plus (is_letter tb))) (Alt (AtMost 3 (is_numeric tb))
       (Alt (Sq blank (Sq (Plus (symbol tb)) (Many newline))) line_tail)))"
| "rx_of tb O200k =
     Alt (Sq (Opt (Chr (opener tb))) (Sq (Many (upper tb)) (Sq (Plus (lower tb)) (Opt (short True)))))
       (Alt (Sq (Opt (Chr (opener tb))) (Sq (Plus (upper tb)) (Sq (Many (lower tb)) (Opt (short True)))))
       (Alt (AtMost 3 (is_numeric tb))
       (Alt (Sq blank (Sq (Plus (symbol tb)) (Many (\<lambda>c. newline c \<or> c = 47)))) line_tail)))"

text \<open>The categories the classes come from do not overlap.\<close>

definition apart :: "tables \<Rightarrow> bool" where
  "apart tb \<longleftrightarrow> (\<forall>c. \<not> (is_letter tb c \<and> is_numeric tb c) \<and> \<not> (is_letter tb c \<and> is_whitespace c) \<and>
     \<not> (is_numeric tb c \<and> is_whitespace c))"

lemma ways_Many [simp]: "ways (Many P) s = rev [0..<Suc (run_len s None P)]"
  by (simp add: run_len_def)

declare ways.simps(2) [simp del]

lemma matched_Alt: "matched (Alt r q) s = (case matched r s of None \<Rightarrow> matched q s | Some n \<Rightarrow> Some n)"
  by (auto simp: matched_def split: list.splits)

lemma matched_concat:
  "(case concat (map f ns) of [] \<Rightarrow> None | m # _ \<Rightarrow> Some m) = first_some (\<lambda>n. case f n of [] \<Rightarrow> None | m # _ \<Rightarrow> Some m) ns"
proof (induction ns)
  case (Cons a ns)
  then show ?case by (cases "f a") simp_all
qed simp

lemma matched_Sq: "matched (Sq r q) s = first_some (\<lambda>n. map_option (\<lambda>m. n + m) (matched q (drop n s))) (ways r s)"
proof -
  have "(case map (\<lambda>m. n + m) (ways q (drop n s)) of [] \<Rightarrow> None | m # _ \<Rightarrow> Some m) = map_option (\<lambda>m. n + m) (matched q (drop n s))" for n
    by (simp add: matched_def split: list.splits)
  then show ?thesis unfolding matched_def ways.simps(4) by (subst matched_concat) (simp add: matched_def)
qed

lemma matched_Opt: "matched (Opt r) s = (case matched r s of None \<Rightarrow> Some 0 | Some n \<Rightarrow> Some n)"
  by (simp add: matched_def split: list.splits)

lemma matched_Chr: "matched (Chr P) s = (if s \<noteq> [] \<and> P (hd s) then Some 1 else None)"
  by (simp add: matched_def split: list.splits)

lemma matched_Many: "matched (Many P) s = Some (run_len s None P)"
  by (simp add: matched_def)

lemma run_len_Cons: "run_len (c # s) None P = (if P c then Suc (run_len s None P) else 0)"
  by (simp add: run_len_def)

lemma run_len_Nil [simp]: "run_len [] None P = 0"
  by (simp add: run_len_def)

lemma matched_Plus: "matched (Plus P) s = (if 0 < run_len s None P then Some (run_len s None P) else None)"
  by (cases s) (auto simp: Plus_def matched_Sq matched_Many run_len_Cons)

lemma matched_AtMost: "matched (AtMost m P) s = (if 0 < run_len s (Some m) P then Some (run_len s (Some m) P) else None)"
  by (simp add: matched_def run_len_def Suc_le_eq)

lemma matched_Chr_Sq: "matched (Sq (Chr P) q) s = (if s \<noteq> [] \<and> P (hd s) then map_option Suc (matched q (tl s)) else None)"
  by (cases s) (auto simp: matched_Sq split: option.splits)

lemma matched_Opt_Sq:
  "matched (Sq (Opt (Chr P)) q) s =
     (case (if s \<noteq> [] \<and> P (hd s) then matched q (tl s) else None) of
        Some n \<Rightarrow> Some (Suc n) | None \<Rightarrow> matched q s)"
  by (cases s) (auto simp: matched_Sq split: option.splits)

lemma matched_short: "matched (short ci) s = contraction s ci"
proof (cases s)
  case (Cons q rest)
  then show ?thesis
  proof (cases rest)
    case (Cons a more)
    then show ?thesis using \<open>s = q # rest\<close>
      by (cases more) (simp_all add: short_def Let_def lit_rx_def matched_Alt matched_Chr_Sq matched_Chr contraction_def)
  qed (simp add: short_def Let_def lit_rx_def matched_Alt matched_Chr_Sq matched_Chr contraction_def)
qed (simp add: short_def Let_def matched_Alt matched_Chr_Sq contraction_def)

lemma class_sets:
  assumes "apart tb"
  shows "(\<lambda>c. class_of tb c = Letter) = is_letter tb" "(\<lambda>c. class_of tb c = Number) = is_numeric tb"
    "(\<lambda>c. class_of tb c = Other) = symbol tb"
  using assms by (auto simp: fun_eq_iff class_of_def symbol_def apart_def)

lemma class_flags:
  assumes "apart tb"
  shows "class_of tb c = Letter \<longleftrightarrow> is_letter tb c" "class_of tb c = Number \<longleftrightarrow> is_numeric tb c"
    "class_of tb c = Other \<longleftrightarrow> symbol tb c" "class_of tb c = Space \<longleftrightarrow> is_whitespace c"
  using assms by (auto simp: class_of_def symbol_def apart_def)

lemma run_pos_iff: "0 < run_len s None P \<longleftrightarrow> s \<noteq> [] \<and> P (hd s)"
  by (cases s) (simp_all add: run_len_Cons)

lemma run_zero_iff: "run_len s None P = 0 \<longleftrightarrow> s = [] \<or> \<not> P (hd s)"
  using run_pos_iff [of s P] by auto

lemma ways_Plus: "ways (Plus P) s = rev [1..<Suc (run_len s None P)]"
proof (cases "s \<noteq> [] \<and> P (hd s)")
  case True
  then obtain c cs where s: "s = c # cs" by (cases s) auto
  have "ways (Plus P) s = map Suc (rev [0..<Suc (run_len cs None P)])"
    using True s unfolding Plus_def by (simp del: upt_Suc add: plus_1_eq_Suc)
  also have "\<dots> = rev [1..<Suc (Suc (run_len cs None P))]" by (simp only: rev_map [symmetric] map_Suc_upt One_nat_def)
  finally show ?thesis using True s by (simp del: upt_Suc add: run_len_Cons)
qed (auto simp: Plus_def run_len_def split: list.splits)

lemma run_len_end: "run_len s None P < length s \<Longrightarrow> \<not> P (s ! run_len s None P)"
  unfolding run_len_def option.case by (rule nth_length_takeWhile)

lemma run_len_le: "run_len s None P \<le> length s"
  by (simp add: run_len_def length_takeWhile_le)

lemma run_len_in: "k < run_len s None P \<Longrightarrow> P (s ! k)"
  unfolding run_len_def option.case by (metis nth_mem set_takeWhileD takeWhile_nth)

lemma matched_space_tail:
  assumes "s \<noteq> []" "is_whitespace (hd s)"
  shows "matched space_tail s = Some (spaces s)"
proof -
  let ?n = "run_len s None is_whitespace" and ?no = "NotNext (\<lambda>c. \<not> is_whitespace c)"
  have n: "0 < ?n" using assms by (simp add: run_pos_iff)
  have no: "matched ?no t = (if t \<noteq> [] \<and> \<not> is_whitespace (hd t) then None else Some 0)" for t
    by (cases t) (simp_all add: matched_def)
  have rev: "rev [1..<Suc ?n] = ?n # rev [1..<?n]" using n by simp
  have sq: "matched (Sq (Plus is_whitespace) ?no) s =
      first_some (\<lambda>k. map_option (\<lambda>m. k + m) (matched ?no (drop k s))) (?n # rev [1..<?n])"
    unfolding matched_Sq ways_Plus rev by simp
  show ?thesis
  proof (cases "?n < length s")
    case False
    then have "drop ?n s = []" by simp
    then have "matched (Sq (Plus is_whitespace) ?no) s = Some ?n" using sq no by simp
    then show ?thesis using False by (simp add: space_tail_def matched_Alt spaces_def Let_def)
  next
    case True
    then have "drop ?n s \<noteq> []" "hd (drop ?n s) = s ! ?n" by (simp_all add: hd_drop_conv_nth)
    then have last: "matched ?no (drop ?n s) = None" using run_len_end [OF True] no by simp
    show ?thesis
    proof (cases "1 < ?n")
      case False
      then have "?n = 1" using n by simp
      then have "matched (Sq (Plus is_whitespace) ?no) s = None" using sq last by simp
      then show ?thesis using n \<open>?n = 1\<close> by (simp add: space_tail_def matched_Alt matched_Plus spaces_def Let_def)
    next
      case more: True
      then obtain k where k: "?n = Suc k" "0 < k" by (cases ?n) auto
      have "is_whitespace (s ! k)" using run_len_in [of k s is_whitespace] k by simp
      then have "matched ?no (drop k s) = Some 0" using no k True by (simp add: hd_drop_conv_nth)
      then have "matched (Sq (Plus is_whitespace) ?no) s = Some k" using sq last k by simp
      then show ?thesis using k True by (simp add: space_tail_def matched_Alt spaces_def Let_def)
    qed
  qed
qed

lemma matched_Plus_head:
  "matched (Sq (Opt (Chr P)) (Plus Q)) s =
     (if s \<noteq> [] \<and> P (hd s) \<and> tl s \<noteq> [] \<and> Q (hd (tl s)) then Some (Suc (run_len (tl s) None Q))
      else if s \<noteq> [] \<and> Q (hd s) then Some (run_len s None Q) else None)"
  by (auto simp: matched_Opt_Sq matched_Plus run_pos_iff run_zero_iff)

lemma gpt2_matches:
  assumes "s \<noteq> []" "apart tb"
  shows "matched (rx_of tb Gpt2) s = Some (gpt2 tb s)"
proof (cases "contraction s False")
  case (Some n)
  then show ?thesis by (simp add: matched_Alt matched_short gpt2_def)
next
  case None
  obtain c cs where s: "s = c # cs" using assms(1) by (cases s) auto
  have alts: "matched (rx_of tb Gpt2) s =
      (case matched (Sq blank (Plus (is_letter tb))) s of Some n \<Rightarrow> Some n | None \<Rightarrow>
       case matched (Sq blank (Plus (is_numeric tb))) s of Some n \<Rightarrow> Some n | None \<Rightarrow>
       case matched (Sq blank (Plus (symbol tb))) s of Some n \<Rightarrow> Some n | None \<Rightarrow> matched space_tail s)"
    using None by (simp add: matched_Alt matched_short split: option.splits)
  have tail: "matched space_tail s = Some (spaces s)" if "is_whitespace c" using matched_space_tail [of s] that s by simp
  have sp: "\<not> symbol tb 32" by (simp add: symbol_def)
  note sets = class_sets [OF assms(2)]
  have flags: "(case class_of tb x of Letter \<Rightarrow> is_letter tb x \<and> \<not> is_numeric tb x \<and> \<not> symbol tb x
    | Number \<Rightarrow> \<not> is_letter tb x \<and> is_numeric tb x \<and> \<not> symbol tb x | Other \<Rightarrow> \<not> is_letter tb x \<and> \<not> is_numeric tb x \<and> symbol tb x
    | Space \<Rightarrow> \<not> is_letter tb x \<and> \<not> is_numeric tb x \<and> \<not> symbol tb x \<and> is_whitespace x)" for x
    using class_flags [OF assms(2), of x] by (cases "class_of tb x") auto
  show ?thesis
  proof (cases "c = 32 \<and> cs \<noteq> [] \<and> class_of tb (hd cs) \<noteq> Space")
    case True
    then obtain d ds where d: "cs = d # ds" by (cases cs) auto
    have "gpt2 tb s = Suc (run_len cs None (\<lambda>x. class_of tb x = class_of tb d))" using None s d True by (simp add: gpt2_def Let_def)
    then show ?thesis
      using True s d flags [of d] unfolding alts matched_Plus_head by (cases "class_of tb d") (simp_all add: sets)
  next
    case False
    show ?thesis
    proof (cases "class_of tb c = Space")
      case True
      have "gpt2 tb s = spaces s" using None s False True by (cases cs) (auto simp: gpt2_def Let_def)
      moreover have "\<not> is_letter tb c" "\<not> is_numeric tb c" "\<not> symbol tb c" "is_whitespace c"
        using True flags [of c] by auto
      moreover have "\<not> (c = 32 \<and> cs \<noteq> [] \<and> is_letter tb (hd cs))" "\<not> (c = 32 \<and> cs \<noteq> [] \<and> is_numeric tb (hd cs))"
        "\<not> (c = 32 \<and> cs \<noteq> [] \<and> symbol tb (hd cs))"
        using False flags [of "hd cs"] by auto
      ultimately show ?thesis using tail s unfolding alts matched_Plus_head by auto
    next
      case other: False
      then have "c \<noteq> 32" by auto
      then have "gpt2 tb s = run_len s None (\<lambda>x. class_of tb x = class_of tb c)" using None s other by (simp add: gpt2_def Let_def)
      then show ?thesis
        using other s \<open>c \<noteq> 32\<close> flags [of c] unfolding alts matched_Plus_head by (cases "class_of tb c") (simp_all add: sets)
    qed
  qed
qed

lemma first_some_rev:
  assumes "f k = Some y" "k \<le> n" "\<And>j. k < j \<Longrightarrow> j \<le> n \<Longrightarrow> f j = None"
  shows "first_some f (rev [0..<Suc n]) = Some y"
  using assms
proof (induction n)
  case (Suc n)
  then show ?case by (cases "k = Suc n") (simp_all add: le_Suc_eq)
qed simp

lemma matched_Plus_drop:
  "matched (Plus P) (drop k s) = (if k < length s \<and> P (s ! k) then Some (run_len (drop k s) None P) else None)"
  by (cases "k < length s") (simp_all add: matched_Plus run_pos_iff run_zero_iff hd_drop_conv_nth)

text \<open>The last line break of the white space at the start.\<close>

lemma dropWhile_last:
  assumes "\<exists>c \<in> set ws. P c"
  obtains k where "length (dropWhile (\<lambda>c. \<not> P c) (rev ws)) = Suc k" "k < length ws" "P (ws ! k)"
    "\<And>j. k < j \<Longrightarrow> j < length ws \<Longrightarrow> \<not> P (ws ! j)"
  using assms
proof (induction ws arbitrary: thesis rule: rev_induct)
  case (snoc c ws)
  show ?case
  proof (cases "P c")
    case True
    then show ?thesis using snoc.prems(1) [of "length ws"] by simp
  next
    case False
    then obtain k where k: "length (dropWhile (\<lambda>c. \<not> P c) (rev ws)) = Suc k" "k < length ws" "P (ws ! k)"
      "\<And>j. k < j \<Longrightarrow> j < length ws \<Longrightarrow> \<not> P (ws ! j)"
      using snoc.IH snoc.prems(2) by auto
    show ?thesis
    proof (rule snoc.prems(1) [of k])
      show "\<not> P ((ws @ [c]) ! j)" if "k < j" "j < length (ws @ [c])" for j
        using that k(4) False by (cases "j = length ws") (auto simp: nth_append)
    qed (use k False in \<open>simp_all add: nth_append\<close>)
  qed
qed simp

lemma matched_line_tail:
  assumes "s \<noteq> []" "is_whitespace (hd s)"
  shows "matched line_tail s = Some (rest_len tb s False slash)"
proof -
  let ?n = "run_len s None is_whitespace"
  let ?ws = "take ?n s"
  let ?f = "\<lambda>k. map_option (\<lambda>m. k + m) (matched (Plus newline) (drop k s))"
  have sq: "matched (Sq (Many is_whitespace) (Plus newline)) s = first_some ?f (rev [0..<Suc ?n])"
    unfolding matched_Sq ways_Many ..
  have len: "length ?ws = ?n" using run_len_le [of s is_whitespace] by simp
  have last: "?f ?n = None"
    using run_len_end [of s is_whitespace] newline_class by (auto simp: matched_Plus_drop)
  show ?thesis
  proof (cases "\<exists>c \<in> set ?ws. newline c")
    case True
    then obtain k where k: "length (dropWhile (\<lambda>c. \<not> newline c) (rev ?ws)) = Suc k" "k < length ?ws" "newline (?ws ! k)"
      "\<And>j. k < j \<Longrightarrow> j < length ?ws \<Longrightarrow> \<not> newline (?ws ! j)"
      using dropWhile_last [where P = newline, OF True] by blast
    have kn: "k < ?n" "?n \<le> length s" using k(2) len run_len_le by simp_all
    have nl: "newline (s ! k)" using k(3) kn by simp
    have none: "?f j = None" if "k < j" "j \<le> ?n" for j
      using that k(4) [of j] last len by (cases "j = ?n") (auto simp: matched_Plus_drop)
    have "run_len (drop k s) None newline = 1"
    proof -
      have "drop k s = s ! k # drop (Suc k) s" using kn by (simp add: Cons_nth_drop_Suc)
      moreover have "run_len (drop (Suc k) s) None newline = 0"
        using none [of "Suc k"] kn by (auto simp: matched_Plus run_zero_iff split: if_splits)
      ultimately show ?thesis using nl by (simp add: run_len_Cons)
    qed
    then have "?f k = Some (Suc k)" using nl kn by (simp add: matched_Plus_drop)
    then have "first_some ?f (rev [0..<Suc ?n]) = Some (Suc k)" by (rule first_some_rev) (use kn none in auto)
    then have "matched line_tail s = Some (Suc k)" using sq by (simp add: line_tail_def matched_Alt)
    then show ?thesis using True k(1) by (simp add: rest_len_def Let_def)
  next
    case False
    have "?f j = None" if "j \<le> ?n" for j
    proof (cases "j = ?n")
      case less: False
      then have "j < ?n" using that by simp
      then have "?ws ! j \<in> set ?ws" using len nth_mem by metis
      then have "\<not> newline (s ! j)" using False \<open>j < ?n\<close> by auto
      then show ?thesis by (simp add: matched_Plus_drop)
    qed (use last in simp)
    then have "first_some ?f (rev [0..<Suc ?n]) = None" by (simp add: first_some_None)
    then have "matched line_tail s = matched space_tail s" using sq by (simp add: line_tail_def matched_Alt)
    then show ?thesis using False matched_space_tail [OF assms] by (simp add: rest_len_def Let_def)
  qed
qed

lemma matched_Plus_Many:
  "matched (Sq (Plus P) (Many Q)) s =
     (if s \<noteq> [] \<and> P (hd s) then Some (run_len s None P + run_len (drop (run_len s None P) s) None Q) else None)"
proof (cases "run_len s None P")
  case 0
  then show ?thesis using run_zero_iff [of s P] unfolding matched_Sq ways_Plus 0 by auto
next
  case (Suc n)
  then have "s \<noteq> [] \<and> P (hd s)" using run_pos_iff [of s P] by simp
  then show ?thesis using Suc by (simp add: matched_Sq ways_Plus matched_Many)
qed

lemma rest_matches:
  assumes "apart tb" "s = c # cs" "\<not> is_letter tb c" "\<not> is_numeric tb c"
    and "symbols \<longleftrightarrow> class_of tb c = Other \<or> c = 32 \<and> cs \<noteq> [] \<and> class_of tb (hd cs) = Other"
  shows "matched (Alt (Sq blank (Sq (Plus (symbol tb)) (Many (\<lambda>c. newline c \<or> slash \<and> c = 47)))) line_tail) s =
    Some (rest_len tb s symbols slash)"
proof (cases symbols)
  case True
  have sp: "\<not> symbol tb 32" by (simp add: symbol_def)
  note flag = class_flags(3) [OF assms(1)] and sets = class_sets(3) [OF assms(1)]
  show ?thesis
  proof (cases "c = 32")
    case c: True
    then have "cs \<noteq> []" "symbol tb (hd cs)" using True assms(5) flag by auto
    then show ?thesis
      using c True assms(2) by (simp add: matched_Alt matched_Opt_Sq matched_Plus_Many rest_len_def Let_def sets)
  next
    case False
    then have "symbol tb c" using True assms(5) flag by auto
    then show ?thesis
      using False True assms(2) by (simp add: matched_Alt matched_Opt_Sq matched_Plus_Many rest_len_def Let_def sets)
  qed
next
  case False
  have "matched (Sq blank (Sq (Plus (symbol tb)) (Many (\<lambda>c. newline c \<or> slash \<and> c = 47)))) s = None"
    using False assms(2,5) class_flags(3) [OF assms(1)] by (auto simp: matched_Opt_Sq matched_Plus_Many)
  moreover have "is_whitespace (hd s)" using False assms(2-5) by (auto simp: class_of_def split: if_splits)
  ultimately show ?thesis using False matched_line_tail [of s tb slash] assms(2) by (simp add: matched_Alt)
qed

lemma cl100k_matches:
  assumes "s \<noteq> []" "apart tb"
  shows "matched (rx_of tb Cl100k) s = Some (cl100k tb s)"
proof (cases "contraction s True")
  case (Some n)
  then show ?thesis by (simp add: matched_Alt matched_short cl100k_def)
next
  case None
  obtain c cs where s: "s = c # cs" using assms(1) by (cases s) auto
  let ?rest = "Alt (Sq blank (Sq (Plus (symbol tb)) (Many newline))) line_tail"
  have alts: "matched (rx_of tb Cl100k) s =
      (case matched (Sq (Opt (Chr (opener tb))) (Plus (is_letter tb))) s of Some n \<Rightarrow> Some n | None \<Rightarrow>
       case matched (AtMost 3 (is_numeric tb)) s of Some n \<Rightarrow> Some n | None \<Rightarrow> matched ?rest s)"
    using None by (simp add: matched_Alt matched_short split: option.splits)
  have num: "matched (AtMost 3 (is_numeric tb)) s = (if is_numeric tb c then Some (run_len s (Some 3) (is_numeric tb)) else None)"
    using s run_len_pos [of s "is_numeric tb" "Some 3"] by (auto simp: matched_AtMost run_len_def)
  note flags = class_flags [OF assms(2)]
  show ?thesis
  proof (cases "is_letter tb c")
    case True
    then have "class_of tb c = Letter" "\<not> opener tb c" by (simp_all add: class_of_def opener_def)
    then show ?thesis using True None s unfolding alts matched_Plus_head by (simp add: cl100k_def Let_def)
  next
    case nl: False
    show ?thesis
    proof (cases "is_numeric tb c")
      case True
      then have "class_of tb c = Number" "\<not> opener tb c" using nl by (simp_all add: class_of_def opener_def)
      then show ?thesis using True nl None s num unfolding alts matched_Plus_head by (simp add: cl100k_def Let_def)
    next
      case nn: False
      have cl: "class_of tb c = Space \<or> class_of tb c = Other" using nl nn by (simp add: class_of_def)
      show ?thesis
      proof (cases "\<not> newline c \<and> cs \<noteq> [] \<and> is_letter tb (hd cs)")
        case True
        then have "opener tb c" using nl nn by (simp add: opener_def)
        then show ?thesis using True nl nn cl None s unfolding alts matched_Plus_head
          by (cases cs) (auto simp: cl100k_def Let_def)
      next
        case False
        let ?sym = "class_of tb c = Other \<or> c = 32 \<and> cs \<noteq> [] \<and> class_of tb (hd cs) = Other"
        have "matched ?rest s = Some (rest_len tb s ?sym False)"
          using rest_matches [OF assms(2) s nl nn refl, of False] by simp
        moreover have "cl100k tb s = rest_len tb s ?sym False"
          using None s cl False by (cases cs) (auto simp: cl100k_def Let_def)
        moreover have "matched (Sq (Opt (Chr (opener tb))) (Plus (is_letter tb))) s = None"
          using False nl s by (auto simp: matched_Plus_head opener_def)
        ultimately show ?thesis using num nn unfolding alts by simp
      qed
    qed
  qed
qed

lemma takeWhile_drop_takeWhile:
  assumes "\<And>x. Q x \<Longrightarrow> P x" "a \<le> length (takeWhile P xs)"
  shows "takeWhile Q (drop a (takeWhile P xs)) = takeWhile Q (drop a xs)"
  using assms(2)
proof (induction xs arbitrary: a)
  case (Cons x xs)
  show ?case
  proof (cases a)
    case 0
    have "takeWhile Q (takeWhile P ys) = takeWhile Q ys" for ys
      using assms(1) by (induction ys) auto
    then show ?thesis using 0 assms(1) by auto
  qed (use Cons in \<open>auto split: if_splits\<close>)
qed simp

lemma takeWhile_both: "takeWhile Q (takeWhile P xs) = takeWhile (\<lambda>x. P x \<and> Q x) xs"
  by (induction xs) auto

lemma first_some_cong: "(\<And>x. x \<in> set xs \<Longrightarrow> f x = g x) \<Longrightarrow> first_some f xs = first_some g xs"
  by (induction xs) (auto split: option.splits)

lemma word_len_run:
  "word_len tb s u =
     (let most = run_len s None (upper tb); upto = (\<lambda>a. a + run_len (drop a s) None (lower tb)) in
      if u then (if 0 < most then Some (upto most) else None)
      else first_some (\<lambda>a. if a < upto a then Some (upto a) else None) (rev [0..<Suc most]))"
proof -
  let ?all = "map (kind_of tb) s"
  let ?ks = "takeWhile (\<lambda>k. k \<noteq> 0) ?all"
  have most: "length (takeWhile (\<lambda>k. k \<noteq> 2) ?ks) = run_len s None (upper tb)"
    unfolding takeWhile_both by (simp add: run_len_def takeWhile_map upper_def [abs_def] comp_def)
  have lowered: "length (takeWhile (\<lambda>k. 2 \<le> k) (drop a ?ks)) = run_len (drop a s) None (lower tb)"
    if "a \<le> run_len s None (upper tb)" for a
  proof -
    have "a \<le> length ?ks" using that most length_takeWhile_le [of "\<lambda>k. k \<noteq> 2" ?ks] by simp
    then have "takeWhile (\<lambda>k. 2 \<le> k) (drop a ?ks) = takeWhile (\<lambda>k. 2 \<le> k) (drop a ?all)"
      by (intro takeWhile_drop_takeWhile) auto
    then show ?thesis by (simp add: run_len_def drop_map takeWhile_map lower_def [abs_def] comp_def)
  qed
  have "first_some (\<lambda>a. if a < a + length (takeWhile (\<lambda>k. 2 \<le> k) (drop a ?ks))
        then Some (a + length (takeWhile (\<lambda>k. 2 \<le> k) (drop a ?ks))) else None) (rev [0..<Suc (run_len s None (upper tb))]) =
      first_some (\<lambda>a. if a < a + run_len (drop a s) None (lower tb) then Some (a + run_len (drop a s) None (lower tb)) else None)
        (rev [0..<Suc (run_len s None (upper tb))])"
  proof (rule first_some_cong)
    fix a
    assume "a \<in> set (rev [0..<Suc (run_len s None (upper tb))])"
    then have "a \<le> run_len s None (upper tb)" by (simp add: less_Suc_eq_le del: upt_Suc)
    then show "(if a < a + length (takeWhile (\<lambda>k. 2 \<le> k) (drop a ?ks))
        then Some (a + length (takeWhile (\<lambda>k. 2 \<le> k) (drop a ?ks))) else None) =
      (if a < a + run_len (drop a s) None (lower tb) then Some (a + run_len (drop a s) None (lower tb)) else None)"
      by (simp only: lowered)
  qed
  then show ?thesis unfolding word_len_def Let_def most lowered [OF order_refl] by (simp only:)
qed

lemma first_some_map: "first_some (\<lambda>x. map_option g (f x)) xs = map_option g (first_some f xs)"
  by (induction xs) (auto split: option.splits)

lemma first_some_append: "first_some f (xs @ ys) = (case first_some f xs of None \<Rightarrow> first_some f ys | Some y \<Rightarrow> Some y)"
  by (induction xs) (auto split: option.splits)

lemma first_some_pairs: "first_some f (map (Pair u) xs) = first_some (\<lambda>x. f (u, x)) xs"
  by (induction xs) (auto split: option.splits)

definition with_short :: "str \<Rightarrow> nat \<Rightarrow> nat" where
  "with_short s n = n + (case contraction (drop n s) True of None \<Rightarrow> 0 | Some m \<Rightarrow> m)"

lemma matched_short_opt: "matched (Opt (short True)) s = Some (with_short s 0)"
  by (simp add: matched_Opt matched_short with_short_def split: option.splits)

lemma with_short_drop: "with_short (drop k s) n + k = with_short s (k + n)"
  by (simp add: with_short_def add.commute)

lemma word_lower_matches:
  "matched (Sq (Many (upper tb)) (Sq (Plus (lower tb)) (Opt (short True)))) s = map_option (with_short s) (word_len tb s False)"
proof -
  have inner: "matched (Sq (Plus (lower tb)) (Opt (short True))) t =
      (if 0 < run_len t None (lower tb) then Some (with_short t (run_len t None (lower tb))) else None)" for t
    by (cases "run_len t None (lower tb)")
      (auto simp: matched_Sq ways_Plus matched_short_opt with_short_def)
  have "map_option (\<lambda>m. a + m) (matched (Sq (Plus (lower tb)) (Opt (short True))) (drop a s)) =
      map_option (with_short s) (if a < a + run_len (drop a s) None (lower tb) then Some (a + run_len (drop a s) None (lower tb)) else None)" for a
    unfolding inner using with_short_drop [of a s] by (simp add: add.commute)
  then show ?thesis unfolding matched_Sq [of "Many (upper tb)"] ways_Many word_len_run Let_def
    by (simp only: first_some_map if_False)
qed

lemma word_upper_matches:
  "matched (Sq (Plus (upper tb)) (Sq (Many (lower tb)) (Opt (short True)))) s = map_option (with_short s) (word_len tb s True)"
proof -
  have inner: "matched (Sq (Many (lower tb)) (Opt (short True))) t = Some (with_short t (run_len t None (lower tb)))" for t
    by (simp add: matched_Sq matched_short_opt with_short_def)
  show ?thesis
  proof (cases "run_len s None (upper tb)")
    case 0
    then show ?thesis by (simp add: matched_Sq [of "Plus (upper tb)"] ways_Plus word_len_run Let_def)
  next
    case (Suc n)
    then show ?thesis
      using with_short_drop [of "Suc n" s] by (simp add: matched_Sq [of "Plus (upper tb)"] ways_Plus word_len_run Let_def inner add.commute)
  qed
qed

lemma o200k_matches:
  assumes "s \<noteq> []" "apart tb"
  shows "matched (rx_of tb O200k) s = Some (o200k tb s)"
proof -
  obtain c cs where s: "s = c # cs" using assms(1) by (cases s) auto
  let ?prefix = "if \<not> newline c \<and> \<not> is_letter tb c \<and> \<not> is_numeric tb c then [1 :: nat] else []"
  let ?tries = "[(u, start). u \<leftarrow> [False, True], start \<leftarrow> ?prefix @ [0]]"
  let ?f = "\<lambda>(u, start). map_option (\<lambda>n. start + n) (word_len tb (drop start s) u)"
  let ?rest = "Alt (Sq blank (Sq (Plus (symbol tb)) (Many (\<lambda>c. newline c \<or> True \<and> c = 47)))) line_tail"
  have pre: "opener tb c \<longleftrightarrow> ?prefix = [1]" by (simp add: opener_def)
  have one: "(case (if s \<noteq> [] \<and> opener tb (hd s) then map_option (with_short (tl s)) (word_len tb (tl s) u) else None) of
      Some n \<Rightarrow> Some (Suc n) | None \<Rightarrow> map_option (with_short s) (word_len tb s u)) =
    map_option (with_short s) (first_some (\<lambda>start. map_option (\<lambda>n. start + n) (word_len tb (drop start s) u)) (?prefix @ [0]))" for u
    using s by (auto simp: opener_def with_short_def split: option.splits)
  have alt: "matched (Sq (Opt (Chr (opener tb))) r) s =
      map_option (with_short s) (first_some (\<lambda>start. map_option (\<lambda>n. start + n) (word_len tb (drop start s) u)) (?prefix @ [0]))"
    if "\<And>t. matched r t = map_option (with_short t) (word_len tb t u)" for r u
    unfolding matched_Opt_Sq that by (rule one)
  have tries: "?tries = map (Pair False) (?prefix @ [0]) @ map (Pair True) (?prefix @ [0])" by simp
  have words: "matched (rx_of tb O200k) s =
      (case map_option (with_short s) (first_some ?f ?tries) of Some n \<Rightarrow> Some n | None \<Rightarrow>
       case matched (AtMost 3 (is_numeric tb)) s of Some n \<Rightarrow> Some n | None \<Rightarrow> matched ?rest s)"
    unfolding tries first_some_append first_some_pairs prod.case rx_of.simps matched_Alt [of _ "Alt _ (Alt _ (Alt _ _))"]
      matched_Alt [of _ "Alt _ (Alt _ _)"] matched_Alt [of _ "Alt _ line_tail"]
      alt [OF word_lower_matches] alt [OF word_upper_matches]
    by (auto split: option.splits)
  have model: "o200k tb s = (case first_some ?f ?tries of Some n \<Rightarrow> with_short s n | None \<Rightarrow>
      if is_numeric tb c then run_len s (Some 3) (is_numeric tb)
      else rest_len tb s (class_of tb c = Other \<or> c = 32 \<and> cs \<noteq> [] \<and> class_of tb (hd cs) = Other) True)"
  proof -
    have "(case s of c # _ \<Rightarrow> c | [] \<Rightarrow> 32) = c" using s by simp
    moreover have "(case (case s of _ # c # _ \<Rightarrow> Some c | _ \<Rightarrow> None) of Some d \<Rightarrow> class_of tb d = Other | None \<Rightarrow> False) \<longleftrightarrow>
        cs \<noteq> [] \<and> class_of tb (hd cs) = Other"
      using s by (cases cs) simp_all
    ultimately show ?thesis unfolding o200k_def with_short_def Let_def by (simp only:)
  qed
  show ?thesis
  proof (cases "first_some ?f ?tries")
    case (Some n)
    show ?thesis unfolding words model Some by simp
  next
    case None
    then have "word_len tb s False = None" "word_len tb s True = None" by (auto simp: first_some_None)
    then have "kind_of tb c = 0" using word_len_kind [of tb s] s by auto
    then have nl: "\<not> is_letter tb c" by (simp add: is_letter_def)
    have num: "matched (AtMost 3 (is_numeric tb)) s = (if is_numeric tb c then Some (run_len s (Some 3) (is_numeric tb)) else None)"
      using s run_len_pos [of s "is_numeric tb" "Some 3"] by (auto simp: matched_AtMost run_len_def)
    show ?thesis
      unfolding words model None num
      using rest_matches [OF assms(2) s nl _ refl, of True] by simp
  qed
qed



end
