(* ===== verification/Encode.thy ===== *)
theory Encode
  imports Bpe Pieces
begin

text \<open>
  Text to tokens, \<open>token/mod.rs\<close>: the symbols of a piece, the index of whole words (\<open>index_words\<close>, \<open>word\<close>), the cuts
  between pieces, the added tokens found in the raw text, and \<open>Tokenizer::encode\<close>. \<open>None\<close> stands for a call that does
  not return: a search of a full table, or one of the source's panics (a slice off a character's edge, a pattern index
  out of range).
\<close>

section \<open>Symbols\<close>

definition META :: u32 where "META = 1"
definition BYTES :: u32 where "BYTES = 2"
definition SPLIT :: u32 where "SPLIT = 4"
definition PREPEND :: u32 where "PREPEND = 8"
definition BYTE_LEVEL :: u32 where "BYTE_LEVEL = 16"
definition CL100K :: u32 where "CL100K = 32"
definition NFC :: u32 where "NFC = 64"
definition O200K :: u32 where "O200K = 128"

lemmas flag_defs = META_def BYTES_def SPLIT_def PREPEND_def BYTE_LEVEL_def CL100K_def NFC_def O200K_def

definition flag :: "tokenizer \<Rightarrow> u32 \<Rightarrow> bool" where
  "flag t f \<longleftrightarrow> tk_flags t AND f \<noteq> 0"

definition LOW_BAR :: scalar where "LOW_BAR = 0x2581"

fun rare_id :: "u32 list \<Rightarrow> scalar \<Rightarrow> u32" where
  "rare_id (p # i # rare) c = (if unat p = c then i else rare_id rare c)"
| "rare_id _ c = NONE"

definition char_id :: "tokenizer \<Rightarrow> scalar \<Rightarrow> u32" where
  "char_id t c = (case get (tk_chars t) c of Some i \<Rightarrow> i | None \<Rightarrow> rare_id (tk_rare t) c)"

definition byte_id :: "tokenizer \<Rightarrow> u8 \<Rightarrow> u32" where
  "byte_id t b = tk_bytes t ! unat b"

definition symbol_step :: "tokenizer \<Rightarrow> scalar \<Rightarrow> u32 list \<Rightarrow> u32 list" where
  "symbol_step t c ids =
     (let c = (if c = 32 \<and> flag t META then LOW_BAR else c); i = char_id t c; bs = map (byte_id t) (encode_utf8 c) in
      if i \<noteq> NONE then ids @ [i]
      else if list_all (\<lambda>i. i \<noteq> NONE \<and> flag t BYTES) bs then ids @ bs
      else if (ids = [] \<or> last ids \<noteq> tk_unk t) \<and> tk_unk t \<noteq> NONE then ids @ [tk_unk t]
      else ids)"

definition symbols :: "tokenizer \<Rightarrow> str \<Rightarrow> u32 list" where
  "symbols t s = fold (symbol_step t) s []"

definition merge_all :: "tokenizer \<Rightarrow> str \<Rightarrow> u32 list option" where
  "merge_all t s = merge_ids (tok_merge t) (if flag t BYTE_LEVEL then map (byte_id t) (to_utf8 s) else symbols t s)"

section \<open>Whole words\<close>

definition fnv :: "bytes \<Rightarrow> u64" where
  "fnv bs = fold (\<lambda>b h. (h XOR ucast b) * 0x100000001B3) bs 0xCBF29CE484222325"

definition tok_word :: "tokenizer \<Rightarrow> bytes \<Rightarrow> u32 option option" where
  "tok_word t bs =
     (if tk_words t = [] then Some None
      else let msk = length (tk_words t) - 1 in
        map_option (\<lambda>i. if tk_words t ! i = NONE then None else Some (tk_words t ! i))
          (probe (\<lambda>i. tk_words t ! i = NONE \<or> token_bytes t (tk_words t ! i) = bs) msk (slot (fnv bs) msk)))"

definition word_put :: "tokenizer \<Rightarrow> u32 \<Rightarrow> u32 list \<Rightarrow> u32 list option" where
  "word_put t i table =
     (let msk = length table - 1 in
      map_option (\<lambda>k. table[k := i]) (probe (\<lambda>k. table ! k = NONE) msk (slot (fnv (token_bytes t i)) msk)))"

fun word_fill :: "tokenizer \<Rightarrow> u32 list \<Rightarrow> u32 list \<Rightarrow> u32 list option" where
  "word_fill t [] table = Some table"
| "word_fill t (i # is) table = Option.bind (word_put t i table) (word_fill t is)"

definition index_words :: "tokenizer \<Rightarrow> u32 list \<Rightarrow> tokenizer option" where
  "index_words t skip =
     map_option (\<lambda>table. t\<lparr>tk_words := table\<rparr>)
       (word_fill t (filter (\<lambda>i. i \<notin> set skip) (map word_of_nat [0..<tok_len t]))
         (replicate (max (next_power_of_two (2 * tok_len t)) 2) NONE))"

section \<open>Cuts\<close>

definition cuts :: "tokenizer \<Rightarrow> scalar \<Rightarrow> scalar \<Rightarrow> bool" where
  "cuts t prev c \<longleftrightarrow>
     (let space = (c = 32 \<or> c = LOW_BAR); joined = (prev = 32 \<or> prev = LOW_BAR \<or> prev \<in> unat ` set (tk_joins t)) in
      space \<and> flag t META \<and> (flag t SPLIT \<or> \<not> joined))"

text \<open>\<open>segment\<close>'s loop: \<open>cur\<close> is the text from \<open>start\<close>, \<open>prev\<close> the last character.\<close>

fun seg_pieces :: "tokenizer \<Rightarrow> scalar \<Rightarrow> str \<Rightarrow> str \<Rightarrow> str list" where
  "seg_pieces t prev cur [] = (if cur = [] then [] else [cur])"
| "seg_pieces t prev cur (c # cs) =
     (if cur \<noteq> [] \<and> cuts t prev c then cur # seg_pieces t c [c] cs else seg_pieces t c (cur @ [c]) cs)"

fun all_some :: "('a \<Rightarrow> 'b list option) \<Rightarrow> 'a list \<Rightarrow> 'b list option" where
  "all_some f [] = Some []"
| "all_some f (x # xs) = Option.bind (f x) (\<lambda>a. Option.bind (all_some f xs) (\<lambda>b. Some (a @ b)))"

definition pattern_of :: "tokenizer \<Rightarrow> pattern option" where
  "pattern_of t =
     (if flag t CL100K then (if flag t O200K then None else Some Cl100k) else if flag t O200K then Some O200k else Some Gpt2)"

definition byte_piece :: "tokenizer \<Rightarrow> str \<Rightarrow> u32 list option" where
  "byte_piece t s =
     Option.bind (tok_word t (to_utf8 s)) (\<lambda>w. case w of Some i \<Rightarrow> Some [i] | None \<Rightarrow> merge_all t s)"

definition byte_segment :: "tables \<Rightarrow> tokenizer \<Rightarrow> str \<Rightarrow> u32 list option" where
  "byte_segment tb t s = Option.bind (pattern_of t) (\<lambda>p. all_some (byte_piece t) (pieces tb p s))"

definition prefixed :: "tokenizer \<Rightarrow> str \<Rightarrow> str" where
  "prefixed t s =
     (if flag t PREPEND \<and> s \<noteq> [] \<and> hd s \<noteq> 32 \<and> hd s \<noteq> LOW_BAR then (if flag t BYTE_LEVEL then 32 else LOW_BAR) # s else s)"

definition tok_segment :: "tables \<Rightarrow> tokenizer \<Rightarrow> str \<Rightarrow> u32 list option" where
  "tok_segment tb t s =
     (let s = prefixed t s in
      if flag t BYTE_LEVEL then byte_segment tb t s else all_some (merge_all t) (seg_pieces t LOW_BAR [] s))"

section \<open>Encoding\<close>

text \<open>The added tokens are sorted by their first byte, so \<open>partition_point\<close> skips a prefix.\<close>

definition added_at :: "tokenizer \<Rightarrow> bytes \<Rightarrow> (u32 \<times> nat) option" where
  "added_at t rest =
     (case rest of
        [] \<Rightarrow> None
      | first # _ \<Rightarrow>
          map_option (\<lambda>i. (i, length (token_bytes t i)))
            (find (\<lambda>i. take (length (token_bytes t i)) rest = token_bytes t i)
              (takeWhile (\<lambda>i. token_bytes t i \<noteq> [] \<and> hd (token_bytes t i) = first)
                (dropWhile (\<lambda>i. token_bytes t i \<noteq> [] \<and> hd (token_bytes t i) < first) (tk_added t)))))"

text \<open>\<open>&text[n..]\<close>: a panic unless \<open>n\<close> is at the edge of a character.\<close>

fun skip_bytes :: "nat \<Rightarrow> str \<Rightarrow> str option" where
  "skip_bytes n s =
     (if n = 0 then Some s
      else case s of [] \<Rightarrow> None
           | c # cs \<Rightarrow> if n < length (encode_utf8 c) then None else skip_bytes (n - length (encode_utf8 c)) cs)"

declare skip_bytes.simps [simp del]

lemma skip_bytes_shorter: "skip_bytes n s = Some s' \<Longrightarrow> 0 < n \<Longrightarrow> length s' < length s"
proof (induction n s rule: skip_bytes.induct)
  case (1 n s)
  from 1(2,3) obtain c cs where s: "s = c # cs" and le: "length (encode_utf8 c) \<le> n"
    and rest: "skip_bytes (n - length (encode_utf8 c)) cs = Some s'"
    by (subst (asm) skip_bytes.simps) (auto split: list.splits if_splits)
  show ?case
  proof (cases "n = length (encode_utf8 c)")
    case True
    then show ?thesis using s rest by (simp add: skip_bytes.simps)
  next
    case False
    then show ?thesis using 1(1) [OF _ s] 1(3) le rest s by simp
  qed
qed

lemma added_at_pos: "added_at t rest = Some (i, n) \<Longrightarrow> 0 < n"
  by (auto simp: added_at_def find_Some_iff split: list.splits dest!: nth_mem set_takeWhileD)

text \<open>\<open>encode\<close>'s loop: \<open>seg\<close> is the text from \<open>from\<close> to \<open>i\<close>, \<open>rest\<close> the text from \<open>i\<close> on.\<close>

function enc_loop :: "tables \<Rightarrow> tokenizer \<Rightarrow> str \<Rightarrow> str \<Rightarrow> u32 list option" where
  "enc_loop tb t seg [] = tok_segment tb t seg"
| "enc_loop tb t seg (c # cs) =
     (case added_at t (to_utf8 (c # cs)) of
        None \<Rightarrow> enc_loop tb t (seg @ [c]) cs
      | Some (i, n) \<Rightarrow>
          (case skip_bytes n (c # cs) of
             None \<Rightarrow> None
           | Some s \<Rightarrow> Option.bind (tok_segment tb t seg) (\<lambda>a. Option.bind (enc_loop tb t [] s) (\<lambda>b. Some (a @ i # b)))))"
  by pat_completeness auto
termination
  by (relation "measure (\<lambda>(_, _, _, s). length s)") (auto dest: skip_bytes_shorter added_at_pos)

definition tok_encode :: "tables \<Rightarrow> tokenizer \<Rightarrow> str \<Rightarrow> u32 list option" where
  "tok_encode tb t s = Option.bind (if flag t NFC then nfc tb s else Some s) (enc_loop tb t [])"

section \<open>What holds of every piece holds of the text\<close>

locale piecewise =
  fixes R :: "str \<Rightarrow> u32 list \<Rightarrow> bool"
  assumes R_nil: "R [] []"
    and R_append: "R s a \<Longrightarrow> R u b \<Longrightarrow> R (s @ u) (a @ b)"
begin

lemma all_some_holds:
  "(\<And>x. x \<in> set xs \<Longrightarrow> \<exists>a. f x = Some a \<and> R x a) \<Longrightarrow> \<exists>b. all_some f xs = Some b \<and> R (concat xs) b"
proof (induction xs)
  case (Cons x xs)
  obtain a where "f x = Some a" "R x a" using Cons.prems [of x] by auto
  moreover obtain b where "all_some f xs = Some b" "R (concat xs) b" using Cons.IH Cons.prems by auto
  ultimately show ?case using R_append by simp
qed (simp add: R_nil)

lemma enc_loop_holds:
  assumes "\<And>s. length s \<le> n \<Longrightarrow> str_ok s \<Longrightarrow> \<exists>ids. tok_segment tb t s = Some ids \<and> R s ids"
    and "\<And>c cs i k. added_at t (to_utf8 (c # cs)) = Some (i, k) \<Longrightarrow> str_ok (c # cs) \<Longrightarrow>
      \<exists>w s. c # cs = w @ s \<and> skip_bytes k (c # cs) = Some s \<and> R w [i]"
    and "length (seg @ rest) \<le> n" "str_ok (seg @ rest)"
  shows "\<exists>ids. enc_loop tb t seg rest = Some ids \<and> R (seg @ rest) ids"
  using assms(3,4)
proof (induction "length rest" arbitrary: seg rest rule: less_induct)
  case less
  show ?case
  proof (cases rest)
    case Nil
    then show ?thesis using less.prems assms(1) [of seg] by simp
  next
    case (Cons c cs)
    have ok: "str_ok seg" "str_ok (c # cs)" using less.prems(2) Cons by (simp_all add: str_ok_def)
    show ?thesis
    proof (cases "added_at t (to_utf8 (c # cs))")
      case None
      then show ?thesis using less.hyps [of cs "seg @ [c]"] less.prems Cons by simp
    next
      case (Some ik)
      obtain i k where ik: "ik = (i, k)" by (cases ik)
      obtain w s where w: "c # cs = w @ s" "skip_bytes k (c # cs) = Some s" "R w [i]"
        using assms(2) [of c cs i k] Some ik ok(2) by blast
      obtain a where a: "tok_segment tb t seg = Some a" "R seg a"
        using assms(1) [of seg] less.prems(1) ok(1) Cons by auto
      have len: "length s < length rest" using w(1,2) Cons skip_bytes_shorter added_at_pos Some ik by fastforce
      have "str_ok s" using ok(2) w(1) by (simp add: str_ok_def)
      then obtain b where b: "enc_loop tb t [] s = Some b" "R s b"
        using less.hyps [OF len, of "[]"] less.prems(1) Cons w(1) len by auto
      have "R ((seg @ w) @ s) ((a @ [i]) @ b)" by (intro R_append a w b)
      moreover have "enc_loop tb t seg rest = Some ((a @ [i]) @ b)" using Cons Some ik w(2) a(1) b(1) by simp
      ultimately show ?thesis using w(1) Cons by auto
    qed
  qed
qed

end

interpretation kept_in: piecewise "\<lambda>s ids. set ids \<subseteq> S" for S
  by unfold_locales auto

text \<open>\<open>shown\<close>: the character a tokenizer's text has for another; a low bar decodes to a space.\<close>

definition decoded :: "tokenizer \<Rightarrow> scalar \<Rightarrow> scalar" where
  "decoded t c = (if flag t META \<and> c = LOW_BAR then 32 else c)"

definition speaks :: "tokenizer \<Rightarrow> str \<Rightarrow> u32 list \<Rightarrow> bool" where
  "speaks t s ids \<longleftrightarrow> concat (map (token_bytes t) ids) = to_utf8 (map (decoded t) s)"

lemma to_utf8_append [simp]: "to_utf8 (s @ u) = to_utf8 s @ to_utf8 u"
  by (simp add: to_utf8_def)

interpretation spoken_by: piecewise "speaks t" for t
  by unfold_locales (simp_all add: speaks_def)

section \<open>Merging keeps the text\<close>

lemma mergeable_made:
  assumes "mergeable mg xs k"
  obtains r where "mg (xs ! k) (xs ! Suc k) = Some (r, made_at mg xs k)" "Suc k < length xs"
  using assms by (auto simp: mergeable_def made_at_def split: option.splits prod.splits)

lemma del_update: "Suc k < length xs \<Longrightarrow> del (Suc k) (xs[k := m]) = take k xs @ m # drop (Suc (Suc k)) xs"
  by (simp add: del_def take_update_swap upd_conv_take_nth_drop take_Suc_conv_app_nth)

lemma split_at_pair: "Suc k < length xs \<Longrightarrow> xs = take k xs @ xs ! k # xs ! Suc k # drop (Suc (Suc k)) xs"
  by (metis Cons_nth_drop_Suc Suc_lessD append_take_drop_id)

lemma bpe_in: "set (bpe mg xs) \<subseteq> set xs \<union> {m. \<exists>a b r. mg a b = Some (r, m)}"
proof (induction mg xs rule: bpe.induct)
  case (1 mg xs)
  show ?case
  proof (cases "best mg xs")
    case None
    then show ?thesis by (subst bpe.simps) auto
  next
    case (Some k)
    obtain r where r: "mg (xs ! k) (xs ! Suc k) = Some (r, made_at mg xs k)" "Suc k < length xs"
      using mergeable_made [OF best_in [OF Some]] .
    have "set (del (Suc k) (xs[k := made_at mg xs k])) \<subseteq> set xs \<union> {m. \<exists>a b r. mg a b = Some (r, m)}"
      unfolding del_update [OF r(2)] using r(1) by (auto dest: in_set_takeD in_set_dropD)
    then show ?thesis using 1 [OF Some] Some by (subst bpe.simps) auto
  qed
qed

lemma bpe_speaks:
  assumes "\<And>a b r m. mg a b = Some (r, m) \<Longrightarrow> f m = f a @ f b"
  shows "concat (map f (bpe mg xs)) = concat (map f xs)"
  using assms
proof (induction mg xs rule: bpe.induct)
  case (1 mg xs)
  show ?case
  proof (cases "best mg xs")
    case None
    then show ?thesis by (subst bpe.simps) simp
  next
    case (Some k)
    obtain r where r: "mg (xs ! k) (xs ! Suc k) = Some (r, made_at mg xs k)" "Suc k < length xs"
      using mergeable_made [OF best_in [OF Some]] .
    have "concat (map f (del (Suc k) (xs[k := made_at mg xs k]))) = concat (map f xs)"
      unfolding del_update [OF r(2)]
      using "1.prems" [OF r(1)] arg_cong [OF split_at_pair [OF r(2)], of "\<lambda>xs. concat (map f xs)"] by simp
    then show ?thesis using "1.IH" [OF Some "1.prems"] Some by (subst bpe.simps) simp
  qed
qed

section \<open>A sound tokenizer\<close>

text \<open>Where the tokenizer's tables end: a token the text can become.\<close>

fun rare_ids :: "u32 list \<Rightarrow> u32 list" where
  "rare_ids (p # i # rare) = i # rare_ids rare"
| "rare_ids _ = []"

definition text_ids :: "tokenizer \<Rightarrow> u32 list list \<Rightarrow> u32 set" where
  "text_ids t keys = set (tk_bytes t) \<union> set (tk_chars t) \<union> set (rare_ids (tk_rare t)) \<union> {tk_unk t} \<union>
     (\<lambda>k. k ! 3) ` set keys \<union> set (tk_words t) \<union> set (tk_added t)"

text \<open>
  \<open>keys\<close> are the rules \<open>build\<close> filled the merge table with; the words, if any, are a table \<open>index_words\<close> fills; an added
  token has a text; the flags name one pattern, and no normalization.
\<close>

definition tok_wf :: "tokenizer \<Rightarrow> u32 list list \<Rightarrow> bool" where
  "tok_wf t keys \<longleftrightarrow> rules_ok keys \<and> tbl_fill keys (tbl_new (length keys)) = Some (tk_merges t) \<and>
     length (tk_bytes t) = 256 \<and>
     (tk_words t = [] \<or> (\<exists>m. length (tk_words t) = 2 ^ m) \<and> NONE \<in> set (tk_words t)) \<and>
     \<not> (flag t CL100K \<and> flag t O200K) \<and> \<not> flag t NFC \<and>
     (\<forall>i \<in> set (tk_added t). \<exists>w. w \<noteq> [] \<and> str_ok w \<and> token_bytes t i = to_utf8 w)"

lemma tok_wf_merge:
  assumes "tok_wf t keys"
  shows "tok_merge t = (\<lambda>a b. Some (rule_for keys a b))"
proof -
  obtain table where "tbl_fill keys (tbl_new (length keys)) = Some table"
    "\<And>u. tk_merges u = table \<Longrightarrow> tok_merge u = (\<lambda>a b. Some (rule_for keys a b))"
    using built_table [of keys] assms by (auto simp: tok_wf_def)
  then show ?thesis using assms by (simp add: tok_wf_def)
qed

text \<open>A well-formed prefix of well-formed bytes ends at the edge of a character.\<close>

lemma skip_bytes_prefix:
  assumes "str_ok w" "str_ok s" "to_utf8 s = to_utf8 w @ x"
  shows "\<exists>u. s = w @ u \<and> skip_bytes (length (to_utf8 w)) s = Some u"
  using assms
proof (induction w arbitrary: s)
  case Nil
  then show ?case by (simp add: skip_bytes.simps to_utf8_def)
next
  case (Cons c w)
  have c: "is_scalar c" using Cons.prems(1) by simp
  obtain d ds where s: "s = d # ds" using Cons.prems(3) by (cases s) auto
  have d: "is_scalar d" using Cons.prems(2) s by simp
  have same: "encode_utf8 d @ to_utf8 ds = encode_utf8 c @ to_utf8 w @ x" using Cons.prems(3) s by simp
  have "utf8_next (encode_utf8 d @ to_utf8 ds) = Whole d (length (encode_utf8 d))"
    "utf8_next (encode_utf8 c @ to_utf8 w @ x) = Whole c (length (encode_utf8 c))"
    using c d by simp_all
  then have "d = c" using same by simp
  then have "to_utf8 ds = to_utf8 w @ x" using same by simp
  moreover have "str_ok w" "str_ok ds" using Cons.prems(1,2) s by simp_all
  ultimately obtain u where "ds = w @ u" "skip_bytes (length (to_utf8 w)) ds = Some u" using Cons.IH by blast
  then show ?case using s \<open>d = c\<close> by (subst skip_bytes.simps) auto
qed

lemma added_at_text:
  assumes "tok_wf t keys" "added_at t (to_utf8 s) = Some (i, k)" "str_ok s"
  obtains w u where "s = w @ u" "skip_bytes k s = Some u" "i \<in> set (tk_added t)" "token_bytes t i = to_utf8 w"
proof -
  have i: "i \<in> set (tk_added t)" "take k (to_utf8 s) = token_bytes t i" "k = length (token_bytes t i)"
    using assms(2)
    by (auto simp: added_at_def find_Some_iff split: list.splits dest!: nth_mem set_takeWhileD set_dropWhileD)
  obtain w where w: "w \<noteq> []" "str_ok w" "token_bytes t i = to_utf8 w" using assms(1) i(1) by (auto simp: tok_wf_def)
  have "to_utf8 s = to_utf8 w @ drop k (to_utf8 s)" using i(2) w(3) by (metis append_take_drop_id)
  then obtain u where "s = w @ u" "skip_bytes (length (to_utf8 w)) s = Some u"
    using skip_bytes_prefix [OF w(2) assms(3)] by blast
  then show ?thesis using that i w(3) by simp
qed

lemma length_to_utf8: "length (to_utf8 s) \<le> 4 * length s"
proof (induction s)
  case (Cons c s)
  then show ?case using length_encode_utf8(2) [of c] by simp
qed simp

lemma length_symbols: "length (symbols t s) \<le> 4 * length s"
proof -
  have "length (symbol_step t c ids) \<le> length ids + 4" for c ids
  proof -
    have "length (encode_utf8 d) \<le> 4" for d by (rule length_encode_utf8)
    then show ?thesis by (auto simp: symbol_step_def Let_def)
  qed
  then have "length (fold (symbol_step t) s ids) \<le> length ids + 4 * length s" for ids
  proof (induction s arbitrary: ids)
    case (Cons c s)
    show ?case using Cons.IH [OF Cons.prems, of "symbol_step t c ids"] Cons.prems [of c ids] by simp
  qed simp
  from this [of "[]"] show ?thesis by (simp add: symbols_def)
qed

definition start_ids :: "tokenizer \<Rightarrow> str \<Rightarrow> u32 list" where
  "start_ids t s = (if flag t BYTE_LEVEL then map (byte_id t) (to_utf8 s) else symbols t s)"

lemma merge_all_wf:
  assumes "tok_wf t keys" "length s < 2 ^ 30"
  shows "merge_all t s = Some (filter (\<lambda>x. x \<noteq> NONE) (bpe (rule_for keys) (start_ids t s)))"
proof -
  have "length (start_ids t s) < 2 ^ 32"
    using assms(2) length_to_utf8 [of s] length_symbols [of t s] by (auto simp: start_ids_def)
  then show ?thesis
    using merge_ids_ok [of "start_ids t s" "rule_for keys"] tok_wf_merge [OF assms(1)]
    by (simp add: merge_all_def start_ids_def)
qed

lemma tok_word_wf:
  assumes "tok_wf t keys"
  obtains w where "tok_word t bs = Some w" "\<And>i. w = Some i \<Longrightarrow> i \<in> set (tk_words t) \<and> i \<noteq> NONE \<and> token_bytes t i = bs"
proof (cases "tk_words t = []")
  case True
  then show ?thesis using that [of None] by (simp add: tok_word_def)
next
  case False
  then obtain m j where m: "length (tk_words t) = 2 ^ m" and j: "j < length (tk_words t)" "tk_words t ! j = NONE"
    using assms by (auto simp: tok_wf_def in_set_conv_nth)
  let ?n = "length (tk_words t)" and ?stop = "\<lambda>i. tk_words t ! i = NONE \<or> token_bytes t (tk_words t ! i) = bs"
  let ?h = "slot (fnv bs) (?n - 1)"
  have "?stop j" using j(2) by simp
  then obtain i where i: "i < ?n" "probe ?stop (?n - 1) ?h = Some i" "?stop i"
    using probe_finds [where stop = ?stop, OF m j(1) _ slot_less [OF m, of "fnv bs"]] by blast
  let ?w = "if tk_words t ! i = NONE then None else Some (tk_words t ! i)"
  have "tok_word t bs = Some ?w" using i(2) False by (simp only: tok_word_def Let_def if_False option.map)
  moreover have "k \<in> set (tk_words t) \<and> k \<noteq> NONE \<and> token_bytes t k = bs" if "?w = Some k" for k
    using that i(1,3) by (auto split: if_splits)
  ultimately show ?thesis using that by blast
qed

lemma seg_pieces_concat: "concat (seg_pieces t prev cur s) = cur @ s"
  by (induction t prev cur s rule: seg_pieces.induct) auto

lemma pieces_short: "x \<in> set xs \<Longrightarrow> length x \<le> length (concat xs)"
  by (induction xs) auto

text \<open>A relation that holds of every merged piece and every indexed word holds of every segment, and so of every text.\<close>

lemma segment_holds:
  assumes "piecewise R" "tok_wf t keys" "length s < 2 ^ 30 - 1"
    and merged: "\<And>x. length x < 2 ^ 30 \<Longrightarrow> R x (filter (\<lambda>i. i \<noteq> NONE) (bpe (rule_for keys) (start_ids t x)))"
    and word: "\<And>x i. flag t BYTE_LEVEL \<Longrightarrow> i \<in> set (tk_words t) \<Longrightarrow> token_bytes t i = to_utf8 x \<Longrightarrow> R x [i]"
  shows "\<exists>ids. tok_segment tb t s = Some ids \<and> R (prefixed t s) ids"
proof -
  let ?s = "prefixed t s"
  have len: "length ?s < 2 ^ 30" using assms(3) by (simp add: prefixed_def)
  have all: "\<exists>b. all_some f xs = Some b \<and> R ?s b"
    if "concat xs = ?s" "\<And>x. length x < 2 ^ 30 \<Longrightarrow> \<exists>a. f x = Some a \<and> R x a" for f and xs :: "str list"
    using piecewise.all_some_holds [OF assms(1), of xs f] that len pieces_short [of _ xs] by (metis le_less_trans)
  have piece: "\<exists>a. merge_all t x = Some a \<and> R x a" if "length x < 2 ^ 30" for x
    using merge_all_wf [OF assms(2) that] merged [OF that] by simp
  show ?thesis
  proof (cases "flag t BYTE_LEVEL")
    case False
    then show ?thesis
      using all [of "seg_pieces t LOW_BAR [] ?s" "merge_all t"] piece seg_pieces_concat [of t LOW_BAR "[]" ?s]
      by (simp add: tok_segment_def)
  next
    case True
    have bp: "\<exists>a. byte_piece t x = Some a \<and> R x a" if "length x < 2 ^ 30" for x
    proof -
      obtain w where w: "tok_word t (to_utf8 x) = Some w" "\<And>i. w = Some i \<Longrightarrow> i \<in> set (tk_words t) \<and> i \<noteq> NONE \<and> token_bytes t i = to_utf8 x"
        using tok_word_wf [OF assms(2), of "to_utf8 x"] by blast
      then show ?thesis using piece [OF that] word [OF True] by (cases w) (auto simp: byte_piece_def)
    qed
    have "\<not> (flag t CL100K \<and> flag t O200K)" using assms(2) by (simp add: tok_wf_def)
    then obtain p where "pattern_of t = Some p" by (cases "flag t CL100K"; cases "flag t O200K") (simp_all add: pattern_of_def)
    then show ?thesis
      using all [of "pieces tb p ?s" "byte_piece t"] bp pieces_whole [of tb p ?s] True
      by (simp add: tok_segment_def byte_segment_def)
  qed
qed

section \<open>Properties\<close>

lemma rule_for_in: "rule_for keys a b = Some (r, m) \<Longrightarrow> \<exists>k \<in> set keys. k ! 0 = a \<and> k ! 1 = b \<and> m = k ! 3"
  by (auto simp: rule_for_def find_Some_iff)

lemma rare_id_in: "rare_id rare c \<noteq> NONE \<Longrightarrow> rare_id rare c \<in> set (rare_ids rare)"
  by (induction rare c rule: rare_id.induct) auto

lemma char_id_in: "char_id t c \<noteq> NONE \<Longrightarrow> char_id t c \<in> set (tk_chars t) \<union> set (rare_ids (tk_rare t))"
  by (auto simp: char_id_def get_def dest: rare_id_in split: if_splits)

lemma byte_id_in: "length (tk_bytes t) = 256 \<Longrightarrow> byte_id t b \<in> set (tk_bytes t)"
  by (simp add: byte_id_def)

lemma start_ids_in:
  assumes "length (tk_bytes t) = 256"
  shows "set (start_ids t s) \<subseteq> text_ids t keys"
proof -
  have "set (symbol_step t c ids) \<subseteq> set ids \<union> text_ids t keys" for c ids
    using char_id_in [of t c] char_id_in [of t LOW_BAR] byte_id_in [OF assms]
    by (auto simp: symbol_step_def Let_def text_ids_def split: if_splits)
  then have "set (fold (symbol_step t) s ids) \<subseteq> set ids \<union> text_ids t keys" for ids
  proof (induction s arbitrary: ids)
    case (Cons c s)
    show ?case using Cons.IH [OF Cons.prems, of "symbol_step t c ids"] Cons.prems [of c ids] by auto
  qed simp
  from this [of "[]"] show ?thesis
    using byte_id_in [OF assms] by (auto simp: start_ids_def symbols_def text_ids_def)
qed

lemma encode_kept_in:
  assumes "tok_wf t keys" "str_ok s" "length s < 2 ^ 30 - 1"
  shows "\<exists>ids. tok_encode tb t s = Some ids \<and> set ids \<subseteq> text_ids t keys"
proof -
  have merged: "set (filter (\<lambda>i. i \<noteq> NONE) (bpe (rule_for keys) (start_ids t x))) \<subseteq> text_ids t keys" for x
    using bpe_in [of "rule_for keys" "start_ids t x"] start_ids_in [of t x keys] assms(1)
    by (auto simp: tok_wf_def text_ids_def dest!: rule_for_in)
  have seg: "\<exists>ids. tok_segment tb t u = Some ids \<and> set ids \<subseteq> text_ids t keys" if "length u \<le> length s" "str_ok u" for u
    using segment_holds [where s = u and tb = tb, OF kept_in.piecewise_axioms [of "text_ids t keys"] assms(1)] that assms(3) merged
    by (simp add: text_ids_def)
  have "\<exists>ids. enc_loop tb t [] s = Some ids \<and> set ids \<subseteq> text_ids t keys"
  proof (rule kept_in.enc_loop_holds [where n = "length s", of tb t "text_ids t keys" "[]" s, simplified])
    fix c cs i k
    assume "added_at t (encode_utf8 c @ to_utf8 cs) = Some (i, k)" "is_scalar c \<and> str_ok cs"
    then have "added_at t (to_utf8 (c # cs)) = Some (i, k)" "str_ok (c # cs)" by simp_all
    then obtain w u where "c # cs = w @ u" "skip_bytes k (c # cs) = Some u" "i \<in> set (tk_added t)" "token_bytes t i = to_utf8 w"
      by (rule added_at_text [OF assms(1)])
    moreover have "set (tk_added t) \<subseteq> text_ids t keys" by (auto simp: text_ids_def)
    ultimately show "\<exists>w u. c # cs = w @ u \<and> skip_bytes k (c # cs) = Some u \<and> i \<in> text_ids t keys" by blast
  qed (use seg assms(2) in auto)
  then show ?thesis using assms(1) by (simp add: tok_encode_def tok_wf_def)
qed

text \<open>
  C4. \<open>merge_all\<close> is byte-pair encoding. On a tokenizer whose table was filled from a list of rules, the linked lists, the
  tournament tree and the hashed table give what the textbook algorithm gives on the plain list of symbols: the pair of
  lowest rank first, the leftmost of equals, until none merges. It always returns.
\<close>

theorem merge_all_is_bpe:
  assumes "tok_wf t keys" "length s < 2 ^ 30"
  shows "merge_all t s = Some (filter (\<lambda>x. x \<noteq> NONE) (bpe (rule_for keys) (start_ids t s)))"
  using assms by (rule merge_all_wf)


text \<open>What a tokenizer's texts must say for decoding to undo encoding.\<close>

definition tok_faithful :: "tokenizer \<Rightarrow> u32 list list \<Rightarrow> bool" where
  "tok_faithful t keys \<longleftrightarrow> length (tk_offsets t) < 2 ^ 32 \<and> \<not> flag t PREPEND \<and>
     (\<forall>k \<in> set keys. token_bytes t (k ! 3) = token_bytes t (k ! 0) @ token_bytes t (k ! 1)) \<and>
     (\<forall>b. byte_id t b \<noteq> NONE \<and> token_bytes t (byte_id t b) = [b]) \<and>
     (if flag t BYTE_LEVEL then \<not> flag t META
      else flag t BYTES \<and> (flag t META \<longrightarrow> char_id t LOW_BAR \<noteq> NONE) \<and>
        (\<forall>c. char_id t c \<noteq> NONE \<longrightarrow> token_bytes t (char_id t c) = encode_utf8 (decoded t c))) \<and>
     (\<forall>i \<in> set (tk_added t). \<forall>w. token_bytes t i = to_utf8 w \<longrightarrow> LOW_BAR \<notin> set w) \<and>
     text_ids t keys \<inter> set (tk_special t) = {}"

lemma token_NONE: "length (tk_offsets t) < 2 ^ 32 \<Longrightarrow> token_bytes t NONE = []"
  by (simp add: token_bytes_def slice_def NONE_def)

lemma concat_filter_NONE:
  "token_bytes t NONE = [] \<Longrightarrow> concat (map (token_bytes t) (filter (\<lambda>i. i \<noteq> NONE) ids)) = concat (map (token_bytes t) ids)"
  by (induction ids) auto

lemma start_ids_speak:
  assumes "tok_faithful t keys"
  shows "speaks t s (start_ids t s)"
proof (cases "flag t BYTE_LEVEL")
  case True
  have "concat (map (token_bytes t) (map (byte_id t) bs)) = bs" for bs
    using assms by (induction bs) (auto simp: tok_faithful_def)
  moreover have "map (decoded t) s = s" using assms True by (simp add: tok_faithful_def decoded_def map_idI)
  ultimately show ?thesis using True by (simp add: speaks_def start_ids_def)
next
  case False
  let ?says = "\<lambda>ids. concat (map (token_bytes t) ids)"
  have bytes: "?says (map (byte_id t) bs) = bs" "list_all (\<lambda>i. i \<noteq> NONE \<and> flag t BYTES) (map (byte_id t) bs)" for bs
    using assms False by (induction bs) (auto simp: tok_faithful_def)
  have chars: "token_bytes t (char_id t c) = encode_utf8 (decoded t c)" if "char_id t c \<noteq> NONE" for c
    using assms False that by (simp add: tok_faithful_def)
  have bar: "char_id t LOW_BAR \<noteq> NONE" if "flag t META" using assms False that by (simp add: tok_faithful_def)
  have step: "?says (symbol_step t c ids) = ?says ids @ encode_utf8 (decoded t c)" for c ids
  proof (cases "c = 32 \<and> flag t META")
    case True
    moreover have "LOW_BAR \<noteq> 32" by (simp add: LOW_BAR_def)
    ultimately show ?thesis using bar chars [of LOW_BAR] by (simp add: symbol_step_def Let_def decoded_def)
  next
    case plain: False
    show ?thesis
    proof (cases "char_id t c = NONE")
      case True
      then have "decoded t c = c" using bar by (auto simp: decoded_def)
      then show ?thesis using plain True bytes by (auto simp: symbol_step_def Let_def)
    next
      case False
      then show ?thesis using plain chars by (auto simp: symbol_step_def Let_def)
    qed
  qed
  have "?says (fold (symbol_step t) s ids) = ?says ids @ to_utf8 (map (decoded t) s)" for ids
    by (induction s arbitrary: ids) (simp_all add: step to_utf8_def)
  from this [of "[]"] show ?thesis using False by (simp add: speaks_def start_ids_def symbols_def)
qed

lemma encode_speaks:
  assumes "tok_wf t keys" "tok_faithful t keys" "str_ok s" "length s < 2 ^ 30 - 1"
  shows "\<exists>ids. tok_encode tb t s = Some ids \<and> speaks t s ids"
proof -
  have none: "token_bytes t NONE = []" using assms(2) by (intro token_NONE) (simp add: tok_faithful_def)
  have rule: "token_bytes t m = token_bytes t a @ token_bytes t b" if "rule_for keys a b = Some (r, m)" for a b r m
    using rule_for_in [OF that] assms(2) by (auto simp: tok_faithful_def)
  have merged: "speaks t x (filter (\<lambda>i. i \<noteq> NONE) (bpe (rule_for keys) (start_ids t x)))" for x
    using start_ids_speak [OF assms(2), of x] bpe_speaks [of "rule_for keys" "token_bytes t" "start_ids t x"] rule
    by (simp add: speaks_def concat_filter_NONE [OF none])
  have word: "speaks t x [i]" if "flag t BYTE_LEVEL" "token_bytes t i = to_utf8 x" for x i
    using that assms(2) by (simp add: speaks_def tok_faithful_def decoded_def map_idI)
  have seg: "\<exists>ids. tok_segment tb t u = Some ids \<and> speaks t u ids" if "length u \<le> length s" "str_ok u" for u
  proof -
    have "prefixed t u = u" using assms(2) by (simp add: prefixed_def tok_faithful_def)
    then show ?thesis
      using segment_holds [where s = u and tb = tb, OF spoken_by.piecewise_axioms [of t] assms(1)] that assms(4) merged word by simp
  qed
  have "\<exists>ids. enc_loop tb t [] s = Some ids \<and> speaks t ([] @ s) ids"
  proof (rule spoken_by.enc_loop_holds [where n = "length s"])
    fix c cs i k
    assume "added_at t (to_utf8 (c # cs)) = Some (i, k)" "str_ok (c # cs)"
    then obtain w u where w: "c # cs = w @ u" "skip_bytes k (c # cs) = Some u" "i \<in> set (tk_added t)" "token_bytes t i = to_utf8 w"
      using added_at_text [OF assms(1)] by metis
    then have "LOW_BAR \<notin> set w" using assms(2) by (simp add: tok_faithful_def)
    then have "map (decoded t) w = w" by (auto intro!: map_idI simp: decoded_def)
    then have "speaks t w [i]" using w(4) by (simp add: speaks_def)
    then show "\<exists>w u. c # cs = w @ u \<and> skip_bytes k (c # cs) = Some u \<and> speaks t w [i]" using w(1,2) by blast
  qed (use seg assms(3) in auto)
  then show ?thesis using assms(1) by (simp add: tok_encode_def tok_wf_def)
qed


text \<open>A byte-level tokenizer with one merge and one marker.\<close>

definition ab_rules :: "u32 list list" where
  "ab_rules = [[97, 98, 0, 256]]"

definition ab_tokens :: tokenizer where
  "ab_tokens =
     \<lparr>tk_flags = 16, tk_unk = NONE, tk_offsets = map word_of_nat ([0..<257] @ [258, 259]),
      tk_text = map word_of_nat [0..<256] @ [97, 98, 60], tk_special = [257], tk_bytes = map word_of_nat [0..<256],
      tk_chars = [], tk_rare = [], tk_joins = [], tk_added = [],
      tk_merges = the (tbl_fill ab_rules (tbl_new (length ab_rules))), tk_words = [], tk_frame = (NONE, NONE)\<rparr>"

lemma ab_wf: "tok_wf ab_tokens ab_rules"
proof -
  have rules: "rules_ok ab_rules" by (simp add: rules_ok_def ab_rules_def NONE_def)
  obtain table where "tbl_fill ab_rules (tbl_new (length ab_rules)) = Some table" using built_table [OF rules] .
  then show ?thesis using rules by (simp add: tok_wf_def ab_tokens_def flag_def flag_defs)
qed

lemma ab_ids: "text_ids ab_tokens ab_rules = word_of_nat ` {0..<256} \<union> {256, NONE}"
  by (auto simp: text_ids_def ab_tokens_def ab_rules_def)

lemma ab_marker: "257 \<notin> text_ids ab_tokens ab_rules"
proof -
  have "unat i \<noteq> 257" if "i \<in> text_ids ab_tokens ab_rules" for i
    using that unfolding ab_ids by (auto simp: unat_of_nat NONE_def)
  then show ?thesis by fastforce
qed

lemma token_bytes_at:
  assumes "unat i + 2 \<le> length (tk_offsets t)"
  shows "token_bytes t i = take (unat (tk_offsets t ! (unat i + 1)) - unat (tk_offsets t ! unat i)) (drop (unat (tk_offsets t ! unat i)) (tk_text t))"
  using assms by (simp add: token_bytes_def slice_def)

lemma ab_offset:
  "n < 259 \<Longrightarrow> tk_offsets ab_tokens ! n = (if n < 257 then word_of_nat n else if n = 257 then 258 else 259)"
  "length (tk_offsets ab_tokens) = 259"
  by (auto simp: ab_tokens_def nth_append nth_Cons split: nat.splits)

lemma ab_text:
  "n < 256 \<Longrightarrow> token_bytes ab_tokens (word_of_nat n) = [word_of_nat n]" "token_bytes ab_tokens 256 = [97, 98]"
proof -
  have "token_bytes ab_tokens 256 = take 2 (drop 256 (tk_text ab_tokens))"
    by (simp add: token_bytes_at ab_offset)
  then show "token_bytes ab_tokens 256 = [97, 98]" by (simp add: ab_tokens_def)
  assume n: "n < 256"
  have u: "unat (word_of_nat m :: u32) = m" if "m < 300" for m using that by (simp add: unat_of_nat)
  have "token_bytes ab_tokens (word_of_nat n) = take 1 (drop n (tk_text ab_tokens))"
    using n u [of n] u [of "Suc n"] by (simp add: token_bytes_at ab_offset)
  also have "\<dots> = [tk_text ab_tokens ! n]" using n by (simp add: take_Suc hd_drop_conv_nth ab_tokens_def nth_append)
  finally show "token_bytes ab_tokens (word_of_nat n) = [word_of_nat n]" using n by (simp add: ab_tokens_def nth_append)
qed

lemma ab_byte: "byte_id ab_tokens b = word_of_nat (unat b)"
  by (simp add: byte_id_def ab_tokens_def)

lemma ab_faithful: "tok_faithful ab_tokens ab_rules"
proof -
  have special: "set (tk_special ab_tokens) = {257}" "tk_added ab_tokens = []" by (simp_all add: ab_tokens_def)
  have flags: "\<not> flag ab_tokens PREPEND" "flag ab_tokens BYTE_LEVEL" "\<not> flag ab_tokens META"
    by (simp_all add: flag_def flag_defs ab_tokens_def)
  have "byte_id ab_tokens b \<noteq> NONE \<and> token_bytes ab_tokens (byte_id ab_tokens b) = [b]" for b
  proof
    have "unat (byte_id ab_tokens b) = unat b mod 2 ^ 32" unfolding ab_byte unat_of_nat by simp
    then have "unat (byte_id ab_tokens b) = unat b" using unat_u8_less [of b] by simp
    then show "byte_id ab_tokens b \<noteq> NONE" using unat_u8_less [of b] by (auto simp: NONE_def simp del: unat_u8_less)
    show "token_bytes ab_tokens (byte_id ab_tokens b) = [b]" unfolding ab_byte using ab_text(1) [of "unat b"] by simp
  qed
  moreover have "token_bytes ab_tokens (k ! 3) = token_bytes ab_tokens (k ! 0) @ token_bytes ab_tokens (k ! 1)" if "k \<in> set ab_rules" for k
    using that ab_text(2) ab_text(1) [of 97] ab_text(1) [of 98] by (simp add: ab_rules_def)
  ultimately show ?thesis using special flags ab_marker ab_offset(2) unfolding tok_faithful_def by simp
qed

theorem merge_all_is_bpe_witness: "merge_all ab_tokens [98, 97, 98] = Some [98, 256]"
proof -
  have ids: "start_ids ab_tokens [98, 97, 98] = [98, 97, 98]"
    by (simp add: start_ids_def flag_def flag_defs ab_tokens_def byte_id_def to_utf8_def encode_utf8_def byte_def)
  have best: "best (rule_for ab_rules) [98, 97, 98] = Some 1" "best (rule_for ab_rules) [98, 256] = None"
    by (simp_all add: best_def mergeable_def rank_at_def rule_for_def ab_rules_def NONE_def upt_rec)
  have made: "made_at (rule_for ab_rules) [98, 97, 98] (Suc 0) = 256" by (simp add: made_at_def rule_for_def ab_rules_def)
  have "bpe (rule_for ab_rules) [98, 97, 98] = bpe (rule_for ab_rules) [98, 256]"
    by (subst bpe.simps) (simp add: best made del_def)
  also have "\<dots> = [98, 256]" by (subst bpe.simps) (simp add: best)
  finally have "bpe (rule_for ab_rules) [98, 97, 98] = [98, 256]" .
  then show ?thesis using merge_all_is_bpe [OF ab_wf, of "[98, 97, 98]"] ids by (simp add: NONE_def)
qed



section \<open>The index of words\<close>

definition word_home :: "nat \<Rightarrow> bytes \<Rightarrow> nat" where
  "word_home n bs = slot (fnv bs) (n - 1)"

definition word_key :: "tokenizer \<Rightarrow> u32 \<Rightarrow> bytes option" where
  "word_key t i = (if i = NONE then None else Some (token_bytes t i))"

interpretation indexed: probing word_home "word_key t" for t
  by unfold_locales (use slot_less in \<open>simp add: word_home_def\<close>)

lemma other_free:
  assumes "Suc (length (filter (\<lambda>x. x \<noteq> NONE) es)) < length es" "i < length es"
  shows "\<exists>j < length es. j \<noteq> i \<and> es ! j = NONE"
proof (rule ccontr)
  assume "\<not> ?thesis"
  then have "length (filter (\<lambda>x. x \<noteq> NONE) es) = card {j. j < length es \<and> es ! j \<noteq> NONE}" "{..<length es} - {i} \<subseteq> {j. j < length es \<and> es ! j \<noteq> NONE}"
    by (auto simp: length_filter_conv_card)
  then have "card ({..<length es} - {i}) \<le> length (filter (\<lambda>x. x \<noteq> NONE) es)" by (simp add: card_mono)
  then show False using assms by simp
qed

lemma word_put_ok:
  assumes "indexed.invar t es" "Suc (length (filter (\<lambda>x. x \<noteq> NONE) es)) < length es" "i \<noteq> NONE"
    and "\<forall>x \<in> set es. x \<noteq> NONE \<longrightarrow> token_bytes t x \<noteq> token_bytes t i"
  obtains es' where "word_put t i es = Some es'" "indexed.invar t es'" "length es' = length es"
    "length (filter (\<lambda>x. x \<noteq> NONE) es') \<le> Suc (length (filter (\<lambda>x. x \<noteq> NONE) es))"
    "set es' \<subseteq> insert i (set es)"
    "indexed.entry t es' = (indexed.entry t es)(token_bytes t i \<mapsto> i)"
proof -
  let ?n = "length es" and ?bs = "token_bytes t i"
  obtain m where m: "?n = 2 ^ m" using assms(1) by (auto simp: indexed.invar_def)
  obtain j where j: "indexed.seek t es ?bs = Some j" "j < ?n" "indexed.ends t es ?bs j" using indexed.seek_Some [OF assms(1)] .
  have ends: "indexed.ends t es ?bs k \<longleftrightarrow> es ! k = NONE" if "k < ?n" for k
    using that assms(4) by (auto simp: indexed.ends_def word_key_def)
  have "probe (\<lambda>k. es ! k = NONE) (?n - 1) (slot (fnv ?bs) (?n - 1)) = probe (indexed.ends t es ?bs) (?n - 1) (slot (fnv ?bs) (?n - 1))"
    by (rule probe_cong [where Q = "indexed.ends t es ?bs", OF m slot_less [OF m] _ j(2,3)]) (simp add: ends)
  then have put: "word_put t i es = Some (es[j := i])"
    using j(1) by (simp add: word_put_def indexed.seek_def word_home_def Let_def)
  have free: "word_key t (es ! j) = None" using j(2,3) ends by (simp add: word_key_def)
  have key: "word_key t i = Some ?bs" using assms(3) by (simp add: word_key_def)
  have more: "\<exists>k < ?n. k \<noteq> j \<and> word_key t (es ! k) = None" using other_free [OF assms(2) j(2)] by (auto simp: word_key_def)
  have "filter (\<lambda>x. x \<noteq> NONE) (es[j := i]) = filter (\<lambda>x. x \<noteq> NONE) (take j es) @ i # filter (\<lambda>x. x \<noteq> NONE) (drop (Suc j) es)"
    using j(2) assms(3) by (simp add: upd_conv_take_nth_drop)
  moreover have "length (filter (\<lambda>x. x \<noteq> NONE) (take j es)) + length (filter (\<lambda>x. x \<noteq> NONE) (drop (Suc j) es)) \<le> length (filter (\<lambda>x. x \<noteq> NONE) es)"
    by (subst (3) id_take_nth_drop [OF j(2)]) simp
  ultimately show ?thesis
    using that [OF put] indexed.insert_invar [OF assms(1) j(1) free key more] indexed.insert_entry [OF assms(1) j(1) free key more]
      set_update_subset_insert by fastforce
qed

lemma word_fill_ok:
  assumes "indexed.invar t es" "length (filter (\<lambda>x. x \<noteq> NONE) es) + length is < length es" "NONE \<notin> set is"
    and "distinct (map (token_bytes t) is)" "\<forall>x \<in> set es. x \<noteq> NONE \<longrightarrow> token_bytes t x \<notin> token_bytes t ` set is"
  shows "\<exists>es'. word_fill t is es = Some es' \<and> indexed.invar t es' \<and>
    (\<forall>bs. indexed.entry t es' bs = (case indexed.entry t es bs of Some i \<Rightarrow> Some i | None \<Rightarrow> find (\<lambda>i. token_bytes t i = bs) is))"
  using assms
proof (induction "is" arbitrary: es)
  case Nil
  then show ?case by (auto split: option.splits)
next
  case (Cons i "is")
  obtain e1 where e1: "word_put t i es = Some e1" "indexed.invar t e1" "length e1 = length es"
    "length (filter (\<lambda>x. x \<noteq> NONE) e1) \<le> Suc (length (filter (\<lambda>x. x \<noteq> NONE) es))" "set e1 \<subseteq> insert i (set es)"
    "indexed.entry t e1 = (indexed.entry t es)(token_bytes t i \<mapsto> i)"
    using word_put_ok [OF Cons.prems(1), of i] Cons.prems(2,3,5) by auto
  have "\<exists>es'. word_fill t is e1 = Some es' \<and> indexed.invar t es' \<and>
      (\<forall>bs. indexed.entry t es' bs = (case indexed.entry t e1 bs of Some i \<Rightarrow> Some i | None \<Rightarrow> find (\<lambda>i. token_bytes t i = bs) is))"
    using e1 Cons.prems by (intro Cons.IH) auto
  then obtain e2 where e2: "word_fill t is e1 = Some e2" "indexed.invar t e2"
      "\<forall>bs. indexed.entry t e2 bs = (case indexed.entry t e1 bs of Some i \<Rightarrow> Some i | None \<Rightarrow> find (\<lambda>i. token_bytes t i = bs) is)"
    by blast
  have "indexed.entry t es (token_bytes t i) = None"
    using Cons.prems(5) by (auto simp: indexed.entry_None_iff [OF Cons.prems(1)] word_key_def)
  then show ?case using e1(1,6) e2 by (auto split: option.splits)
qed

lemma token_bytes_words [simp]: "token_bytes (t\<lparr>tk_words := ws\<rparr>) = token_bytes t"
  by (simp add: token_bytes_def fun_eq_iff split: option.splits)

lemma tok_word_entry:
  assumes "indexed.invar t es" "es \<noteq> []"
  shows "tok_word (t\<lparr>tk_words := es\<rparr>) bs = Some (indexed.entry t es bs)"
proof -
  let ?n = "length es"
  obtain m where m: "?n = 2 ^ m" using assms(1) by (auto simp: indexed.invar_def)
  obtain j where j: "indexed.seek t es bs = Some j" "j < ?n" "indexed.ends t es bs j" using indexed.seek_Some [OF assms(1)] .
  have "probe (\<lambda>i. es ! i = NONE \<or> token_bytes t (es ! i) = bs) (?n - 1) (slot (fnv bs) (?n - 1)) =
      probe (indexed.ends t es bs) (?n - 1) (slot (fnv bs) (?n - 1))"
    by (rule probe_cong [where Q = "indexed.ends t es bs", OF m slot_less [OF m] _ j(2,3)]) (simp add: indexed.ends_def word_key_def)
  then show ?thesis
    using j(1) assms(2) by (simp add: tok_word_def indexed.entry_def indexed.seek_def word_home_def word_key_def Let_def)
qed

text \<open>
  The index of words: with token texts that differ, \<open>index_words\<close> returns, and a lookup in its table finds exactly
  the token of a text, if one that was not skipped has it; it always returns.
\<close>

theorem words_indexed:
  assumes "is = filter (\<lambda>i. i \<notin> set skip) (map word_of_nat [0..<tok_len t])" "distinct (map (token_bytes t) is)"
    and "tok_len t < 2 ^ 32 - 1" "0 < tok_len t"
  shows "\<exists>t'. index_words t skip = Some t' \<and> (\<forall>bs. tok_word t' bs = Some (find (\<lambda>i. token_bytes t i = bs) is))"
proof -
  let ?n = "max (next_power_of_two (2 * tok_len t)) 2"
  let ?es = "replicate ?n NONE"
  obtain m where "next_power_of_two (2 * tok_len t) = 2 ^ m" using next_power_of_two_power by blast
  then obtain l where l: "length ?es = 2 ^ l" by (metis length_replicate max_def power_one_right)
  have inv: "indexed.invar t ?es" "indexed.entry t ?es = Map.empty"
    using indexed.empty_invar [OF l, of t] by (simp_all add: word_key_def)
  have len: "length is \<le> tok_len t" using assms(1) by (metis length_filter_le length_map length_upt minus_nat.diff_0)
  have none: "NONE \<notin> set is"
  proof
    assume "NONE \<in> set is"
    then obtain n where "n < tok_len t" "NONE = (word_of_nat n :: u32)" using assms(1) by auto
    moreover have "unat (word_of_nat n :: u32) = n" using \<open>n < tok_len t\<close> assms(3) by (simp add: unat_of_nat)
    ultimately have "unat NONE = n" by simp
    then show False using \<open>n < tok_len t\<close> assms(3) by (simp add: NONE_def)
  qed
  have "length is < ?n" using len next_power_of_two_ge [of "2 * tok_len t"] assms(4) by simp
  then obtain es where es: "word_fill t is ?es = Some es" "indexed.invar t es"
    "\<forall>bs. indexed.entry t es bs = find (\<lambda>i. token_bytes t i = bs) is"
    using word_fill_ok [OF inv(1) _ none assms(2)] inv(2) by auto
  then have "es \<noteq> []" by (auto simp: indexed.invar_def)
  then show ?thesis using es tok_word_entry [OF es(2)] assms(1) by (simp add: index_words_def)
qed

definition three_words :: tokenizer where
  "three_words =
     \<lparr>tk_flags = 16, tk_unk = NONE, tk_offsets = [0, 1, 2, 4], tk_text = [97, 98, 97, 98], tk_special = [], tk_bytes = [],
      tk_chars = [], tk_rare = [], tk_joins = [], tk_added = [], tk_merges = [], tk_words = [], tk_frame = (NONE, NONE)\<rparr>"

theorem words_indexed_witness:
  "\<exists>t'. index_words three_words [1] = Some t' \<and> tok_word t' [97, 98] = Some (Some 2) \<and> tok_word t' [98] = Some None"
proof -
  have ids: "filter (\<lambda>i. i \<notin> set [1]) (map word_of_nat [0..<tok_len three_words]) = [0, 2 :: u32]"
    by (simp add: tok_len_def three_words_def upt_rec)
  have says: "token_bytes three_words 0 = [97]" "token_bytes three_words 2 = [97, 98]"
    by (simp_all add: token_bytes_def slice_def three_words_def)
  have "distinct (map (token_bytes three_words) [0, 2])" using says by simp
  then obtain t' where "index_words three_words [1] = Some t'"
    "\<forall>bs. tok_word t' bs = Some (find (\<lambda>i. token_bytes three_words i = bs) [0, 2])"
    using words_indexed [OF ids [symmetric]] by (auto simp: tok_len_def three_words_def)
  then show ?thesis using says by auto
qed

end
