(* ===== verification/Json.thy ===== *)
theory Json
  imports Utf8
begin

text \<open>
  The JSON reader and writer (\<open>json.rs\<close>). A parser is the bytes from its position on, and the position, which
  only its errors show. Numbers are \<open>f64\<close> values, left abstract: the reader takes \<open>str::parse\<close> as a parameter
  and the writer the \<open>{}\<close> format. The release profile wraps \<open>u32\<close> arithmetic, and so does \<open>unicode\<close> here.
  Nested values recurse to a depth bounded by the document's length (\<open>jvalue\<close>'s first argument), and a list's
  loop runs at most once per byte; \<open>parse_returns\<close> shows the bounds are never reached.
\<close>

unbundle bit_operations_syntax

section \<open>Values\<close>

datatype 'f json = Null | Bool bool | Num 'f | Str str | Arr "'f json list" | Obj "(str \<times> 'f json) list"

fun json_str :: "'f json \<Rightarrow> str option" where
  "json_str (Str s) = Some s"
| "json_str _ = None"

fun json_num :: "'f json \<Rightarrow> 'f option" where
  "json_num (Num n) = Some n"
| "json_num _ = None"

fun json_bool :: "'f json \<Rightarrow> bool option" where
  "json_bool (Bool b) = Some b"
| "json_bool _ = None"

fun json_arr :: "'f json \<Rightarrow> 'f json list option" where
  "json_arr (Arr a) = Some a"
| "json_arr _ = None"

fun json_obj :: "'f json \<Rightarrow> (str \<times> 'f json) list option" where
  "json_obj (Obj kvs) = Some kvs"
| "json_obj _ = None"

definition json_get :: "str \<Rightarrow> 'f json \<Rightarrow> 'f json option" where
  "json_get key v = Option.bind (json_obj v) (\<lambda>kvs. map_option snd (find (\<lambda>kv. fst kv = key) kvs))"

section \<open>Writing\<close>

definition hex_digit :: "nat \<Rightarrow> scalar" where
  "hex_digit n = (if n < 10 then 48 + n else 87 + n)"

definition quote_char :: "scalar \<Rightarrow> str" where
  "quote_char c =
     (if c = 34 \<or> c = 92 then [92, c]
      else if c = 10 then [92, 110]
      else if c = 13 then [92, 114]
      else if c = 9 then [92, 116]
      else if c < 0x20 then [92, 117, 48, 48, hex_digit (c div 16), hex_digit (c mod 16)]
      else [c])"

definition quoted :: "str \<Rightarrow> str" where
  "quoted s = 34 # concat (map quote_char s) @ [34]"

fun join :: "str list \<Rightarrow> str" where
  "join [] = []"
| "join [s] = s"
| "join (s # ss) = s @ [44, 32] @ join ss"

fun dumps :: "('f \<Rightarrow> str) \<Rightarrow> 'f json \<Rightarrow> str" where
  "dumps shw Null = [110, 117, 108, 108]"
| "dumps shw (Bool b) = (if b then [116, 114, 117, 101] else [102, 97, 108, 115, 101])"
| "dumps shw (Num n) = shw n"
| "dumps shw (Str s) = quoted s"
| "dumps shw (Arr a) = [91] @ join (map (dumps shw) a) @ [93]"
| "dumps shw (Obj kvs) = [123] @ join (map (\<lambda>(k, v). quoted k @ [58, 32] @ dumps shw v) kvs) @ [125]"

section \<open>Reading\<close>

record parser =
  ps_i :: nat
  ps_rest :: bytes

datatype json_error = Fail_at string nat

definition adv :: "nat \<Rightarrow> parser \<Rightarrow> parser" where
  "adv n p = \<lparr>ps_i = ps_i p + n, ps_rest = drop n (ps_rest p)\<rparr>"

definition fail :: "string \<Rightarrow> parser \<Rightarrow> json_error" where
  "fail what p = Fail_at what (ps_i p)"

definition is_space :: "u8 \<Rightarrow> bool" where
  "is_space b \<longleftrightarrow> b \<in> {32, 9, 10, 12, 13}"

definition jspace :: "parser \<Rightarrow> parser" where
  "jspace p = adv (length (takeWhile is_space (ps_rest p))) p"

definition eat :: "bytes \<Rightarrow> parser \<Rightarrow> bool \<times> parser" where
  "eat w p = (if take (length w) (ps_rest p) = w then (True, adv (length w) p) else (False, p))"

definition hex_value :: "u8 \<Rightarrow> nat option" where
  "hex_value b =
     (let n = unat b in
      if 48 \<le> n \<and> n \<le> 57 then Some (n - 48)
      else if 97 \<le> n \<and> n \<le> 102 then Some (n - 87)
      else if 65 \<le> n \<and> n \<le> 70 then Some (n - 55)
      else None)"

text \<open>\<open>u32::from_str_radix(d, 16)\<close> on at most four characters: a \<open>+\<close> may come first.\<close>

fun hex_digits :: "nat \<Rightarrow> bytes \<Rightarrow> nat option" where
  "hex_digits n [] = Some n"
| "hex_digits n (b # bs) = Option.bind (hex_value b) (\<lambda>d. hex_digits (16 * n + d) bs)"

definition from_hex :: "bytes \<Rightarrow> nat option" where
  "from_hex bs =
     (let ds = (if 1 < length bs \<and> hd bs = 43 then tl bs else bs) in if ds = [] then None else hex_digits 0 ds)"

definition jhex :: "parser \<Rightarrow> json_error + (u32 \<times> parser)" where
  "jhex p =
     (let digits = Option.bind (slice (ps_rest p) 0 4) from_hex; p = adv 4 p in
      rmap (\<lambda>n. (word_of_nat n, p)) (ok_or (fail (''bad '' @ CHR 0x5C # ''u escape'') p) digits))"

definition from_u32 :: "u32 \<Rightarrow> scalar" where
  "from_u32 w = (if is_scalar (unat w) then unat w else 0xFFFD)"

definition unicode :: "parser \<Rightarrow> json_error + (scalar \<times> parser)" where
  "unicode p =
     rbind (jhex p) (\<lambda>(hi, p).
       case (if 0xD800 \<le> hi \<and> hi < 0xDC00 then eat [92, 117] p else (False, p)) of
         (True, p) \<Rightarrow> rbind (jhex p) (\<lambda>(lo, p). Inr (from_u32 (0x10000 + push_bit 10 (hi - 0xD800) + (lo - 0xDC00)), p))
       | (False, p) \<Rightarrow> Inr (from_u32 hi, p))"

definition escape :: "parser \<Rightarrow> json_error + (scalar \<times> parser)" where
  "escape p =
     (case ps_rest p of [] \<Rightarrow> Inl (fail ''unterminated escape'' p)
      | c # _ \<Rightarrow>
          let p = adv 1 p in
          if c = 110 then Inr (10, p)
          else if c = 116 then Inr (9, p)
          else if c = 114 then Inr (13, p)
          else if c = 98 then Inr (8, p)
          else if c = 102 then Inr (12, p)
          else if c = 117 then unicode p
          else Inr (unat c, p))"

lemma ps_adv [simp]: "ps_rest (adv n p) = drop n (ps_rest p)" "ps_i (adv n p) = ps_i p + n"
  by (simp_all add: adv_def)

lemma eat_rest: "eat w p = (b, p') \<Longrightarrow> length (ps_rest p') \<le> length (ps_rest p)"
  by (auto simp: eat_def split: if_splits)

lemma jhex_rest: "jhex p = Inr (x, p') \<Longrightarrow> length (ps_rest p') \<le> length (ps_rest p)"
  by (auto simp: jhex_def Let_def result_simps)

lemma unicode_rest:
  assumes "unicode p = Inr (c, p')"
  shows "length (ps_rest p') \<le> length (ps_rest p)"
proof -
  obtain hi p1 where hi: "jhex p = Inr (hi, p1)" using assms by (auto simp: unicode_def result_simps)
  obtain b p2 where b: "(if 0xD800 \<le> hi \<and> hi < 0xDC00 then eat [92, 117] p1 else (False, p1)) = (b, p2)" by fastforce
  have "length (ps_rest p2) \<le> length (ps_rest p1)" using b eat_rest by (fastforce split: if_splits)
  moreover have "length (ps_rest p') \<le> length (ps_rest p2)"
    using assms hi b jhex_rest [of p2] by (cases b) (auto simp: unicode_def result_simps)
  ultimately show ?thesis using jhex_rest [OF hi] by linarith
qed

lemma escape_rest: "escape p = Inr (c, p') \<Longrightarrow> length (ps_rest p') \<le> length (ps_rest p)"
  by (auto simp: escape_def Let_def split: list.splits if_splits dest!: unicode_rest)

definition unescaped :: "u8 \<Rightarrow> bool" where
  "unescaped b \<longleftrightarrow> b \<noteq> 34 \<and> b \<noteq> 92"

function string_loop :: "bytes \<Rightarrow> parser \<Rightarrow> json_error + (str \<times> parser)" where
  "string_loop out p =
     (let rest = ps_rest p; run = length (takeWhile unescaped rest) in
      if run = length rest then Inl (fail ''unterminated string'' p)
      else let out = out @ take run rest; q = adv (run + 1) p in
        if rest ! run = 34 then rmap (\<lambda>s. (s, q)) (ok_or (fail ''invalid UTF-8'' q) (from_utf8 out))
        else rbind (escape q) (\<lambda>(c, q). string_loop (out @ encode_utf8 c) q))"
  by pat_completeness auto
termination
proof (relation "measure (\<lambda>(_, p). length (ps_rest p))", goal_cases)
  case (2 out p rest run out' q x c q')
  have "length (takeWhile unescaped (ps_rest p)) \<le> length (ps_rest p)" by (rule length_takeWhile_le)
  with 2 show ?case by (auto dest!: escape_rest)
qed simp

declare string_loop.simps [simp del]

definition jstring :: "parser \<Rightarrow> json_error + (str \<times> parser)" where
  "jstring p = (case eat [34] p of (False, p) \<Rightarrow> Inl (fail ''expected a string'' p) | (True, p) \<Rightarrow> string_loop [] p)"

definition number_byte :: "u8 \<Rightarrow> bool" where
  "number_byte b \<longleftrightarrow> b \<in> {43, 45, 46, 101, 69} \<or> 48 \<le> b \<and> b \<le> 57"

definition jnumber :: "(bytes \<Rightarrow> 'f option) \<Rightarrow> parser \<Rightarrow> json_error + ('f json \<times> parser)" where
  "jnumber rd p =
     (let digits = takeWhile number_byte (ps_rest p); q = adv (length digits) p in
      rmap (\<lambda>n. (Num n, q)) (ok_or (fail ''expected a value'' q) (rd digits)))"

definition jword :: "parser \<Rightarrow> json_error + ('f json \<times> parser)" where
  "jword p =
     (case eat [110, 117, 108, 108] p of (True, p) \<Rightarrow> Inr (Null, p)
      | (False, p) \<Rightarrow> (case eat [116, 114, 117, 101] p of (True, p) \<Rightarrow> Inr (Bool True, p)
      | (False, p) \<Rightarrow> (case eat [102, 97, 108, 115, 101] p of (True, p) \<Rightarrow> Inr (Bool False, p)
      | (False, p) \<Rightarrow> Inl (fail ''expected a value'' p))))"

text \<open>A fallible parser that may also run out of its bound.\<close>

type_synonym 'a parse = "parser \<Rightarrow> (json_error + ('a \<times> parser)) option"

fun then_parse :: "(json_error + ('a \<times> parser)) option \<Rightarrow> ('a \<Rightarrow> 'b parse) \<Rightarrow> (json_error + ('b \<times> parser)) option" where
  "then_parse None f = None"
| "then_parse (Some (Inl e)) f = Some (Inl e)"
| "then_parse (Some (Inr (x, p))) f = f x p"

definition jmember :: "'f json parse \<Rightarrow> (str \<times> 'f json) parse" where
  "jmember val p =
     then_parse (Some (jstring p)) (\<lambda>k p.
       case eat [58] (jspace p) of
         (False, p) \<Rightarrow> Some (Inl (fail (''expected '' @ [CHR 0x27, CHR 0x3A, CHR 0x27]) p))
       | (True, p) \<Rightarrow> then_parse (val p) (\<lambda>v p. Some (Inr ((k, v), p))))"

fun jitems :: "nat \<Rightarrow> u8 \<Rightarrow> 'a parse \<Rightarrow> 'a list \<Rightarrow> 'a list parse" where
  "jitems 0 close item out p = None"
| "jitems (Suc n) close item out p =
     then_parse (item p) (\<lambda>x p.
       case eat [close] (jspace p) of
         (True, p) \<Rightarrow> Some (Inr (out @ [x], p))
       | (False, p) \<Rightarrow>
          (case eat [44] p of
             (False, p) \<Rightarrow> Some (Inl (fail ''expected ',' or the end of a list'' p))
           | (True, p) \<Rightarrow> jitems n close item (out @ [x]) (jspace p)))"

definition jlist :: "u8 \<Rightarrow> 'a parse \<Rightarrow> 'a list parse" where
  "jlist close item p =
     (case eat [close] (jspace (adv 1 p)) of
        (True, p) \<Rightarrow> Some (Inr ([], p))
      | (False, p) \<Rightarrow> jitems (Suc (length (ps_rest p))) close item [] p)"

fun jvalue :: "(bytes \<Rightarrow> 'f option) \<Rightarrow> nat \<Rightarrow> 'f json parse" where
  "jvalue rd 0 p = None"
| "jvalue rd (Suc d) p =
     (let p = jspace p in
      case ps_rest p of
        [] \<Rightarrow> Some (jword p)
      | c # _ \<Rightarrow>
          if c = 123 then then_parse (jlist 125 (jmember (\<lambda>q. jvalue rd d q)) p) (\<lambda>kvs p. Some (Inr (Obj kvs, p)))
          else if c = 91 then then_parse (jlist 93 (\<lambda>q. jvalue rd d q) p) (\<lambda>a p. Some (Inr (Arr a, p)))
          else if c = 34 then Some (rmap (\<lambda>(s, p). (Str s, p)) (jstring p))
          else if 48 \<le> c \<and> c \<le> 57 \<or> c = 45 then Some (jnumber rd p)
          else Some (jword p))"

definition json_parse :: "(bytes \<Rightarrow> 'f option) \<Rightarrow> bytes \<Rightarrow> (json_error + 'f json) option" where
  "json_parse rd s =
     map_option (\<lambda>r. rbind r (\<lambda>(v, p). let p = jspace p in if ps_rest p = [] then Inr v else Inl (fail ''trailing characters'' p)))
       (jvalue rd (Suc (length s)) \<lparr>ps_i = 0, ps_rest = s\<rparr>)"

section \<open>Every document is read\<close>

lemma jspace_rest: "length (ps_rest (jspace p)) \<le> length (ps_rest p)"
  by (simp add: jspace_def)

lemma eat_word:
  "eat w p = (True, p') \<Longrightarrow> w \<noteq> [] \<Longrightarrow> length (ps_rest p') < length (ps_rest p)"
  by (cases "ps_rest p"; cases w) (auto simp: eat_def split: if_splits)

lemma eat_no: "eat w p = (False, p') \<Longrightarrow> p' = p"
  by (simp add: eat_def split: if_splits)

lemma string_loop_rest: "string_loop out p = Inr (s, p') \<Longrightarrow> length (ps_rest p') < length (ps_rest p)"
proof (induction out p rule: string_loop.induct)
  case (1 out p)
  let ?run = "length (takeWhile unescaped (ps_rest p))"
  have run: "?run < length (ps_rest p)"
    using 1(2) length_takeWhile_le [of unescaped "ps_rest p"] by (subst (asm) string_loop.simps) (auto simp: Let_def split: if_splits)
  show ?case
  proof (cases "ps_rest p ! ?run = 34")
    case True
    then show ?thesis using 1(2) run by (subst (asm) string_loop.simps) (auto simp: Let_def result_simps)
  next
    case False
    then obtain c q where c: "escape (adv (?run + 1) p) = Inr (c, q)"
      and l: "string_loop ((out @ take ?run (ps_rest p)) @ encode_utf8 c) q = Inr (s, p')"
      using 1(2) run by (subst (asm) string_loop.simps) (auto simp: Let_def result_simps)
    have "length (ps_rest p') < length (ps_rest q)"
      using 1(1) [OF refl refl _ refl refl False c refl] l run by simp
    then show ?thesis using escape_rest [OF c] by simp
  qed
qed

lemma jstring_rest: "jstring p = Inr (s, p') \<Longrightarrow> length (ps_rest p') < length (ps_rest p)"
  by (auto simp: jstring_def split: prod.splits bool.splits dest!: string_loop_rest eat_rest) 

text \<open>A parser that returns on every input of at most \<open>n\<close> bytes, and takes at least one byte when it succeeds.\<close>

definition returns :: "nat \<Rightarrow> 'a parse \<Rightarrow> bool" where
  "returns n f \<longleftrightarrow>
     (\<forall>p. length (ps_rest p) \<le> n \<longrightarrow>
        (\<exists>e. f p = Some (Inl e)) \<or> (\<exists>x p'. f p = Some (Inr (x, p')) \<and> length (ps_rest p') < length (ps_rest p)))"

lemma returnsI:
  assumes "\<And>p. length (ps_rest p) \<le> n \<Longrightarrow> \<exists>r. f p = Some r \<and> (\<forall>x p'. r = Inr (x, p') \<longrightarrow> length (ps_rest p') < length (ps_rest p))"
  shows "returns n f"
  unfolding returns_def
proof (intro allI impI)
  fix p :: parser assume "length (ps_rest p) \<le> n"
  then obtain r where "f p = Some r" "\<forall>x p'. r = Inr (x, p') \<longrightarrow> length (ps_rest p') < length (ps_rest p)" using assms by blast
  then show "(\<exists>e. f p = Some (Inl e)) \<or> (\<exists>x p'. f p = Some (Inr (x, p')) \<and> length (ps_rest p') < length (ps_rest p))"
    by (cases r) auto
qed

lemmas returnsD = returns_def [THEN iffD1, rule_format]

lemma jmember_returns: "returns n val \<Longrightarrow> returns n (jmember val)"
proof (rule returnsI)
  fix p :: parser assume v: "returns n val" and p: "length (ps_rest p) \<le> n"
  show "\<exists>r. jmember val p = Some r \<and> (\<forall>x p'. r = Inr (x, p') \<longrightarrow> length (ps_rest p') < length (ps_rest p))"
  proof (cases "jstring p")
    case (Inl e)
    then show ?thesis by (simp add: jmember_def)
  next
    case (Inr kq)
    obtain k q where kq: "kq = (k, q)" by fastforce
    obtain b q' where e: "eat [58] (jspace q) = (b, q')" by fastforce
    have q: "length (ps_rest q') < length (ps_rest p)"
      using jstring_rest [of p k q] Inr kq eat_rest [OF e] jspace_rest [of q] by auto
    show ?thesis
    proof (cases b)
      case True
      with q p returnsD [OF v, of q'] show ?thesis using Inr kq e by (fastforce simp: jmember_def)
    qed (use Inr kq e in \<open>auto simp: jmember_def\<close>)
  qed
qed

lemma jitems_return:
  assumes "returns m item" "length (ps_rest p) \<le> m" "length (ps_rest p) < n"
  shows "\<exists>r. jitems n close item out p = Some r \<and> (\<forall>x p'. r = Inr (x, p') \<longrightarrow> length (ps_rest p') < length (ps_rest p))"
  using assms(2,3)
proof (induction n arbitrary: out p)
  case 0
  then show ?case by simp
next
  case (Suc n)
  consider (fail) e where "item p = Some (Inl e)" | (item) x q where "item p = Some (Inr (x, q))" "length (ps_rest q) < length (ps_rest p)"
    using returnsD [OF assms(1) Suc(2)] by blast
  then show ?case
  proof cases
    case item
    obtain b q1 where b: "eat [close] (jspace q) = (b, q1)" by fastforce
    have q1: "length (ps_rest q1) < length (ps_rest p)" using item(2) eat_rest [OF b] jspace_rest [of q] by linarith
    obtain b' q2 where b': "eat [44] q1 = (b', q2)" by fastforce
    have q2: "length (ps_rest (jspace q2)) < length (ps_rest p)" using q1 eat_rest [OF b'] jspace_rest [of q2] by linarith
    then obtain r where r: "jitems n close item (out @ [x]) (jspace q2) = Some r"
        "\<forall>x p'. r = Inr (x, p') \<longrightarrow> length (ps_rest p') < length (ps_rest (jspace q2))"
      using Suc.IH [of "jspace q2" "out @ [x]"] Suc.prems by auto
    show ?thesis using item(1) b b' r q1 q2 by (cases b; cases b') (fastforce dest: eat_no)+
  qed simp
qed

lemma jlist_returns:
  assumes "returns m item" "length (ps_rest p) \<le> Suc m" "ps_rest p \<noteq> []"
  shows "\<exists>r. jlist close item p = Some r \<and> (\<forall>x p'. r = Inr (x, p') \<longrightarrow> length (ps_rest p') < length (ps_rest p))"
proof -
  obtain b q where b: "eat [close] (jspace (adv 1 p)) = (b, q)" by fastforce
  have q: "length (ps_rest q) \<le> m" "length (ps_rest q) < length (ps_rest p)"
    using eat_rest [OF b] jspace_rest [of "adv 1 p"] assms(2,3) by (cases "ps_rest p"; simp)+
  obtain r where "jitems (Suc (length (ps_rest q))) close item [] q = Some r"
      "\<forall>x p'. r = Inr (x, p') \<longrightarrow> length (ps_rest p') < length (ps_rest q)"
    using jitems_return [OF assms(1) q(1), of "Suc (length (ps_rest q))" close "[]"] by auto
  then show ?thesis using b q by (cases b) (fastforce simp: jlist_def simp del: jitems.simps)+
qed

lemma jword_rest: "jword p = Inr (v, p') \<Longrightarrow> length (ps_rest p') < length (ps_rest p)"
  by (auto simp: jword_def split: prod.splits bool.splits dest!: eat_word eat_no)

lemma jnumber_rest:
  "jnumber rd p = Inr (v, p') \<Longrightarrow> ps_rest p = c # cs \<Longrightarrow> 48 \<le> c \<and> c \<le> 57 \<or> c = 45 \<Longrightarrow>
     length (ps_rest p') < length (ps_rest p)"
  by (auto simp: jnumber_def Let_def result_simps number_byte_def)

lemma then_parse_last:
  assumes "\<exists>r. f = Some r \<and> (\<forall>x p'. r = Inr (x, p') \<longrightarrow> Q p')"
  shows "\<exists>r. then_parse f (\<lambda>x p. Some (Inr (g x, p))) = Some r \<and> (\<forall>x p'. r = Inr (x, p') \<longrightarrow> Q p')"
proof -
  obtain r where r: "f = Some r" "\<forall>x p'. r = Inr (x, p') \<longrightarrow> Q p'" using assms by blast
  then show ?thesis by (cases r) auto
qed

lemma jvalue_returns: "returns n (jvalue rd (Suc n))"
proof (induction n)
  case 0
  have "jvalue rd (Suc 0) p = Some (jword p)" if "ps_rest p = []" for p :: parser
    using that by (cases p) (simp add: jspace_def adv_def)
  then show ?case by (intro returnsI) (auto dest: jword_rest)
next
  case (Suc n)
  note inner = Suc
  show ?case
  proof (rule returnsI)
    fix p :: parser assume p: "length (ps_rest p) \<le> Suc n"
    let ?q = "jspace p" and ?v = "\<lambda>q. jvalue rd (Suc n) q"
    have q: "length (ps_rest ?q) \<le> Suc n" "length (ps_rest ?q) \<le> length (ps_rest p)" using p jspace_rest [of p] by linarith+
    have "\<exists>r. jvalue rd (Suc (Suc n)) p = Some r \<and> (\<forall>x p'. r = Inr (x, p') \<longrightarrow> length (ps_rest p') < length (ps_rest ?q))"
    proof (cases "ps_rest ?q")
      case Nil
      then show ?thesis using jword_rest [of ?q] by (auto simp del: jvalue.simps(2) simp: jvalue.simps(2) [of _ "Suc n"])
    next
      case (Cons c cs)
      then have ne: "ps_rest ?q \<noteq> []" by simp
      have arr: "\<exists>r. jlist 93 ?v ?q = Some r \<and> (\<forall>x p'. r = Inr (x, p') \<longrightarrow> length (ps_rest p') < length (ps_rest ?q))"
        by (rule jlist_returns [OF inner q(1) ne])
      have obj: "\<exists>r. jlist 125 (jmember ?v) ?q = Some r \<and> (\<forall>x p'. r = Inr (x, p') \<longrightarrow> length (ps_rest p') < length (ps_rest ?q))"
        by (rule jlist_returns [OF jmember_returns [OF inner] q(1) ne])
      show ?thesis
        using then_parse_last [OF arr, of Arr] then_parse_last [OF obj, of Obj] Cons jword_rest [of ?q] jnumber_rest [of rd ?q]
          jstring_rest [of ?q]
        by (auto simp add: jvalue.simps(2) [of _ "Suc n"] Let_def result_simps simp del: jvalue.simps(2))
    qed
    then show "\<exists>r. jvalue rd (Suc (Suc n)) p = Some r \<and> (\<forall>x p'. r = Inr (x, p') \<longrightarrow> length (ps_rest p') < length (ps_rest p))"
      using q(2) by fastforce
  qed
qed

text \<open>C31. Reading a document always ends: neither the depth of nested values nor the loops over a list's items reach
  their bounds, whatever the bytes, so the parser returns a value or an error.\<close>

theorem parse_returns: "\<exists>r. json_parse rd s = Some r"
  using returnsD [OF jvalue_returns [of "length s" rd], of "\<lparr>ps_i = 0, ps_rest = s\<rparr>"]
  by (auto simp: json_parse_def simp del: jvalue.simps)

section \<open>What is written is read back\<close>

abbreviation at :: "nat \<Rightarrow> bytes \<Rightarrow> parser" where
  "at i bs \<equiv> \<lparr>ps_i = i, ps_rest = bs\<rparr>"

lemma adv_at [simp]: "adv n (at i bs) = at (i + n) (drop n bs)"
  by (simp add: adv_def)

lemma jspace_at: "bs = [] \<or> \<not> is_space (hd bs) \<Longrightarrow> jspace (at i bs) = at i bs"
  by (cases bs) (auto simp: jspace_def)

lemma jspace_one: "\<not> is_space (hd bs) \<Longrightarrow> bs \<noteq> [] \<Longrightarrow> jspace (at i (32 # bs)) = at (Suc i) bs"
  by (cases bs) (auto simp: jspace_def is_space_def)

lemma eat_one [simp]: "eat [c] (at i (b # bs)) = (if b = c then (True, at (Suc i) bs) else (False, at i (b # bs)))"
  by (simp add: eat_def)

subsection \<open>Strings\<close>

lemma string_loop_step:
  assumes "unescaped b" "string_loop (out @ [b]) (at (Suc i) bs) = Inr r"
  shows "string_loop out (at i (b # bs)) = Inr r"
  using assms(2) by (subst (asm) string_loop.simps, subst string_loop.simps) (use assms(1) in \<open>simp add: Let_def split: if_splits\<close>)

lemma string_loop_run:
  "list_all unescaped cs \<Longrightarrow> string_loop (out @ cs) (at (i + length cs) bs) = Inr r \<Longrightarrow> string_loop out (at i (cs @ bs)) = Inr r"
  by (induction cs arbitrary: out i) (auto intro!: string_loop_step)

lemma string_loop_escape:
  "escape (at (Suc i) bs) = Inr (c, at j bs') \<Longrightarrow> string_loop (out @ encode_utf8 c) (at j bs') = Inr r \<Longrightarrow>
     string_loop out (at i (92 # bs)) = Inr r"
  by (subst string_loop.simps) (simp add: Let_def unescaped_def)

lemma byte_num [simp]: "byte (numeral n) = numeral n"
  by (simp add: byte_def)

lemma unescaped_byte: "n < 256 \<Longrightarrow> n \<noteq> 34 \<Longrightarrow> n \<noteq> 92 \<Longrightarrow> unescaped (byte n)"
proof -
  assume n: "n < 256" "n \<noteq> 34" "n \<noteq> 92"
  have "unat (34 :: u8) = 34" "unat (92 :: u8) = 92" by simp_all
  then show ?thesis using n unat_byte_small [of n] unfolding unescaped_def by metis
qed

lemma unescaped_utf8:
  assumes "c \<noteq> 34" "c \<noteq> 92" "is_scalar c"
  shows "list_all unescaped (encode_utf8 c)"
proof -
  have "c < 0x110000" using assms(3) by (auto simp: is_scalar_def)
  then have "c div 262144 < 5" by linarith
  then show ?thesis using assms(1,2)
    by (simp add: encode_utf8_def) (auto intro!: unescaped_byte)
qed

lemma hex_value_digit: "n < 16 \<Longrightarrow> hex_value (byte (hex_digit n)) = Some n"
  by (auto simp: hex_value_def hex_digit_def Let_def)

lemma hex_digit_small: "n < 16 \<Longrightarrow> hex_digit n < 0x80"
  by (auto simp: hex_digit_def)

lemma escape_control:
  assumes "c < 0x20"
  shows "escape (at i (117 # 48 # 48 # byte (hex_digit (c div 16)) # byte (hex_digit (c mod 16)) # bs)) = Inr (c, at (i + 5) bs)"
proof -
  have z: "hex_value 48 = Some 0" by (simp add: hex_value_def)
  have h: "jhex (at (Suc i) (48 # 48 # byte (hex_digit (c div 16)) # byte (hex_digit (c mod 16)) # bs)) = Inr (word_of_nat c, at (i + 5) bs)"
    using assms by (simp add: jhex_def slice_def from_hex_def Let_def z hex_value_digit)
  have "\<not> 0xD800 \<le> (word_of_nat c :: u32)"
    using assms by (simp add: word_le_nat_alt unat_of_nat take_bit_eq_mod)
  then have "unicode (at (Suc i) (48 # 48 # byte (hex_digit (c div 16)) # byte (hex_digit (c mod 16)) # bs)) = Inr (c, at (i + 5) bs)"
    using assms by (simp add: unicode_def h from_u32_def is_scalar_def unat_of_nat take_bit_eq_mod)
  then show ?thesis by (simp add: escape_def)
qed

lemma encode_ascii [simp]: "c < 0x80 \<Longrightarrow> encode_utf8 c = [byte c]"
  by (simp add: encode_utf8_def)

lemma string_loop_char:
  assumes "is_scalar c" "string_loop (out @ encode_utf8 c) (at (i + length (to_utf8 (quote_char c))) bs) = Inr r"
  shows "string_loop out (at i (to_utf8 (quote_char c) @ bs)) = Inr r"
proof -
  consider "c = 34 \<or> c = 92" | "c = 10 \<or> c = 13 \<or> c = 9" | "c < 0x20" "c \<noteq> 10" "c \<noteq> 13" "c \<noteq> 9" | "c \<noteq> 34" "c \<noteq> 92" "\<not> c < 0x20"
    by blast
  then show ?thesis
  proof cases
    case 3
    then have d: "hex_digit (c div 16) < 0x80" "hex_digit (c mod 16) < 0x80" by (auto intro: hex_digit_small)
    have q: "to_utf8 (quote_char c) = 92 # 117 # 48 # 48 # byte (hex_digit (c div 16)) # byte (hex_digit (c mod 16)) # []"
      using 3 d by (simp add: quote_char_def)
    have l: "i + length (to_utf8 (quote_char c)) = Suc i + 5" unfolding q by simp
    show ?thesis
      using string_loop_escape [OF escape_control [OF 3(1), of "Suc i" bs], of out r] assms(2) unfolding l unfolding q by simp
  next
    case 4
    then have "quote_char c = [c]" by (auto simp: quote_char_def)
    then show ?thesis using string_loop_run [OF unescaped_utf8 [OF 4(1,2) assms(1)], of out i bs r] assms(2) by simp
  next
    case 1
    then have "escape (at (Suc i) (byte c # bs)) = Inr (c, at (i + 2) bs)" by (auto simp: escape_def)
    then show ?thesis using string_loop_escape [of i "byte c # bs" c "i + 2" bs out r] 1 assms(2) by (auto simp: quote_char_def)
  next
    case 2
    then obtain e where e: "quote_char c = [92, e]" "e < 0x80" "escape (at (Suc i) (byte e # bs)) = Inr (c, at (i + 2) bs)"
      by (auto simp: escape_def quote_char_def)
    then show ?thesis using string_loop_escape [OF e(3), of out r] assms(2) by simp
  qed
qed

lemma string_loop_quoted:
  assumes "str_ok s" "from_utf8 (out @ to_utf8 s) = Some t"
  shows "string_loop out (at i (to_utf8 (concat (map quote_char s)) @ 34 # rest)) =
           Inr (t, at (i + length (to_utf8 (concat (map quote_char s))) + 1) rest)"
  using assms
proof (induction s arbitrary: out i)
  case Nil
  then show ?case by (subst string_loop.simps) (simp add: Let_def unescaped_def)
next
  case (Cons c s)
  then show ?case using string_loop_char [of c out i] by (simp add: add.assoc)
qed

lemma jstring_quoted:
  "str_ok s \<Longrightarrow> jstring (at i (to_utf8 (quoted s) @ rest)) = Inr (s, at (i + length (to_utf8 (quoted s))) rest)"
  using string_loop_quoted [of s "[]" s "Suc i" rest] by (simp add: jstring_def quoted_def add.commute add.left_commute)

subsection \<open>Lists\<close>

text \<open>Where a written value ends: the bytes that follow it in a document.\<close>

definition ended :: "bytes \<Rightarrow> bool" where
  "ended bs \<longleftrightarrow> bs = [] \<or> hd bs \<in> {44, 93, 125}"

definition heads :: "str \<Rightarrow> bool" where
  "heads s \<longleftrightarrow> (\<exists>b bs. to_utf8 s = b # bs \<and> \<not> is_space b \<and> b \<noteq> 93 \<and> b \<noteq> 125)"

lemma heads_space: "heads s \<Longrightarrow> jspace (at i (to_utf8 s @ bs)) = at i (to_utf8 s @ bs)"
  by (auto simp: heads_def intro!: jspace_at)

lemma heads_close: "heads s \<Longrightarrow> close \<in> {93, 125} \<Longrightarrow> eat [close] (at i (to_utf8 s @ bs)) = (False, at i (to_utf8 s @ bs))"
  by (auto simp: heads_def)

lemma ended_space: "ended bs \<Longrightarrow> jspace (at i bs) = at i bs"
  by (rule jspace_at) (auto simp: ended_def is_space_def)

definition read_back :: "nat \<Rightarrow> ('a \<Rightarrow> str) \<Rightarrow> 'a parse \<Rightarrow> 'a \<Rightarrow> bool" where
  "read_back n sh item x \<longleftrightarrow>
     heads (sh x) \<and> (\<forall>i rest. ended rest \<longrightarrow> length (to_utf8 (sh x) @ rest) \<le> n \<longrightarrow>
       item (at i (to_utf8 (sh x) @ rest)) = Some (Inr (x, at (i + length (to_utf8 (sh x))) rest)))"

lemma read_backD:
  "read_back n sh item x \<Longrightarrow> ended rest \<Longrightarrow> length (to_utf8 (sh x)) + length rest \<le> n \<Longrightarrow>
     item (at i (to_utf8 (sh x) @ rest)) = Some (Inr (x, at (i + length (to_utf8 (sh x))) rest))"
  by (simp add: read_back_def)

lemma jitems_back:
  assumes "close \<in> {93, 125}" "xs \<noteq> []" "list_all (read_back m sh item) xs"
    "length (to_utf8 (join (map sh xs))) + length rest < m" "length xs \<le> n"
  shows "jitems n close item out (at i (to_utf8 (join (map sh xs)) @ close # rest)) =
           Some (Inr (out @ xs, at (Suc (i + length (to_utf8 (join (map sh xs))))) rest))"
  using assms(2-)
proof (induction xs arbitrary: n out i)
  case Nil
  then show ?case by simp
next
  case (Cons x xs)
  then obtain k where k: "n = Suc k" by (cases n) auto
  show ?case
  proof (cases xs)
    case Nil
    have "ended (close # rest)" using assms(1) by (auto simp: ended_def)
    then show ?thesis
      using Cons.prems read_backD [of m sh item x "close # rest" i] k Nil by (simp add: ended_space)
  next
    case (Cons y ys)
    let ?t = "to_utf8 (join (map sh xs)) @ close # rest"
    have j: "join (sh x # map sh xs) = sh x @ [44, 32] @ join (map sh xs)" using Cons by simp
    obtain u where u: "?t = to_utf8 (sh y) @ u" using Cons by (cases ys) auto
    have h: "heads (sh y)" using Cons.prems Cons by (simp add: read_back_def)
    have e: "ended (44 # 32 # ?t)" by (simp add: ended_def)
    have item: "item (at i (to_utf8 (sh x) @ 44 # 32 # ?t)) = Some (Inr (x, at (i + length (to_utf8 (sh x))) (44 # 32 # ?t)))"
      by (rule read_backD [OF _ e]) (use Cons.prems j in auto)
    have sp: "jspace (at p (32 # ?t)) = at (Suc p) ?t" for p
      unfolding u using h by (intro jspace_one) (auto simp: heads_def)
    have "jitems k close item (out @ [x]) (at p ?t) = Some (Inr (out @ x # xs, at (Suc (p + length (to_utf8 (join (map sh xs))))) rest))" for p
      using Cons.IH [of k "out @ [x]" p] Cons.prems k j Cons by auto
    then show ?thesis
      using item assms(1) ended_space [OF e] by (auto simp: k j sp)
  qed
qed

lemma jlist_back:
  assumes "close \<in> {93, 125}" "list_all (read_back m sh item) xs" "length (to_utf8 (join (map sh xs))) + length rest < m"
    "length xs \<le> length (to_utf8 (join (map sh xs)))"
  shows "jlist close item (at i (b # to_utf8 (join (map sh xs)) @ close # rest)) =
           Some (Inr (xs, at (i + length (to_utf8 (join (map sh xs))) + 2) rest))"
proof (cases xs)
  case Nil
  have "jspace (at (Suc i) (close # rest)) = at (Suc i) (close # rest)" using assms(1) by (auto intro!: ended_space simp: ended_def)
  then show ?thesis using Nil by (simp add: jlist_def)
next
  case (Cons y ys)
  let ?t = "to_utf8 (join (map sh xs)) @ close # rest"
  obtain u where u: "?t = to_utf8 (sh y) @ u" using Cons by (cases ys) auto
  have h: "heads (sh y)" using assms(2) Cons by (simp add: read_back_def)
  have "eat [close] (jspace (at (Suc i) ?t)) = (False, at (Suc i) ?t)"
    unfolding u using h assms(1) by (simp only: heads_space heads_close)
  then show ?thesis
    using jitems_back [OF assms(1) _ assms(2,3), of "Suc (length ?t)" "[]" "Suc i"] assms(4) Cons
    by (simp add: jlist_def del: jitems.simps)
qed

subsection \<open>Values\<close>

text \<open>What the standard library promises of the finite numbers: \<open>{}\<close> writes one that \<open>parse\<close> reads back, with
  digits, signs, points and exponents only, a digit or \<open>-\<close> first.\<close>

definition number_char :: "scalar \<Rightarrow> bool" where
  "number_char c \<longleftrightarrow> c \<in> {43, 45, 46, 101, 69} \<or> 48 \<le> c \<and> c \<le> 57"

definition shown :: "('f \<Rightarrow> str) \<Rightarrow> (bytes \<Rightarrow> 'f option) \<Rightarrow> 'f \<Rightarrow> bool" where
  "shown shw rd n \<longleftrightarrow>
     shw n \<noteq> [] \<and> (hd (shw n) = 45 \<or> 48 \<le> hd (shw n) \<and> hd (shw n) \<le> 57) \<and> list_all number_char (shw n) \<and>
     rd (to_utf8 (shw n)) = Some n"

fun json_ok :: "('f \<Rightarrow> bool) \<Rightarrow> 'f json \<Rightarrow> bool" where
  "json_ok num (Num n) = num n"
| "json_ok num (Str s) = str_ok s"
| "json_ok num (Arr a) = list_all (json_ok num) a"
| "json_ok num (Obj kvs) = list_all (\<lambda>(k, v). str_ok k \<and> json_ok num v) kvs"
| "json_ok num _ = True"

lemma number_char_byte: "number_char c \<Longrightarrow> c < 0x80 \<and> number_byte (byte c)"
proof -
  assume c: "number_char c"
  then have "c < 0x80" by (auto simp: number_char_def)
  moreover have "48 \<le> byte c \<and> byte c \<le> 57" if "48 \<le> c" "c \<le> 57" using that by (simp add: word_le_nat_alt)
  ultimately show ?thesis using c by (auto simp: number_char_def number_byte_def)
qed

lemma number_run:
  assumes "list_all number_char s" "ended rest"
  shows "takeWhile number_byte (to_utf8 s @ rest) = to_utf8 s"
proof -
  have "takeWhile number_byte rest = []" using assms(2) by (cases rest) (auto simp: ended_def number_byte_def)
  then show ?thesis using assms(1) by (induction s) (auto simp: number_char_byte)
qed

lemma jvalue_number:
  assumes "shown shw rd n" "ended rest"
  shows "heads (shw n)" "jvalue rd (Suc d) (at i (to_utf8 (shw n) @ rest)) = Some (Inr (Num n, at (i + length (to_utf8 (shw n))) rest))"
proof -
  obtain c cs where c: "shw n = c # cs" "c = 45 \<or> 48 \<le> c \<and> c \<le> 57" using assms(1) by (cases "shw n") (auto simp: shown_def)
  have b: "to_utf8 (shw n) = byte c # to_utf8 cs" using c by auto
  have d: "byte c = 45 \<or> 48 \<le> byte c \<and> byte c \<le> 57" using c by (auto simp: word_le_nat_alt)
  have u: "unat (byte c) = c" using c by auto
  then have "\<not> is_space (byte c)" "byte c \<noteq> 93" "byte c \<noteq> 125" "byte c \<noteq> 123" "byte c \<noteq> 91" "byte c \<noteq> 34"
    using c(2) by (auto simp: is_space_def word_unat_eq_iff)
  note no = this
  show h: "heads (shw n)" using no by (auto simp: heads_def b)
  have j: "jspace (at i (to_utf8 (shw n) @ rest)) = at i (to_utf8 (shw n) @ rest)" by (rule heads_space [OF h])
  have "jnumber rd (at i (to_utf8 (shw n) @ rest)) = Inr (Num n, at (i + length (to_utf8 (shw n))) rest)"
    using assms number_run [of "shw n" rest] by (simp add: jnumber_def shown_def Let_def)
  then show "jvalue rd (Suc d) (at i (to_utf8 (shw n) @ rest)) = Some (Inr (Num n, at (i + length (to_utf8 (shw n))) rest))"
    unfolding jvalue.simps j using no d by (auto simp: b)
qed

lemma join_length: "list_all (\<lambda>x. heads (sh x)) xs \<Longrightarrow> length xs \<le> length (to_utf8 (join (map sh xs)))"
proof (induction xs)
  case (Cons x xs)
  then have "0 < length (to_utf8 (sh x))" by (auto simp: heads_def)
  then show ?case using Cons by (cases xs) (auto simp: Suc_le_eq)
qed simp

lemma dumps_heads:
  assumes "json_ok (shown shw rd) v"
  shows "heads (dumps shw v)"
proof (cases v)
  case (Num n)
  have e: "ended []" by (simp add: ended_def)
  show ?thesis using assms Num jvalue_number(1) [OF _ e] by simp
qed (auto simp: heads_def is_space_def quoted_def)

lemma back_all:
  assumes "list_all (\<lambda>x. heads (sh x)) xs"
    "\<And>x i rest. x \<in> set xs \<Longrightarrow> ended rest \<Longrightarrow> length (to_utf8 (sh x)) + length rest \<le> n \<Longrightarrow>
       item (at i (to_utf8 (sh x) @ rest)) = Some (Inr (x, at (i + length (to_utf8 (sh x))) rest))"
  shows "list_all (read_back n sh item) xs"
  using assms by (auto simp: list_all_iff read_back_def)

lemma jmember_back:
  assumes "str_ok k" "heads (dumps shw v)" "\<And>i. val (at i (to_utf8 (dumps shw v) @ rest)) = Some (Inr (v, at (i + length (to_utf8 (dumps shw v))) rest))"
    "\<And>i. val (at i (32 # to_utf8 (dumps shw v) @ rest)) = val (at (Suc i) (to_utf8 (dumps shw v) @ rest))"
  shows "jmember val (at i (to_utf8 (quoted k @ [58, 32] @ dumps shw v) @ rest)) =
           Some (Inr ((k, v), at (i + length (to_utf8 (quoted k @ [58, 32] @ dumps shw v))) rest))"
proof -
  have sp: "jspace (at p (58 # t)) = at p (58 # t)" for p t by (rule jspace_at) (simp add: is_space_def)
  show ?thesis
    using jstring_quoted [OF assms(1), of i "58 # 32 # to_utf8 (dumps shw v) @ rest"] assms(3) [of "Suc (Suc (i + length (to_utf8 (quoted k))))"]
    by (simp add: jmember_def sp assms(4) add.commute add.left_commute)
qed

lemma jvalue_space: "\<not> is_space b \<Longrightarrow> jvalue rd d (at i (32 # b # bs)) = jvalue rd d (at (Suc i) (b # bs))"
  by (cases d) (simp_all add: jspace_one jspace_at)

lemma jvalue_quoted:
  assumes "str_ok s"
  shows "jvalue rd (Suc d) (at i (to_utf8 (quoted s) @ rest)) = Some (Inr (Str s, at (i + length (to_utf8 (quoted s))) rest))"
proof -
  obtain t where t: "to_utf8 (quoted s) = 34 # t" by (simp add: quoted_def)
  have j: "jspace (at i (34 # t @ rest)) = at i (34 # t @ rest)" by (rule jspace_at) (simp add: is_space_def)
  show ?thesis using jstring_quoted [OF assms, of i rest] by (simp add: t j)
qed

lemma jvalue_word:
  assumes "ps_rest (at i bs) = b # t" "b \<in> {110, 116, 102}"
  shows "jvalue rd (Suc d) (at i bs) = Some (jword (at i bs))"
proof -
  have "jspace (at i bs) = at i bs" using assms by (intro jspace_at) (auto simp: is_space_def)
  then show ?thesis using assms by auto
qed

lemma jvalue_dumps:
  assumes "json_ok (shown shw rd) v" "ended rest" "length (to_utf8 (dumps shw v)) + length rest < d"
  shows "jvalue rd d (at i (to_utf8 (dumps shw v) @ rest)) = Some (Inr (v, at (i + length (to_utf8 (dumps shw v))) rest))"
  using assms
proof (induction v arbitrary: d i rest)
  case Null
  then show ?case by (cases d) (auto simp: jvalue_word jword_def eat_def simp del: jvalue.simps)
next
  case (Bool b)
  then show ?case by (cases d) (auto simp: jvalue_word jword_def eat_def simp del: jvalue.simps)
next
  case (Num n)
  then show ?case by (cases d) (auto simp: jvalue_number(2) simp del: jvalue.simps)
next
  case (Str s)
  then show ?case by (cases d) (auto simp: jvalue_quoted simp del: jvalue.simps)
next
  case (Arr a)
  then obtain k where k: "d = Suc k" by (cases d) auto
  let ?j = "to_utf8 (join (map (dumps shw) a))"
  have h: "list_all (\<lambda>x. heads (dumps shw x)) a" using Arr.prems(1) by (auto simp: list_all_iff intro!: dumps_heads)
  have "list_all (read_back (k - 1) (dumps shw) (\<lambda>q. jvalue rd k q)) a"
    by (rule back_all [OF h]) (use Arr k in \<open>auto simp: list_all_iff\<close>)
  then have "jlist 93 (\<lambda>q. jvalue rd k q) (at i (91 # ?j @ 93 # rest)) = Some (Inr (a, at (i + length ?j + 2) rest))"
    using Arr.prems(3) k h by (intro jlist_back [where m = "k - 1"] join_length) auto
  moreover have "jspace (at i (91 # ?j @ 93 # rest)) = at i (91 # ?j @ 93 # rest)" by (rule jspace_at) (simp add: is_space_def)
  ultimately show ?case by (simp add: k)
next
  case (Obj kvs)
  then obtain k where k: "d = Suc k" by (cases d) auto
  let ?sh = "\<lambda>(k, v). quoted k @ [58, 32] @ dumps shw v"
  let ?j = "to_utf8 (join (map ?sh kvs))"
  have h: "list_all (\<lambda>x. heads (?sh x)) kvs" by (auto simp: list_all_iff heads_def quoted_def is_space_def)
  have "list_all (read_back (k - 1) ?sh (jmember (\<lambda>q. jvalue rd k q))) kvs"
  proof (rule back_all [OF h])
    fix x i and rest :: bytes
    assume x: "x \<in> set kvs" "ended rest" "length (to_utf8 (?sh x)) + length rest \<le> k - 1"
    obtain key v where kv: "x = (key, v)" by fastforce
    have ok: "str_ok key" "json_ok (shown shw rd) v" using Obj.prems(1) x(1) kv by (auto simp: list_all_iff)
    obtain b bs where b: "to_utf8 (dumps shw v) = b # bs" "\<not> is_space b" using dumps_heads [OF ok(2)] by (auto simp: heads_def)
    have val: "jvalue rd k (at i (to_utf8 (dumps shw v) @ rest)) = Some (Inr (v, at (i + length (to_utf8 (dumps shw v))) rest))" for i
      using Obj.IH [of x v rest k i] x kv ok by (auto simp: snds.simps)
    show "jmember (\<lambda>q. jvalue rd k q) (at i (to_utf8 (?sh x) @ rest)) = Some (Inr (x, at (i + length (to_utf8 (?sh x))) rest))"
      using jmember_back [OF ok(1) dumps_heads [OF ok(2)], of "\<lambda>q. jvalue rd k q" rest i] val
      by (simp only: kv prod.case) (simp add: b jvalue_space)
  qed
  then have "jlist 125 (jmember (\<lambda>q. jvalue rd k q)) (at i (123 # ?j @ 125 # rest)) = Some (Inr (kvs, at (i + length ?j + 2) rest))"
    using Obj.prems(3) k h by (intro jlist_back [where m = "k - 1"] join_length) auto
  moreover have "jspace (at i (123 # ?j @ 125 # rest)) = at i (123 # ?j @ 125 # rest)" by (rule jspace_at) (simp add: is_space_def)
  ultimately show ?case by (simp add: k)
qed

lemma parse_written:
  assumes "json_ok (shown shw rd) v"
  shows "json_parse rd (to_utf8 (dumps shw v)) = Some (Inr v)"
proof -
  have "jvalue rd (Suc (length (to_utf8 (dumps shw v)))) (at 0 (to_utf8 (dumps shw v) @ [])) = Some (Inr (v, at (0 + length (to_utf8 (dumps shw v))) []))"
    by (rule jvalue_dumps [OF assms]) (simp_all add: ended_def)
  then show ?thesis by (simp add: json_parse_def jspace_def)
qed

text \<open>C30. A value that \<open>dumps\<close> writes is the one \<open>parse\<close> reads: strings with any characters, escaped or not, the
  order of members and their duplicates included. The numbers it holds are those the standard library writes and
  reads back.\<close>

theorem parse_dumps:
  assumes "json_ok (shown shw rd) v"
  shows "json_parse rd (to_utf8 (dumps shw v)) = Some (Inr v)"
  using assms by (rule parse_written)

definition one_digit :: "nat \<Rightarrow> str" where
  "one_digit n = [48 + n mod 10]"

definition read_digit :: "bytes \<Rightarrow> nat option" where
  "read_digit bs = (case bs of [b] \<Rightarrow> Some (unat b - 48) | _ \<Rightarrow> None)"

theorem parse_dumps_witness:
  "json_parse read_digit (to_utf8 (dumps one_digit (Obj [([97, 34, 10, 1], Arr [Num 7, Null, Bool True]), ([], Str [0x1F600])]))) =
     Some (Inr (Obj [([97, 34, 10, 1], Arr [Num 7, Null, Bool True]), ([], Str [0x1F600])]))"
  by (rule parse_dumps) (simp add: shown_def one_digit_def read_digit_def number_char_def is_scalar_def)

section \<open>Surrogates\<close>

text \<open>A pair of escapes for a character above U+FFFF is read as that character; but a second escape below
  \<open>\uDC00\<close>, which pairs with nothing, wraps the subtraction: \<open>\ud800\u0041\<close> is read as U+2441, neither as a
  replacement character and \<open>A\<close> nor as an error.\<close>

theorem surrogate_wraps:
  "json_parse rd (map byte [34, 92, 117, 100, 56, 51, 100, 92, 117, 100, 101, 48, 48, 34]) = Some (Inr (Str [0x1F600])) \<and>
   json_parse rd (map byte [34, 92, 117, 100, 56, 48, 48, 92, 117, 48, 48, 52, 49, 34]) = Some (Inr (Str [0x2441]))"
proof -
  have e: "escape (at 2 (map byte [117, 100, 56, 51, 100, 92, 117, 100, 101, 48, 48, 34])) = Inr (0x1F600, at 13 [34])"
    "escape (at 2 (map byte [117, 100, 56, 48, 48, 92, 117, 48, 48, 52, 49, 34])) = Inr (0x2441, at 13 [34])"
    by (simp_all add: escape_def unicode_def jhex_def slice_def from_hex_def hex_value_def eat_def from_u32_def is_scalar_def push_bit_eq_mult Let_def)
  have stop: "string_loop out (at i [34]) = rmap (\<lambda>s. (s, at (Suc i) [])) (ok_or (fail ''invalid UTF-8'' (at (Suc i) [])) (from_utf8 out))" for out i
    by (subst string_loop.simps) (simp add: unescaped_def Let_def)
  have u: "from_utf8 (encode_utf8 0x1F600) = Some [0x1F600]" "from_utf8 (encode_utf8 0x2441) = Some [0x2441]"
    using from_utf8_to_utf8 [of "[0x1F600]"] from_utf8_to_utf8 [of "[0x2441]"] by (simp_all add: is_scalar_def)
  have l: "string_loop [] (at 1 (92 # map byte [117, 100, 56, 51, 100, 92, 117, 100, 101, 48, 48, 34])) = Inr ([0x1F600], at 14 [])"
    "string_loop [] (at 1 (92 # map byte [117, 100, 56, 48, 48, 92, 117, 48, 48, 52, 49, 34])) = Inr ([0x2441], at 14 [])"
    by (rule string_loop_escape, (simp only: Suc_1 e), simp add: stop u)+
  have j: "jspace (at 0 (34 # t)) = at 0 (34 # t)" for t by (rule jspace_at) (simp add: is_space_def)
  show ?thesis using l by (simp add: json_parse_def j jstring_def jspace_at)
qed

end
