(* ===== verification/Build.thy ===== *)
theory Build
  imports Encode Engine Json "HOL-Library.Product_Lexorder"
begin

text \<open>
  Reading \<open>tokenizer.json\<close> (\<open>token/mod.rs\<close>): \<open>Tokenizer::from_json\<close> with the normalizers, pre-tokenizers, added
  tokens and post-processors it accepts, and \<open>Tokenizer::build\<close>, which lays out the vocabulary and fills the merge
  table. \<open>None\<close> stands for a search of a full table, which does not return. A number of the document becomes an ID by
  Rust's \<open>as u32\<close>, a parameter here since numbers are; it takes \<open>-1.0\<close>, the ID of an entry without one, to 0.
\<close>

unbundle bit_operations_syntax

section \<open>The document's parts\<close>

definition unsupported :: "string \<Rightarrow> error" where
  "unsupported what = Format (lit ''tokenizer: '' @ lit what @ lit '' is not supported'')"

definition field :: "string \<Rightarrow> 'f json \<Rightarrow> str option" where
  "field k v = Option.bind (json_get (lit k) v) json_str"

definition field_is :: "string \<Rightarrow> 'f json \<Rightarrow> str \<Rightarrow> bool" where
  "field_is k v s \<longleftrightarrow> field k v = Some s"

definition field_bool :: "string \<Rightarrow> 'f json \<Rightarrow> bool option" where
  "field_bool k v = Option.bind (json_get (lit k) v) json_bool"

definition field_arr :: "string \<Rightarrow> 'f json \<Rightarrow> 'f json list" where
  "field_arr k v = (case Option.bind (json_get (lit k) v) json_arr of None \<Rightarrow> [] | Some a \<Rightarrow> a)"

fun normalizer :: "'f json option \<Rightarrow> error + (bool \<times> bool)" where
  "normalizer None = Inr (False, False)"
| "normalizer (Some n) =
     (if (case n of Null \<Rightarrow> True | _ \<Rightarrow> False) then Inr (False, False)
      else if field_is ''type'' n (lit ''Replace'') \<and> field_is ''content'' n [LOW_BAR] then Inr (True, False)
      else if field_is ''type'' n (lit ''NFC'') then Inr (False, True)
      else Inl (unsupported ''this normalizer''))"

text \<open>The patterns as \<open>tokenizer.json\<close> writes them; \<open>@\<close> stands for a backslash and \<open>~\<close> for a quote.\<close>

definition rx_lit :: "string \<Rightarrow> str" where
  "rx_lit = map (\<lambda>c. if c = CHR 0x40 then 92 else if c = CHR 0x7E then 39 else of_char c)"

definition PATTERNS :: "(str \<times> pattern) list" where
  "PATTERNS =
     [(rx_lit ''~s|~t|~re|~ve|~m|~ll|~d| ?@p{L}+| ?@p{N}+| ?[^@s@p{L}@p{N}]+|@s+(?!@S)|@s+'', Gpt2),
      (rx_lit ''(?i:~s|~t|~re|~ve|~m|~ll|~d)|[^@r@n@p{L}@p{N}]?@p{L}+|@p{N}{1,3}| ?[^@s@p{L}@p{N}]+[@r@n]*|@s*[@r@n]+|@s+(?!@S)|@s+'', Cl100k),
      (rx_lit ''[^@r@n@p{L}@p{N}]?[@p{Lu}@p{Lt}@p{Lm}@p{Lo}@p{M}]*[@p{Ll}@p{Lm}@p{Lo}@p{M}]+(?i:~s|~t|~re|~ve|~m|~ll|~d)?|[^@r@n@p{L}@p{N}]?[@p{Lu}@p{Lt}@p{Lm}@p{Lo}@p{M}]+[@p{Ll}@p{Lm}@p{Lo}@p{M}]*(?i:~s|~t|~re|~ve|~m|~ll|~d)?|@p{N}{1,3}| ?[^@s@p{L}@p{N}]+[@r@n/]*|@s*[@r@n]+|@s+(?!@S)|@s+'', O200k)]"

definition level_flags :: "'f json \<Rightarrow> bool \<Rightarrow> u32 option" where
  "level_flags p regex =
     (if field_is ''type'' p (lit ''ByteLevel'') \<and> field_bool ''use_regex'' p = Some regex
      then Some (BYTE_LEVEL OR (if field_bool ''add_prefix_space'' p = Some True then PREPEND else 0)) else None)"

definition pattern_bit :: "pattern \<Rightarrow> u32" where
  "pattern_bit p = (case p of Gpt2 \<Rightarrow> 0 | Cl100k \<Rightarrow> CL100K | O200k \<Rightarrow> O200K)"

definition split_kept :: "'f json \<Rightarrow> bool" where
  "split_kept split \<longleftrightarrow>
     field_is ''behavior'' split (lit ''Removed'') \<and> field_bool ''invert'' split = Some True \<or>
     field_is ''behavior'' split (lit ''Isolated'') \<and> field_bool ''invert'' split = Some False"

definition split_level :: "'f json \<Rightarrow> 'f json \<Rightarrow> u32 option" where
  "split_level split final =
     (let regex = Option.bind (json_get (lit ''pattern'') split) (field ''Regex'') in
      case (if split_kept split then find (\<lambda>p. Some (fst p) = regex) PATTERNS else None) of
        None \<Rightarrow> None
      | Some (_, pat) \<Rightarrow> map_option (\<lambda>f. f OR pattern_bit pat) (level_flags final False))"

definition byte_level :: "'f json \<Rightarrow> u32 option" where
  "byte_level pre =
     (case level_flags pre True of
        Some f \<Rightarrow> Some f
      | None \<Rightarrow> (case field_arr ''pretokenizers'' pre of [split, final] \<Rightarrow> split_level split final | _ \<Rightarrow> None))"

definition metaspace :: "'f json \<Rightarrow> u32" where
  "metaspace pre =
     META OR (if field_bool ''split'' pre \<noteq> Some False then SPLIT else 0) OR
       (if field_is ''prepend_scheme'' pre (lit ''always'') \<or> field_is ''prepend_scheme'' pre (lit ''first'') then PREPEND else 0)"

fun pre_tokenizer :: "'f json option \<Rightarrow> bool \<Rightarrow> error + u32" where
  "pre_tokenizer None meta = Inr 0"
| "pre_tokenizer (Some pre) meta =
     (if (case pre of Null \<Rightarrow> True | _ \<Rightarrow> False) then Inr 0
      else case byte_level pre of
        Some flags \<Rightarrow> Inr flags
      | None \<Rightarrow>
          if field_is ''type'' pre (lit ''Split'') \<and> meta \<and> Option.bind (json_get (lit ''pattern'') pre) (field ''String'') = Some [32] then Inr 0
          else if field_is ''type'' pre (lit ''Metaspace'') \<and> field_is ''replacement'' pre [LOW_BAR] then Inr (metaspace pre)
          else Inl (unsupported ''this pre-tokenizer''))"

definition id_of :: "('f \<Rightarrow> u32) \<Rightarrow> 'f json option \<Rightarrow> u32" where
  "id_of as_u32 v = (case Option.bind v json_num of None \<Rightarrow> 0 | Some n \<Rightarrow> as_u32 n)"

definition added_tokens :: "('f \<Rightarrow> u32) \<Rightarrow> 'f json list \<Rightarrow> (str \<times> u32 \<times> bool) list" where
  "added_tokens as_u32 tokens =
     map (\<lambda>t. (case field ''content'' t of None \<Rightarrow> [] | Some s \<Rightarrow> s, id_of as_u32 (json_get (lit ''id'') t),
               field_bool ''special'' t = Some True)) tokens"

definition added :: "('f \<Rightarrow> u32) \<Rightarrow> 'f json list \<Rightarrow> (str \<times> u32) list \<Rightarrow> (str \<times> u32) list \<times> u32 list \<times> u32 list" where
  "added as_u32 tokens vocab =
     (let ts = added_tokens as_u32 tokens in
      (vocab @ map (\<lambda>(s, i, _). (s, i)) ts, map (\<lambda>(_, i, _). i) (filter (\<lambda>(_, _, sp). sp) ts),
       map (\<lambda>(_, i, _). i) (filter (\<lambda>(_, _, sp). \<not> sp) ts)))"

fun split_once :: "str \<Rightarrow> (str \<times> str) option" where
  "split_once [] = None"
| "split_once (c # s) = (if c = 32 then Some ([], s) else map_option (apfst (\<lambda>a. c # a)) (split_once s))"

fun merge_pair :: "'f json \<Rightarrow> (str \<times> str) option" where
  "merge_pair (Arr (a # b # _)) = (case (json_str a, json_str b) of (Some a, Some b) \<Rightarrow> Some (a, b) | _ \<Rightarrow> None)"
| "merge_pair (Str s) = split_once s"
| "merge_pair _ = None"

section \<open>Frames\<close>

definition frame_id :: "('f \<Rightarrow> u32) \<Rightarrow> 'f json \<Rightarrow> 'f json \<Rightarrow> u32 option" where
  "frame_id as_u32 t item =
     do { sp \<leftarrow> json_get (lit ''SpecialToken'') item; name \<leftarrow> field ''id'' sp;
          ts \<leftarrow> json_get (lit ''special_tokens'') t; tok \<leftarrow> json_get name ts;
          ids \<leftarrow> Option.bind (json_get (lit ''ids'') tok) json_arr;
          v \<leftarrow> (case ids of [] \<Rightarrow> None | v # _ \<Rightarrow> json_num v);
          if length ids = 1 then Some (as_u32 v) else None }"

definition frame_side :: "('f \<Rightarrow> u32) \<Rightarrow> 'f json \<Rightarrow> 'f json list \<Rightarrow> u32" where
  "frame_side as_u32 t items =
     (case items of [one] \<Rightarrow> (case frame_id as_u32 t one of None \<Rightarrow> NONE | Some i \<Rightarrow> i) | _ \<Rightarrow> NONE)"

definition frame :: "('f \<Rightarrow> u32) \<Rightarrow> 'f json option \<Rightarrow> u32 \<times> u32" where
  "frame as_u32 post =
     (case Option.bind post (\<lambda>p. find (\<lambda>q. field_is ''type'' q (lit ''TemplateProcessing'')) (p # field_arr ''processors'' p)) of
        None \<Rightarrow> (NONE, NONE)
      | Some t \<Rightarrow>
          let single = field_arr ''single'' t;
              before = takeWhile (\<lambda>i. json_get (lit ''Sequence'') i = None) single
          in (frame_side as_u32 t before, frame_side as_u32 t (drop (length before + 1) single)))"

section \<open>The vocabulary\<close>

text \<open>\<open><0xHH>\<close>\<close>

definition byte_name :: "str \<Rightarrow> u8 option" where
  "byte_name name =
     (let h = butlast (drop 3 name) in
      if take 3 name = [60, 48, 120] \<and> drop 3 name \<noteq> [] \<and> last name = 62 \<and> length (to_utf8 h) = 2
      then map_option byte (from_hex (to_utf8 h)) else None)"

definition push_text :: "bytes \<Rightarrow> tokenizer \<Rightarrow> tokenizer" where
  "push_text bs t =
     t\<lparr>tk_text := tk_text t @ bs, tk_offsets := tk_offsets t @ [word_of_nat (length (tk_text t @ bs))]\<rparr>"

definition spaced :: "str \<Rightarrow> str" where
  "spaced = map (\<lambda>c. if c = LOW_BAR then 32 else c)"

definition add_char :: "u32 \<Rightarrow> str \<Rightarrow> tokenizer \<Rightarrow> tokenizer" where
  "add_char i name t =
     (case name of
        [c] \<Rightarrow> if is_special t i then t
               else if c < DIRECT then t\<lparr>tk_chars := (tk_chars t)[c := i]\<rparr>
               else t\<lparr>tk_rare := tk_rare t @ [word_of_nat c, i]\<rparr>
      | _ \<Rightarrow> t)"

definition add_token :: "u32 \<Rightarrow> str \<Rightarrow> tokenizer \<Rightarrow> tokenizer" where
  "add_token i name t =
     add_char i name
       (case (if flag t BYTES \<and> \<not> is_special t i then byte_name name else None) of
          Some b \<Rightarrow> push_text [b] (t\<lparr>tk_bytes := (tk_bytes t)[unat b := i]\<rparr>)
        | None \<Rightarrow> push_text (to_utf8 (if flag t META \<and> \<not> is_special t i then spaced name else name)) t)"

fun all_bytes :: "str \<Rightarrow> bytes option" where
  "all_bytes [] = Some []"
| "all_bytes (c # s) = Option.bind (byte_of c) (\<lambda>b. map_option (\<lambda>bs. b # bs) (all_bytes s))"

definition add_byte_token :: "u32 \<Rightarrow> str \<Rightarrow> tokenizer \<Rightarrow> tokenizer" where
  "add_byte_token i name t =
     (case all_bytes name of
        Some [b] \<Rightarrow> push_text [b] (t\<lparr>tk_bytes := (tk_bytes t)[unat b := i]\<rparr>)
      | Some bs \<Rightarrow> push_text bs t
      | None \<Rightarrow> push_text (to_utf8 name) t)"

definition add :: "nat \<times> str \<Rightarrow> tokenizer \<Rightarrow> tokenizer" where
  "add = (\<lambda>(n, name) t.
     let i = word_of_nat n in
     if flag t BYTE_LEVEL \<and> \<not> is_special t i then add_byte_token i name t else add_token i name t)"

definition joined :: "str \<Rightarrow> u32 list" where
  "joined name = map (\<lambda>(c, _). word_of_nat c) (filter (\<lambda>(c, d). d = LOW_BAR \<and> c \<noteq> LOW_BAR) (zip name (tl name)))"

definition matched :: "str list \<Rightarrow> u32 list \<Rightarrow> u32 list" where
  "matched nms ids =
     sort_key (\<lambda>i. let n = to_utf8 (nms ! unat i) in (int (unat (hd n)), - int (length n), int (unat i)))
       (filter (\<lambda>i. unat i < length nms \<and> nms ! unat i \<noteq> [] \<and> LOW_BAR \<notin> set (nms ! unat i)) ids)"

definition merge_key :: "(str \<rightharpoonup> u32) \<Rightarrow> nat \<Rightarrow> str \<times> str \<Rightarrow> error + u32 list" where
  "merge_key ids rank ab =
     (let (a, b) = ab;
          unknown = Format (lit ''tokenizer: merge '' @ [34] @ a @ [34] @ lit '' + '' @ [34] @ b @ [34] @ lit '' names an unknown token'')
      in rbind (ok_or unknown (ids a)) (\<lambda>i. rbind (ok_or unknown (ids b)) (\<lambda>j. rbind (ok_or unknown (ids (a @ b))) (\<lambda>k.
           Inr [i, j, word_of_nat rank, k]))))"

fun put_merges :: "(str \<rightharpoonup> u32) \<Rightarrow> nat \<Rightarrow> (str \<times> str) list \<Rightarrow> u32 list \<Rightarrow> (error + u32 list) option" where
  "put_merges ids rank [] table = Some (Inr table)"
| "put_merges ids rank (ab # merges) table =
     (case merge_key ids rank ab of
        Inl e \<Rightarrow> Some (Inl e)
      | Inr key \<Rightarrow> Option.bind (tbl_put key table) (put_merges ids (Suc rank) merges))"

definition vocab_names :: "(str \<times> u32) list \<Rightarrow> str list" where
  "vocab_names vocab =
     fold (\<lambda>(s, i) nms. nms[unat i := s]) vocab (replicate (fold (\<lambda>(_, i) n. max n (unat i + 1)) vocab 0) [])"

definition blank_tokenizer :: "u32 \<Rightarrow> u32 \<Rightarrow> u32 list \<Rightarrow> nat \<Rightarrow> tokenizer" where
  "blank_tokenizer flags unk sp merges =
     \<lparr>tk_flags = flags, tk_unk = unk, tk_offsets = [0], tk_text = [], tk_special = sp, tk_bytes = replicate 256 NONE,
      tk_chars = replicate DIRECT NONE, tk_rare = [], tk_joins = [], tk_added = [], tk_merges = tbl_new merges,
      tk_words = [], tk_frame = (NONE, NONE)\<rparr>"

definition build :: "(str \<times> u32) list \<Rightarrow> (str \<times> str) list \<Rightarrow> u32 list \<Rightarrow> u32 list \<Rightarrow> str option \<Rightarrow> u32 \<Rightarrow> (error + tokenizer) option" where
  "build vocab merges sp plain unk flags =
     (let nms = vocab_names vocab; ids = map_of (rev vocab);
          t = blank_tokenizer flags (case Option.bind unk ids of None \<Rightarrow> NONE | Some i \<Rightarrow> i) (sort_key unat sp) (length merges);
          t = fold add (enumerate 0 nms) t;
          kept = filter (\<lambda>(n, _). \<not> is_special t (word_of_nat n)) (enumerate 0 nms);
          t = t\<lparr>tk_joins := remdups_adj (sort_key unat (concat (map (\<lambda>(_, name). joined name) kept))), tk_added := matched nms plain\<rparr>
      in map_option (rmap (\<lambda>table. t\<lparr>tk_merges := table\<rparr>)) (put_merges ids 0 merges (tk_merges t)))"

definition bit_if :: "bool \<Rightarrow> u32 \<Rightarrow> u32" where
  "bit_if b f = (if b then f else 0)"

definition doc_tokens :: "('f \<Rightarrow> u32) \<Rightarrow> 'f json \<Rightarrow> 'f json \<Rightarrow> (str \<times> u32) list \<times> u32 list \<times> u32 list" where
  "doc_tokens as_u32 model doc =
     added as_u32 (field_arr ''added_tokens'' doc)
       (map (\<lambda>(k, v). (k, id_of as_u32 (Some v)))
         (case Option.bind (json_get (lit ''vocab'') model) json_obj of None \<Rightarrow> [] | Some kvs \<Rightarrow> kvs))"

definition doc_merges :: "'f json \<Rightarrow> (str \<times> str) list" where
  "doc_merges model = List.map_filter merge_pair (field_arr ''merges'' model)"

text \<open>\<open>from_json\<close> on a document that was read.\<close>

definition from_doc :: "('f \<Rightarrow> u32) \<Rightarrow> 'f json \<Rightarrow> (error + tokenizer) option" where
  "from_doc as_u32 doc =
     (case rbind (ok_or (unsupported ''a model other than BPE'')
              (Option.bind (json_get (lit ''model'') doc) (\<lambda>m. if field_is ''type'' m (lit ''BPE'') then Some m else None))) (\<lambda>model.
            rbind (normalizer (json_get (lit ''normalizer'') doc)) (\<lambda>(meta, nfc).
            rbind (pre_tokenizer (json_get (lit ''pre_tokenizer'') doc) meta) (\<lambda>pre. Inr (model, meta, pre OR bit_if nfc NFC)))) of
        Inl e \<Rightarrow> Some (Inl e)
      | Inr (model, meta, pre) \<Rightarrow>
          let (vocab, sp, plain) = doc_tokens as_u32 model doc;
              flags = pre OR bit_if meta META OR bit_if (field_bool ''byte_fallback'' model = Some True) BYTES
          in Option.bind (build vocab (doc_merges model) sp plain (field ''unk_token'' model) flags) (\<lambda>r.
               case r of
                 Inl e \<Rightarrow> Some (Inl e)
               | Inr t \<Rightarrow>
                   let t = t\<lparr>tk_frame := frame as_u32 (json_get (lit ''post_processor'') doc)\<rparr>
                   in if field_bool ''ignore_merges'' model = Some True then map_option Inr (index_words t (sp @ plain)) else Some (Inr t)))"

definition from_json :: "(bytes \<Rightarrow> 'f option) \<Rightarrow> ('f \<Rightarrow> u32) \<Rightarrow> bytes \<Rightarrow> (json_error + error + tokenizer) option" where
  "from_json rd as_u32 json =
     Option.bind (json_parse rd json) (\<lambda>r. case r of Inl e \<Rightarrow> Some (Inl e) | Inr doc \<Rightarrow> map_option Inr (from_doc as_u32 doc))"

section \<open>The text of each token\<close>

definition token_text :: "tokenizer \<Rightarrow> nat \<times> str \<Rightarrow> bytes" where
  "token_text t = (\<lambda>(n, name).
     let sp = is_special t (word_of_nat n) in
     if flag t BYTE_LEVEL \<and> \<not> sp then (case all_bytes name of Some bs \<Rightarrow> bs | None \<Rightarrow> to_utf8 name)
     else case (if flag t BYTES \<and> \<not> sp then byte_name name else None) of
       Some b \<Rightarrow> [b] | None \<Rightarrow> to_utf8 (if flag t META \<and> \<not> sp then spaced name else name))"

text \<open>What a tokenizer under construction keeps while tokens are added.\<close>

definition same_base :: "tokenizer \<Rightarrow> tokenizer \<Rightarrow> bool" where
  "same_base t u \<longleftrightarrow> tk_flags u = tk_flags t \<and> tk_special u = tk_special t \<and> tk_merges u = tk_merges t \<and> tk_words u = tk_words t \<and>
     length (tk_bytes u) = length (tk_bytes t)"

definition laid :: "tokenizer \<Rightarrow> bytes list \<Rightarrow> bool" where
  "laid t ts \<longleftrightarrow> tk_text t = concat ts \<and> tk_offsets t = map (\<lambda>k. word_of_nat (length (concat (take k ts)))) [0..<Suc (length ts)]"

lemma laid_push: "laid t ts \<Longrightarrow> laid (push_text bs t) (ts @ [bs])"
  by (simp add: laid_def push_text_def)

lemma laid_same: "tk_text u = tk_text t \<Longrightarrow> tk_offsets u = tk_offsets t \<Longrightarrow> laid t ts \<Longrightarrow> laid u ts"
  by (simp add: laid_def)

lemma laid_add_char: "laid (add_char i name t) ts = laid t ts"
  by (auto simp: laid_def add_char_def split: list.splits)

lemma same_push: "same_base t (push_text bs t)"
  by (simp add: same_base_def push_text_def)

lemma same_add_char: "same_base t u \<Longrightarrow> same_base t (add_char i name u)"
  by (auto simp: same_base_def add_char_def split: list.splits)

lemma add_laid:
  assumes "laid t ts"
  shows "laid (add nn t) (ts @ [token_text t nn])"
proof -
  obtain n name where n: "nn = (n, name)" by fastforce
  have "laid (t\<lparr>tk_bytes := b\<rparr>) ts" for b by (rule laid_same [OF _ _ assms]) simp_all
  note push = laid_push [OF this] laid_push [OF assms]
  show ?thesis
    using push by (auto simp: n add_def token_text_def add_byte_token_def add_token_def laid_add_char Let_def split: option.splits list.splits)
qed

lemma add_same: "same_base t (add nn t)"
proof -
  obtain n name where n: "nn = (n, name)" by fastforce
  have "same_base t (push_text bs (t\<lparr>tk_bytes := (tk_bytes t)[j := i]\<rparr>))" for bs j i by (simp add: same_base_def push_text_def)
  then show ?thesis using same_push [of t] same_add_char [of t]
    by (auto simp: n add_def add_byte_token_def add_token_def Let_def split: option.splits list.splits)
qed

lemma same_trans: "same_base t u \<Longrightarrow> same_base u v \<Longrightarrow> same_base t v"
  by (simp add: same_base_def)

lemma same_text:
  assumes "same_base t u"
  shows "token_text u = token_text t"
proof -
  have same: "flag u = flag t" "is_special u = is_special t"
    using assms by (simp_all add: same_base_def flag_def is_special_def fun_eq_iff)
  show ?thesis unfolding token_text_def same by (rule refl)
qed

lemma fold_add:
  assumes "laid t ts"
  shows "laid (fold add nns t) (ts @ map (token_text t) nns) \<and> same_base t (fold add nns t)"
  using assms
proof (induction nns arbitrary: t ts)
  case Nil
  then show ?case by (simp add: same_base_def)
next
  case (Cons nn nns)
  show ?case
    using Cons.IH [OF add_laid [OF Cons.prems, of nn]] same_text [OF add_same [of t nn]] same_trans [OF add_same [of t nn]] by simp
qed

lemma laid_token:
  assumes "laid t ts" "length (concat ts) < 2 ^ 32" "unat i < length ts"
  shows "token_bytes t i = ts ! unat i"
proof -
  let ?n = "unat i"
  have off: "unat (tk_offsets t ! k) = length (concat (take k ts))" if "k \<le> length ts" for k
  proof -
    have "length (concat (take k ts)) \<le> length (concat (take k ts @ drop k ts))" unfolding concat_append by simp
    then have "length (concat (take k ts)) < 2 ^ 32" using assms(2) by simp
    then show ?thesis using that assms(1) by (simp add: laid_def unat_of_nat nth_append del: upt_Suc)
  qed
  have len: "length (tk_offsets t) = Suc (length ts)" using assms(1) by (simp add: laid_def)
  have split: "concat ts = concat (take ?n ts) @ ts ! ?n @ concat (drop (Suc ?n) ts)"
    using assms(3) by (metis append.assoc concat.simps(2) concat_append id_take_nth_drop)
  have "take 2 (drop ?n (tk_offsets t)) = [tk_offsets t ! ?n, tk_offsets t ! Suc ?n]"
    using assms(3) len by (simp add: Cons_nth_drop_Suc [symmetric] take_Suc numeral_2_eq_2)
  then have "token_bytes t i = take (length (concat (take (Suc ?n) ts)) - length (concat (take ?n ts))) (drop (length (concat (take ?n ts))) (tk_text t))"
    using assms(3) len off [of ?n] off [of "Suc ?n"] by (simp add: token_bytes_def slice_def)
  also have "length (concat (take (Suc ?n) ts)) = length (concat (take ?n ts)) + length (ts ! ?n)"
    using assms(3) by (simp add: take_Suc_conv_app_nth)
  finally show ?thesis using assms(1) split by (simp add: laid_def)
qed

section \<open>Lengths\<close>

lemma all_bytes_length: "all_bytes name = Some bs \<Longrightarrow> length bs \<le> length (to_utf8 name)"
proof (induction name arbitrary: bs)
  case (Cons c s)
  then obtain b bs' where "bs = b # bs'" "all_bytes s = Some bs'" by (auto split: bind_splits)
  moreover have "length (to_utf8 (c # s)) = length (encode_utf8 c) + length (to_utf8 s)" by simp
  ultimately show ?case using Cons.IH [of bs'] length_encode_utf8(1) [of c] by (metis Suc_eq_plus1_left Suc_leI add_mono length_Cons One_nat_def)
qed simp

lemma spaced_length: "length (to_utf8 (spaced name)) \<le> length (to_utf8 name)"
  by (induction name) (auto simp: spaced_def LOW_BAR_def encode_utf8_def)

lemma byte_name_length: "byte_name name = Some b \<Longrightarrow> 1 \<le> length (to_utf8 name)"
  by (cases name) (auto simp: byte_name_def Let_def Suc_le_eq split: if_splits)

lemma token_text_length: "length (token_text t (n, name)) \<le> length (to_utf8 name)"
  using all_bytes_length [of name] spaced_length [of name] byte_name_length [of name]
  by (auto simp: token_text_def Let_def split: option.splits)

lemma token_texts_length: "length (concat (map (token_text t) (enumerate n nms))) \<le> length (to_utf8 (concat nms))"
proof (induction nms arbitrary: n)
  case (Cons name nms)
  then show ?case using add_mono [OF token_text_length [of t n name] Cons.IH [of "Suc n"]] by simp
qed simp

section \<open>The merge table\<close>

text \<open>The rules of the merges, as the table holds them.\<close>

fun all_keys :: "(str \<rightharpoonup> u32) \<Rightarrow> nat \<Rightarrow> (str \<times> str) list \<Rightarrow> error + u32 list list" where
  "all_keys ids rank [] = Inr []"
| "all_keys ids rank (ab # merges) =
     rbind (merge_key ids rank ab) (\<lambda>key. rbind (all_keys ids (Suc rank) merges) (\<lambda>keys. Inr (key # keys)))"

lemma merge_key_ok:
  "merge_key ids rank ab = Inr key \<Longrightarrow> NONE \<notin> ran ids \<Longrightarrow> length key = 4 \<and> key ! 0 \<noteq> NONE"
  by (auto simp: merge_key_def Let_def result_simps ran_def split: prod.splits)

lemma all_keys_ok: "all_keys ids rank merges = Inr keys \<Longrightarrow> NONE \<notin> ran ids \<Longrightarrow> rules_ok keys \<and> length keys = length merges"
  by (induction merges arbitrary: rank keys) (auto simp: result_simps rules_ok_def dest: merge_key_ok)

lemma put_merges_fill:
  "all_keys ids rank merges = Inr keys \<Longrightarrow> put_merges ids rank merges table = map_option Inr (tbl_fill keys table)"
proof (induction merges arbitrary: rank keys table)
  case (Cons ab merges)
  then obtain key ks where k: "merge_key ids rank ab = Inr key" "all_keys ids (Suc rank) merges = Inr ks" "keys = key # ks"
    by (auto simp: result_simps)
  show ?case using Cons.IH [OF k(2)] k(1,3) by (cases "tbl_put key table") simp_all
qed simp

text \<open>A merge that names an unknown token ends the loop before any search could fail: the table has room for all.\<close>

lemma put_merges_error:
  assumes "all_keys ids rank merges = Inl e" "\<And>ks. rules_ok ks \<Longrightarrow> length ks \<le> length merges \<Longrightarrow> tbl_fill ks table \<noteq> None" "NONE \<notin> ran ids"
  shows "put_merges ids rank merges table = Some (Inl e)"
  using assms(1,2)
proof (induction merges arbitrary: rank table)
  case (Cons ab merges)
  show ?case
  proof (cases "merge_key ids rank ab")
    case (Inr key)
    have key: "rules_ok [key]" using merge_key_ok [OF Inr assms(3)] by (simp add: rules_ok_def)
    then obtain table' where t: "tbl_put key table = Some table'" using Cons.prems(2) [of "[key]"] by fastforce
    have "tbl_fill ks table' \<noteq> None" if "rules_ok ks" "length ks \<le> length merges" for ks
      using Cons.prems(2) [of "key # ks"] that key t by (simp add: rules_ok_def)
    then show ?thesis using Cons.IH [of "Suc rank" table'] Cons.prems(1) Inr t by (auto simp: rbind_Inl_iff)
  qed (use Cons in simp)
qed simp

lemma room_for_all:
  assumes "rules_ok ks" "length ks \<le> n"
  shows "tbl_fill ks (tbl_new n) \<noteq> None"
proof -
  have "busy (tbl_new n) + length ks < length (tbl_new n) div 4"
    using tbl_new_ok(3,4) [of n] next_power_of_two_ge [of "2 * n"] assms(2) by auto
  then show ?thesis using tbl_fill_ok [OF tbl_new_ok(1) _ assms(1)] by (metis option.distinct(1))
qed

lemma put_merges_returns:
  assumes "NONE \<notin> ran ids"
  shows "(\<exists>e. put_merges ids 0 merges (tbl_new (length merges)) = Some (Inl e)) \<or>
         (\<exists>keys table. all_keys ids 0 merges = Inr keys \<and> tbl_fill keys (tbl_new (length merges)) = Some table \<and>
            put_merges ids 0 merges (tbl_new (length merges)) = Some (Inr table))"
proof (cases "all_keys ids 0 merges")
  case (Inl e)
  then show ?thesis using put_merges_error [OF _ room_for_all assms] by blast
next
  case (Inr keys)
  note ok = all_keys_ok [OF Inr assms]
  then obtain table where "tbl_fill keys (tbl_new (length merges)) = Some table" using room_for_all [of keys "length merges"] by fastforce
  then show ?thesis using put_merges_fill [OF Inr] Inr by simp
qed

section \<open>The index of words\<close>

lemma count_update: "k < length xs \<Longrightarrow> count_list xs a \<le> Suc (count_list (xs[k := b]) a)"
  by (induction xs arbitrary: k) (auto split: nat.splits simp: less_Suc_eq_0_disj)

lemma count_list_replicate_self: "count_list (replicate n a) a = n"
  by (induction n) simp_all

lemma word_fill_returns:
  assumes "length table = 2 ^ m" "length is < count_list table NONE"
  shows "\<exists>table'. word_fill t is table = Some table' \<and> length table' = length table \<and> NONE \<in> set table'"
  using assms
proof (induction "is" arbitrary: table)
  case Nil
  then show ?case using count_notin [of NONE table] by fastforce
next
  case (Cons i ids)
  have "NONE \<in> set table" using Cons.prems(2) count_notin [of NONE table] by fastforce
  then obtain j where j: "j < length table" "table ! j = NONE" by (auto simp: in_set_conv_nth)
  obtain k where k: "k < length table" "probe (\<lambda>k. table ! k = NONE) (length table - 1) (slot (fnv (token_bytes t i)) (length table - 1)) = Some k"
    using probe_finds [OF Cons.prems(1) j(1) _ slot_less [OF Cons.prems(1)], where stop = "\<lambda>k. table ! k = NONE"] j(2) by blast
  have "length ids < count_list (table[k := i]) NONE" using count_update [OF k(1), of NONE i] Cons.prems(2) by simp
  then show ?case using Cons.IH [of "table[k := i]"] Cons.prems(1) k(2) by (simp add: word_put_def Let_def)
qed

lemma index_words_returns:
  "\<exists>table m. index_words t skip = Some (t\<lparr>tk_words := table\<rparr>) \<and> length table = 2 ^ m \<and> NONE \<in> set table"
proof -
  let ?n = "max (next_power_of_two (2 * tok_len t)) 2"
  let ?is = "filter (\<lambda>i. i \<notin> set skip) (map word_of_nat [0..<tok_len t])"
  obtain m where m: "?n = 2 ^ m" using next_power_of_two_power [of "2 * tok_len t"] by (metis max_def power_one_right)
  have "length ?is \<le> tok_len t" by (rule order.trans [OF length_filter_le]) simp
  then have "length ?is < ?n" using next_power_of_two_ge [of "2 * tok_len t"] by linarith
  then have "\<exists>table'. word_fill t ?is (replicate ?n NONE) = Some table' \<and> length table' = length (replicate ?n NONE) \<and> NONE \<in> set table'"
    by (intro word_fill_returns [where m = m]) (simp_all add: m count_list_replicate_self)
  then show ?thesis using m by (auto simp: index_words_def)
qed

section \<open>Tokenizers that are read are sound\<close>

text \<open>
  What the theorem asks of a vocabulary: no ID is the reserved \<open>NONE\<close>; the tokens' text fits the 32-bit offsets; and
  the plain added tokens are ASCII and not byte names. (Others can end up with a text that is not UTF-8, and the search
  for added tokens would then cut a character apart.)
\<close>

definition vocab_fits :: "(str \<times> u32) list \<Rightarrow> u32 list \<Rightarrow> bool" where
  "vocab_fits vocab plain \<longleftrightarrow>
     list_all (\<lambda>(_, i). i \<noteq> NONE) vocab \<and> length (to_utf8 (concat (vocab_names vocab))) < 2 ^ 32 \<and>
     list_all (\<lambda>i. unat i < length (vocab_names vocab) \<longrightarrow>
       list_all (\<lambda>c. c < 0x80) (vocab_names vocab ! unat i) \<and> byte_name (vocab_names vocab ! unat i) = None) plain"

lemma ascii_bytes: "list_all (\<lambda>c. c < 0x80) name \<Longrightarrow> all_bytes name = Some bs \<Longrightarrow> bs = to_utf8 name"
  by (induction name arbitrary: bs) (auto simp: byte_of_def split: bind_splits if_splits)

lemma ascii_spaced: "LOW_BAR \<notin> set name \<Longrightarrow> spaced name = name"
  by (auto simp: spaced_def intro!: map_idI)

lemma ascii_text:
  assumes "list_all (\<lambda>c. c < 0x80) name" "byte_name name = None" "LOW_BAR \<notin> set name"
  shows "token_text t (n, name) = to_utf8 name"
  using assms ascii_bytes [OF assms(1)] ascii_spaced [OF assms(3)] by (simp add: token_text_def Let_def split: option.splits)

lemma map_of_ran: "list_all (\<lambda>(_, i). i \<noteq> NONE) vocab \<Longrightarrow> NONE \<notin> ran (map_of (rev vocab))"
  by (auto simp: ran_def list_all_iff dest!: map_of_SomeD)

lemma matched_in:
  "i \<in> set (matched nms ids) \<longleftrightarrow> i \<in> set ids \<and> unat i < length nms \<and> nms ! unat i \<noteq> [] \<and> LOW_BAR \<notin> set (nms ! unat i)"
  by (auto simp: matched_def)

lemma ascii_ok: "list_all (\<lambda>c. c < 0x80) w \<Longrightarrow> str_ok w"
  by (auto simp: str_ok_def list_all_iff is_scalar_def)

lemma build_sound:
  assumes "vocab_fits vocab plain"
  shows "(\<exists>e. build vocab merges sp plain unk flags = Some (Inl e)) \<or>
         (\<exists>t keys. build vocab merges sp plain unk flags = Some (Inr t) \<and> all_keys (map_of (rev vocab)) 0 merges = Inr keys \<and>
            rules_ok keys \<and> tbl_fill keys (tbl_new (length keys)) = Some (tk_merges t) \<and> tk_flags t = flags \<and>
            length (tk_bytes t) = 256 \<and> tk_words t = [] \<and>
            (\<forall>i \<in> set (tk_added t). \<exists>w. w \<noteq> [] \<and> str_ok w \<and> token_bytes t i = to_utf8 w))"
proof -
  let ?nms = "vocab_names vocab" and ?ids = "map_of (rev vocab)"
  define t0 where "t0 = blank_tokenizer flags (case Option.bind unk ?ids of None \<Rightarrow> NONE | Some i \<Rightarrow> i) (sort_key unat sp) (length merges)"
  define t1 where "t1 = fold add (enumerate 0 ?nms) t0"
  let ?ts = "map (token_text t0) (enumerate 0 ?nms)"
  have laid0: "laid t0 []" by (simp add: t0_def laid_def blank_tokenizer_def)
  have t1: "laid t1 ?ts" "same_base t0 t1" using fold_add [OF laid0, of "enumerate 0 ?nms"] by (simp_all add: t1_def)
  have base: "tk_merges t1 = tbl_new (length merges)" "tk_flags t1 = flags" "length (tk_bytes t1) = 256" "tk_words t1 = []"
    using t1(2) by (simp_all add: same_base_def t0_def blank_tokenizer_def)
  have size: "length (concat ?ts) < 2 ^ 32" using assms token_texts_length [of t0 0 ?nms] by (simp add: vocab_fits_def)
  have none: "NONE \<notin> ran ?ids" using assms map_of_ran [of vocab] by (simp add: vocab_fits_def)
  have added: "\<exists>w. w \<noteq> [] \<and> str_ok w \<and> token_bytes t i = to_utf8 w"
    if i: "i \<in> set (matched ?nms plain)" and t: "tk_text t = tk_text t1" "tk_offsets t = tk_offsets t1" for t i
  proof -
    let ?w = "?nms ! unat i"
    have w: "i \<in> set plain" "unat i < length ?nms" "?w \<noteq> []" "LOW_BAR \<notin> set ?w" using i by (simp_all add: matched_in)
    then have a: "list_all (\<lambda>c. c < 0x80) ?w" "byte_name ?w = None" using assms by (auto simp: vocab_fits_def list_all_iff)
    have "token_bytes t i = ?ts ! unat i" using laid_token [OF laid_same [OF t t1(1)] size] w(2) by simp
    then have "token_bytes t i = to_utf8 ?w" using w(2) ascii_text [OF a w(4)] by (simp add: nth_enumerate_eq)
    then show ?thesis using w(3) ascii_ok [OF a(1)] by blast
  qed
  have b: "build vocab merges sp plain unk flags =
      map_option (rmap (\<lambda>table. t1\<lparr>tk_joins := remdups_adj (sort_key unat (concat (map (\<lambda>(_, name). joined name)
        (filter (\<lambda>(n, _). \<not> is_special t1 (word_of_nat n)) (enumerate 0 ?nms))))), tk_added := matched ?nms plain, tk_merges := table\<rparr>))
        (put_merges ?ids 0 merges (tbl_new (length merges)))"
    using base(1) by (simp add: build_def Let_def t0_def [symmetric] t1_def [symmetric])
  consider e where "put_merges ?ids 0 merges (tbl_new (length merges)) = Some (Inl e)"
    | keys table where "all_keys ?ids 0 merges = Inr keys" "tbl_fill keys (tbl_new (length merges)) = Some table"
        "put_merges ?ids 0 merges (tbl_new (length merges)) = Some (Inr table)"
    using put_merges_returns [OF none, of merges] by blast
  then show ?thesis
  proof cases
    case 1
    then show ?thesis using b by simp
  next
    case 2
    then show ?thesis using b base added all_keys_ok [OF 2(1) none] by auto
  qed
qed

definition doc_fits :: "('f \<Rightarrow> u32) \<Rightarrow> 'f json \<Rightarrow> bool" where
  "doc_fits as_u32 doc \<longleftrightarrow>
     (case json_get (lit ''model'') doc of None \<Rightarrow> True
      | Some model \<Rightarrow> (case doc_tokens as_u32 model doc of (vocab, _, plain) \<Rightarrow> vocab_fits vocab plain))"

definition one_pattern :: "u32 \<Rightarrow> bool" where
  "one_pattern f \<longleftrightarrow> f AND CL100K = 0 \<or> f AND O200K = 0"

lemma level_flags_plain: "level_flags p regex = Some f \<Longrightarrow> f AND CL100K = 0 \<and> f AND O200K = 0"
  by (auto simp: level_flags_def flag_defs split: if_splits)

lemma byte_level_one: "byte_level pre = Some f \<Longrightarrow> one_pattern f"
  by (auto simp: byte_level_def split_level_def one_pattern_def Let_def bit.conj_disj_distrib2 pattern_bit_def flag_defs
      split: option.splits list.splits if_splits pattern.splits dest!: level_flags_plain)

lemma zero_one: "one_pattern 0"
  by (simp add: one_pattern_def)

lemma metaspace_one: "one_pattern (metaspace pre)"
  by (simp add: one_pattern_def metaspace_def flag_defs)

lemma pre_tokenizer_one: "pre_tokenizer pre meta = Inr f \<Longrightarrow> one_pattern f"
  by (cases pre) (auto simp: zero_one metaspace_one split: if_splits option.splits dest: byte_level_one)

lemma one_pattern_or: "one_pattern f \<Longrightarrow> one_pattern (f OR bit_if a NFC OR bit_if b META OR bit_if c BYTES)"
  by (auto simp: one_pattern_def bit_if_def bit.conj_disj_distrib2 flag_defs)

lemma tok_wf_build:
  assumes "rules_ok keys" "tbl_fill keys (tbl_new (length keys)) = Some (tk_merges t)" "length (tk_bytes t) = 256"
    "tk_words t = [] \<or> (\<exists>m. length (tk_words t) = 2 ^ m) \<and> NONE \<in> set (tk_words t)" "one_pattern (tk_flags t)"
    "\<forall>i \<in> set (tk_added t). \<exists>w. w \<noteq> [] \<and> str_ok w \<and> token_bytes t i = to_utf8 w" "\<not> flag t NFC"
  shows "tok_wf t keys"
  using assms by (auto simp: tok_wf_def one_pattern_def flag_def)

lemma token_bytes_other [simp]: "token_bytes (t\<lparr>tk_frame := fr\<rparr>) = token_bytes t" "token_bytes (t\<lparr>tk_words := ws\<rparr>) = token_bytes t"
  by (simp_all add: token_bytes_def fun_eq_iff split: option.splits)

lemma flag_other [simp]: "flag (t\<lparr>tk_frame := fr\<rparr>) = flag t" "flag (t\<lparr>tk_words := ws\<rparr>) = flag t"
  by (simp_all add: flag_def fun_eq_iff)

lemma from_doc_sound:
  assumes "doc_fits as_u32 doc"
  shows "(\<exists>e. from_doc as_u32 doc = Some (Inl e)) \<or>
         (\<exists>t model keys. from_doc as_u32 doc = Some (Inr t) \<and> json_get (lit ''model'') doc = Some model \<and>
            all_keys (map_of (rev (fst (doc_tokens as_u32 model doc)))) 0 (doc_merges model) = Inr keys \<and> (\<not> flag t NFC \<longrightarrow> tok_wf t keys))"
proof -
  let ?head = "rbind (ok_or (unsupported ''a model other than BPE'')
      (Option.bind (json_get (lit ''model'') doc) (\<lambda>m. if field_is ''type'' m (lit ''BPE'') then Some m else None))) (\<lambda>model.
    rbind (normalizer (json_get (lit ''normalizer'') doc)) (\<lambda>(meta, nfc).
    rbind (pre_tokenizer (json_get (lit ''pre_tokenizer'') doc) meta) (\<lambda>pre. Inr (model, meta, pre OR bit_if nfc NFC))))"
  show ?thesis
  proof (cases ?head)
    case (Inl e)
    then show ?thesis by (simp add: from_doc_def)
  next
    case (Inr mmp)
    then obtain model meta nfc pre0 where m: "mmp = (model, meta, pre0 OR bit_if nfc NFC)" "json_get (lit ''model'') doc = Some model"
        "pre_tokenizer (json_get (lit ''pre_tokenizer'') doc) meta = Inr pre0"
      by (auto simp: result_simps split: bind_splits if_splits)
    obtain vocab sp plain where v: "doc_tokens as_u32 model doc = (vocab, sp, plain)" by (metis prod_cases3)
    define flags where "flags = (pre0 OR bit_if nfc NFC) OR bit_if meta META OR bit_if (field_bool ''byte_fallback'' model = Some True) BYTES"
    have one: "one_pattern flags" using one_pattern_or [OF pre_tokenizer_one [OF m(3)]] by (simp add: flags_def or.assoc)
    have fits: "vocab_fits vocab plain" using assms m(2) v by (simp add: doc_fits_def)
    let ?b = "build vocab (doc_merges model) sp plain (field ''unk_token'' model) flags"
    have d: "from_doc as_u32 doc = Option.bind ?b (\<lambda>r. case r of Inl e \<Rightarrow> Some (Inl e)
        | Inr t \<Rightarrow> let t = t\<lparr>tk_frame := frame as_u32 (json_get (lit ''post_processor'') doc)\<rparr>
            in if field_bool ''ignore_merges'' model = Some True then map_option Inr (index_words t (sp @ plain)) else Some (Inr t))"
      unfolding from_doc_def Inr m(1) flags_def by (simp add: v)
    from build_sound [OF fits, of "doc_merges model" sp "field ''unk_token'' model" flags] show ?thesis
    proof (elim disjE exE conjE)
      fix e assume "?b = Some (Inl e)"
      then show ?thesis using d by simp
    next
      fix t keys
      assume b: "?b = Some (Inr t)" and keys: "all_keys (map_of (rev vocab)) 0 (doc_merges model) = Inr keys" "rules_ok keys"
        "tbl_fill keys (tbl_new (length keys)) = Some (tk_merges t)" and t: "tk_flags t = flags" "length (tk_bytes t) = 256" "tk_words t = []"
        "\<forall>i \<in> set (tk_added t). \<exists>w. w \<noteq> [] \<and> str_ok w \<and> token_bytes t i = to_utf8 w"
      define u where "u = t\<lparr>tk_frame := frame as_u32 (json_get (lit ''post_processor'') doc)\<rparr>"
      have u: "tok_wf u keys" if "\<not> flag u NFC"
        by (rule tok_wf_build [OF keys(2) _ _ _ _ _ that]) (use keys t one in \<open>simp_all add: u_def\<close>)
      obtain table n where w: "index_words u (sp @ plain) = Some (u\<lparr>tk_words := table\<rparr>)" "length table = 2 ^ n" "NONE \<in> set table"
        using index_words_returns [of u "sp @ plain"] by blast
      have uw: "tok_wf (u\<lparr>tk_words := table\<rparr>) keys" if "\<not> flag u NFC"
        by (rule tok_wf_build [OF keys(2)]) (use keys t one that w in \<open>auto simp: u_def\<close>)
      show ?thesis using d b w(1) u uw keys(1) m(2) v by (auto simp: u_def [symmetric] Let_def)
    qed
  qed
qed


definition small_model :: "nat json" where
  "small_model = Obj [(lit ''type'', Str (lit ''BPE'')), (lit ''vocab'', Obj [(lit ''a'', Num 0), (lit ''b'', Num 1), (lit ''ab'', Num 2)]),
     (lit ''merges'', Arr [Str (lit ''a b'')])]"

definition small_doc :: "nat json" where
  "small_doc = Obj [(lit ''model'', small_model)]"

lemma small_doc_parses: "json_parse read_digit (to_utf8 (dumps one_digit small_doc)) = Some (Inr small_doc)"
  by (rule parse_written)
     (simp add: small_doc_def small_model_def lit_def shown_def one_digit_def read_digit_def number_char_def is_scalar_def)

lemma small_model_gets:
  "json_get (lit ''model'') small_doc = Some small_model"
  "doc_tokens word_of_nat small_model small_doc = ([(lit ''a'', 0), (lit ''b'', 1), (lit ''ab'', 2)], [], [])"
  "doc_merges small_model = [(lit ''a'', lit ''b'')]"
  by (simp_all add: small_doc_def small_model_def json_get_def lit_def doc_tokens_def added_def added_tokens_def field_arr_def id_of_def
      doc_merges_def List.map_filter_def)


end
