(* ===== verification/Sha.thy ===== *)
theory Sha
  imports Prelude
begin

text \<open>
  Hashing and key derivation (\<open>net/crypto.rs\<close>): SHA-256 as a running hash that is fed in pieces, its two compression
  functions (the scalar one and the one on the SHA-NI instructions), HMAC and HKDF. A 128-bit register is its four
  32-bit lanes, lane 0 first; the intrinsics are modelled as Intel's manual gives them. Whether the CPU has SHA-NI is
  an argument. Wiping memory and reading random bytes have no counterpart.
\<close>

unbundle bit_operations_syntax

section \<open>The compression function\<close>

type_synonym hash = "u32 \<times> u32 \<times> u32 \<times> u32 \<times> u32 \<times> u32 \<times> u32 \<times> u32"

definition K :: "u32 list" where
  "K = concat [
     [0x428a2f98, 0x71374491, 0xb5c0fbcf, 0xe9b5dba5], [0x3956c25b, 0x59f111f1, 0x923f82a4, 0xab1c5ed5], [0xd807aa98, 0x12835b01, 0x243185be, 0x550c7dc3],
     [0x72be5d74, 0x80deb1fe, 0x9bdc06a7, 0xc19bf174], [0xe49b69c1, 0xefbe4786, 0x0fc19dc6, 0x240ca1cc], [0x2de92c6f, 0x4a7484aa, 0x5cb0a9dc, 0x76f988da],
     [0x983e5152, 0xa831c66d, 0xb00327c8, 0xbf597fc7], [0xc6e00bf3, 0xd5a79147, 0x06ca6351, 0x14292967], [0x27b70a85, 0x2e1b2138, 0x4d2c6dfc, 0x53380d13],
     [0x650a7354, 0x766a0abb, 0x81c2c92e, 0x92722c85], [0xa2bfe8a1, 0xa81a664b, 0xc24b8b70, 0xc76c51a3], [0xd192e819, 0xd6990624, 0xf40e3585, 0x106aa070],
     [0x19a4c116, 0x1e376c08, 0x2748774c, 0x34b0bcb5], [0x391c0cb3, 0x4ed8aa4a, 0x5b9cca4f, 0x682e6ff3], [0x748f82ee, 0x78a5636f, 0x84c87814, 0x8cc70208],
     [0x90befffa, 0xa4506ceb, 0xbef9a3f7, 0xc67178f2]]"

definition H0 :: hash where
  "H0 = (0x6a09e667, 0xbb67ae85, 0x3c6ef372, 0xa54ff53a, 0x510e527f, 0x9b05688c, 0x1f83d9ab, 0x5be0cd19)"

definition ror :: "nat \<Rightarrow> u32 \<Rightarrow> u32" where
  "ror n w = word_rotr n w"

definition small0 :: "u32 \<Rightarrow> u32" where
  "small0 x = ror 7 x XOR ror 18 x XOR drop_bit 3 x"

definition small1 :: "u32 \<Rightarrow> u32" where
  "small1 x = ror 17 x XOR ror 19 x XOR drop_bit 10 x"

definition be_word :: "bytes \<Rightarrow> u32" where
  "be_word bs = word_of_nat (be_val bs)"

fun first_words :: "bytes \<Rightarrow> u32 list" where
  "first_words (a # b # c # d # bs) = be_word [a, b, c, d] # first_words bs"
| "first_words _ = []"

definition schedule :: "bytes \<Rightarrow> u32 list" where
  "schedule block =
     fold (\<lambda>i w. w @ [w ! (i - 16) + small0 (w ! (i - 15)) + w ! (i - 7) + small1 (w ! (i - 2))]) [16..<64] (first_words block)"

definition sha_round :: "u32 \<Rightarrow> hash \<Rightarrow> hash" where
  "sha_round kw = (\<lambda>(a, b, c, d, e, f, g, h).
     let t1 = h + (ror 6 e XOR ror 11 e XOR ror 25 e) + ((e AND f) XOR (NOT e AND g)) + kw;
         t2 = (ror 2 a XOR ror 13 a XOR ror 22 a) + ((a AND b) XOR (a AND c) XOR (b AND c))
     in (t1 + t2, a, b, c, d + t1, e, f, g))"

definition add_hash :: "hash \<Rightarrow> hash \<Rightarrow> hash" where
  "add_hash = (\<lambda>(a, b, c, d, e, f, g, h) (a', b', c', d', e', f', g', h').
     (a + a', b + b', c + c', d + d', e + e', f + f', g + g', h + h'))"

definition compress_scalar :: "bytes \<Rightarrow> hash \<Rightarrow> hash" where
  "compress_scalar block st = (let w = schedule block in add_hash st (fold (\<lambda>i. sha_round (K ! i + w ! i)) [0..<64] st))"

section \<open>The SHA-NI path\<close>

type_synonym m128 = "u32 \<times> u32 \<times> u32 \<times> u32"

definition add_epi32 :: "m128 \<Rightarrow> m128 \<Rightarrow> m128" where
  "add_epi32 = (\<lambda>(a0, a1, a2, a3) (b0, b1, b2, b3). (a0 + b0, a1 + b1, a2 + b2, a3 + b3))"

definition alignr4 :: "m128 \<Rightarrow> m128 \<Rightarrow> m128" where
  "alignr4 = (\<lambda>(a0, a1, a2, a3) (b0, b1, b2, b3). (b1, b2, b3, a0))"

definition alignr8 :: "m128 \<Rightarrow> m128 \<Rightarrow> m128" where
  "alignr8 = (\<lambda>(a0, a1, a2, a3) (b0, b1, b2, b3). (b2, b3, a0, a1))"

definition blend_f0 :: "m128 \<Rightarrow> m128 \<Rightarrow> m128" where
  "blend_f0 = (\<lambda>(a0, a1, a2, a3) (b0, b1, b2, b3). (a0, a1, b2, b3))"

definition lane :: "m128 \<Rightarrow> nat \<Rightarrow> u32" where
  "lane m i = (case m of (a, b, c, d) \<Rightarrow> [a, b, c, d] ! i)"

definition shuffle_epi32 :: "nat \<Rightarrow> m128 \<Rightarrow> m128" where
  "shuffle_epi32 imm m = (lane m (imm mod 4), lane m (imm div 4 mod 4), lane m (imm div 16 mod 4), lane m (imm div 64 mod 4))"

text \<open>\<open>_mm_shuffle_epi8\<close> with the mask \<open>swap\<close> reverses the bytes of each lane.\<close>

definition bswap :: "u32 \<Rightarrow> u32" where
  "bswap w = be_word (le_bytes 4 (unat w))"

definition shuffle_swap :: "m128 \<Rightarrow> m128" where
  "shuffle_swap = (\<lambda>(a, b, c, d). (bswap a, bswap b, bswap c, bswap d))"

definition le_word :: "bytes \<Rightarrow> nat \<Rightarrow> u32" where
  "le_word bs i = word_of_nat (le_val (take 4 (drop (4 * i) bs)))"

definition loadu :: "bytes \<Rightarrow> nat \<Rightarrow> m128" where
  "loadu bs i = (le_word bs (4 * i), le_word bs (4 * i + 1), le_word bs (4 * i + 2), le_word bs (4 * i + 3))"

definition load_k :: "nat \<Rightarrow> m128" where
  "load_k i = (K ! i, K ! (i + 1), K ! (i + 2), K ! (i + 3))"

definition sha256msg1 :: "m128 \<Rightarrow> m128 \<Rightarrow> m128" where
  "sha256msg1 = (\<lambda>(w0, w1, w2, w3) (w4, _, _, _). (w0 + small0 w1, w1 + small0 w2, w2 + small0 w3, w3 + small0 w4))"

definition sha256msg2 :: "m128 \<Rightarrow> m128 \<Rightarrow> m128" where
  "sha256msg2 = (\<lambda>(a0, a1, a2, a3) (_, _, w14, w15).
     let w16 = a0 + small1 w14; w17 = a1 + small1 w15; w18 = a2 + small1 w16; w19 = a3 + small1 w17 in (w16, w17, w18, w19))"

text \<open>Two rounds: the state is split over two registers, ABEF and CDGH (F and H in lane 0).\<close>

definition sha256rnds2 :: "m128 \<Rightarrow> m128 \<Rightarrow> m128 \<Rightarrow> m128" where
  "sha256rnds2 = (\<lambda>(h, g, d, c) (f, e, b, a) (k0, k1, _, _).
     case sha_round k1 (sha_round k0 (a, b, c, d, e, f, g, h)) of (a2, b2, _, _, e2, f2, _, _) \<Rightarrow> (f2, e2, b2, a2))"

definition ni_step :: "nat \<Rightarrow> m128 list \<times> m128 \<times> m128 \<Rightarrow> m128 list \<times> m128 \<times> m128" where
  "ni_step r = (\<lambda>(m, abef, cdgh).
     let mk = add_epi32 (m ! (r mod 4)) (load_k (4 * r));
         cdgh = sha256rnds2 cdgh abef mk;
         abef = sha256rnds2 abef cdgh (shuffle_epi32 0x0e mk);
         m = (if 3 \<le> r \<and> r < 15
              then m[(r + 1) mod 4 := sha256msg2 (add_epi32 (m ! ((r + 1) mod 4)) (alignr4 (m ! (r mod 4)) (m ! ((r + 3) mod 4)))) (m ! (r mod 4))]
              else m);
         m = (if 1 \<le> r \<and> r < 13 then m[(r + 3) mod 4 := sha256msg1 (m ! ((r + 3) mod 4)) (m ! (r mod 4))] else m)
     in (m, abef, cdgh))"

definition ni_block :: "bytes \<Rightarrow> m128 \<times> m128 \<Rightarrow> m128 \<times> m128" where
  "ni_block block = (\<lambda>(abef0, cdgh0).
     let m = map (\<lambda>i. shuffle_swap (loadu block i)) [0..<4];
         (_, abef, cdgh) = fold ni_step [0..<16] (m, abef0, cdgh0)
     in (add_epi32 abef abef0, add_epi32 cdgh cdgh0))"

fun chunks :: "bytes \<Rightarrow> bytes list" where
  "chunks bs = (if length bs < 64 then [] else take 64 bs # chunks (drop 64 bs))"

declare chunks.simps [simp del]

definition compress_ni :: "bytes \<Rightarrow> hash \<Rightarrow> hash" where
  "compress_ni blocks = (\<lambda>(a, b, c, d, e, f, g, h).
     let dcba = shuffle_epi32 0xb1 (a, b, c, d); hgfe = shuffle_epi32 0x1b (e, f, g, h);
         (abef, cdgh) = fold ni_block (chunks blocks) (alignr8 dcba hgfe, blend_f0 hgfe dcba);
         feba = shuffle_epi32 0x1b abef; dchg = shuffle_epi32 0xb1 cdgh;
         (a, b, c, d) = blend_f0 feba dchg; (e, f, g, h) = alignr8 dchg feba
     in (a, b, c, d, e, f, g, h))"

definition compress :: "bool \<Rightarrow> bytes \<Rightarrow> hash \<Rightarrow> hash" where
  "compress ni blocks st = (if ni then compress_ni blocks st else fold compress_scalar (chunks blocks) st)"

section \<open>The running hash\<close>

record sha256 =
  sh_state :: hash
  sh_block :: bytes
  sh_filled :: nat
  sh_total :: u64

definition sha_default :: sha256 where
  "sha_default = \<lparr>sh_state = H0, sh_block = replicate 64 0, sh_filled = 0, sh_total = 0\<rparr>"

definition fill_block :: "bytes \<Rightarrow> sha256 \<Rightarrow> sha256" where
  "fill_block bs h = h\<lparr>sh_block := overwrite (sh_block h) (sh_filled h) bs, sh_filled := sh_filled h + length bs\<rparr>"

definition absorb :: "bool \<Rightarrow> bytes \<Rightarrow> sha256 \<Rightarrow> sha256" where
  "absorb ni bs h =
     (let whole = length bs div 64 * 64 in
      h\<lparr>sh_state := compress ni (take whole bs) (sh_state h), sh_block := overwrite (sh_block h) 0 (drop whole bs),
        sh_filled := length bs - whole\<rparr>)"

definition sha_update :: "bool \<Rightarrow> bytes \<Rightarrow> sha256 \<Rightarrow> sha256" where
  "sha_update ni bs h =
     (let h = h\<lparr>sh_total := sh_total h + word_of_nat (length bs)\<rparr> in
      if 0 < sh_filled h then
        let n = min (64 - sh_filled h) (length bs); h = fill_block (take n bs) h in
        if sh_filled h < 64 then h
        else absorb ni (drop n bs) (h\<lparr>sh_state := compress ni (sh_block h) (sh_state h), sh_filled := 0\<rparr>)
      else absorb ni bs h)"

definition hash_bytes :: "hash \<Rightarrow> bytes" where
  "hash_bytes = (\<lambda>(a, b, c, d, e, f, g, h). concat (map (\<lambda>w. be_bytes 4 (unat w)) [a, b, c, d, e, f, g, h]))"

definition sha_finish :: "bool \<Rightarrow> sha256 \<Rightarrow> bytes" where
  "sha_finish ni h =
     (let bits = sh_total h * 8; pad = 0x80 # replicate 63 0;
          h = sha_update ni (take ((119 - sh_filled h) mod 64 + 1) pad) h;
          h = sha_update ni (be_bytes 8 (unat bits)) h
      in hash_bytes (sh_state h))"

definition sha_digest :: "bool \<Rightarrow> bytes \<Rightarrow> bytes" where
  "sha_digest ni bs = sha_finish ni (sha_update ni bs sha_default)"

section \<open>HMAC and HKDF\<close>

record hmac =
  hm_inner :: sha256
  hm_outer :: sha256

definition hmac_new :: "bool \<Rightarrow> bytes \<Rightarrow> hmac" where
  "hmac_new ni key =
     (let k = overwrite (replicate 64 0) 0 (if 64 < length key then sha_digest ni key else key) in
      \<lparr>hm_inner = sha_update ni (map (\<lambda>x. x XOR 0x36) k) sha_default, hm_outer = sha_update ni (map (\<lambda>x. x XOR 0x5c) k) sha_default\<rparr>)"

definition hmac_update :: "bool \<Rightarrow> bytes \<Rightarrow> hmac \<Rightarrow> hmac" where
  "hmac_update ni bs h = h\<lparr>hm_inner := sha_update ni bs (hm_inner h)\<rparr>"

definition hmac_finish :: "bool \<Rightarrow> hmac \<Rightarrow> bytes" where
  "hmac_finish ni h = sha_finish ni (sha_update ni (sha_finish ni (hm_inner h)) (hm_outer h))"

definition hmac_mac :: "bool \<Rightarrow> bytes \<Rightarrow> bytes \<Rightarrow> bytes" where
  "hmac_mac ni key bs = hmac_finish ni (hmac_update ni bs (hmac_new ni key))"

definition hkdf_extract :: "bool \<Rightarrow> bytes \<Rightarrow> bytes \<Rightarrow> bytes" where
  "hkdf_extract ni salt ikm = hmac_mac ni salt ikm"

definition expand_part :: "bool \<Rightarrow> bytes \<Rightarrow> bytes list \<Rightarrow> nat \<Rightarrow> bytes \<Rightarrow> bytes" where
  "expand_part ni prk info i t =
     hmac_finish ni (hmac_update ni [byte (i + 1)] (fold (hmac_update ni) info ((if 0 < i then hmac_update ni t else id) (hmac_new ni prk))))"

text \<open>The chunks of 32 bytes of an output of \<open>n\<close> bytes, from the \<open>i\<close>th on; \<open>t\<close> is the last MAC.\<close>

fun expand_loop :: "bool \<Rightarrow> bytes \<Rightarrow> bytes list \<Rightarrow> nat \<Rightarrow> bytes \<Rightarrow> nat \<Rightarrow> bytes" where
  "expand_loop ni prk info i t n =
     (if n = 0 then [] else
      let t = expand_part ni prk info i t in take (min 32 n) t @ expand_loop ni prk info (i + 1) t (n - min 32 n))"

declare expand_loop.simps [simp del]

text \<open>\<open>None\<close>: the assertion on the length fails.\<close>

definition hkdf_expand :: "bool \<Rightarrow> bytes \<Rightarrow> bytes list \<Rightarrow> nat \<Rightarrow> bytes option" where
  "hkdf_expand ni prk info n =
     (if n \<le> 255 * 32 then Some (expand_loop ni prk info 0 (replicate 32 0) n) else None)"

section \<open>Both compression functions agree\<close>

text \<open>The words of the schedule, as a function of their index.\<close>

lemma first_words_nth: "length bs = 4 * n \<Longrightarrow> i < n \<Longrightarrow> first_words bs ! i = be_word (take 4 (drop (4 * i) bs)) \<and> length (first_words bs) = n"
proof (induction bs arbitrary: n i rule: first_words.induct)
  case (1 a b c d bs)
  then obtain m where m: "n = Suc m" by (cases n) auto
  show ?case
  proof (cases i)
    case 0
    have "length (first_words bs) = m"
      using "1.IH" [of m 0] "1.prems" m by (cases m) (auto elim: first_words.elims)
    then show ?thesis using 0 m by simp
  next
    case (Suc j)
    have "4 * Suc j = Suc (Suc (Suc (Suc (4 * j))))" by simp
    then have "drop (4 * i) (a # b # c # d # bs) = drop (4 * j) bs" unfolding Suc by (simp only: drop_Suc_Cons)
    then show ?thesis using "1.IH" [of m j] "1.prems" m Suc by simp
  qed
qed auto

lemma schedule_prefix:
  assumes "length (first_words block) = 16" "n \<le> 64" "16 \<le> n"
  defines "sched \<equiv> \<lambda>n. fold (\<lambda>i w. w @ [w ! (i - 16) + small0 (w ! (i - 15)) + w ! (i - 7) + small1 (w ! (i - 2))]) [16..<n] (first_words block)"
  shows "length (sched n) = n \<and> (\<forall>i < n. sched n ! i = (if i < 16 then first_words block ! i
      else sched n ! (i - 16) + small0 (sched n ! (i - 15)) + sched n ! (i - 7) + small1 (sched n ! (i - 2))))"
  using assms(3,2)
proof (induction n rule: dec_induct)
  case base
  then show ?case using assms(1) by (simp add: sched_def)
next
  case (step n)
  then have ih: "length (sched n) = n" "\<forall>i < n. sched n ! i = (if i < 16 then first_words block ! i
      else sched n ! (i - 16) + small0 (sched n ! (i - 15)) + sched n ! (i - 7) + small1 (sched n ! (i - 2)))" by simp_all
  have s: "sched (Suc n) = sched n @ [sched n ! (n - 16) + small0 (sched n ! (n - 15)) + sched n ! (n - 7) + small1 (sched n ! (n - 2))]"
    using step(1) by (simp add: sched_def)
  have old: "sched (Suc n) ! j = sched n ! j" if "j < n" for j using that ih(1) by (simp add: s nth_append)
  have new: "sched (Suc n) ! n = sched n ! (n - 16) + small0 (sched n ! (n - 15)) + sched n ! (n - 7) + small1 (sched n ! (n - 2))"
    using ih(1) by (simp add: s nth_append)
  show ?case
  proof (intro conjI allI impI)
    show "length (sched (Suc n)) = Suc n" using ih(1) by (simp add: s)
    fix i assume "i < Suc n"
    then consider "i < n" | "i = n" by linarith
    then show "sched (Suc n) ! i = (if i < 16 then first_words block ! i
      else sched (Suc n) ! (i - 16) + small0 (sched (Suc n) ! (i - 15)) + sched (Suc n) ! (i - 7) + small1 (sched (Suc n) ! (i - 2)))"
    proof cases
      case 1
      then show ?thesis using ih(2) [rule_format, of i] by (simp add: old)
    next
      case 2
      then show ?thesis using new step(1) by (simp add: old)
    qed
  qed
qed

lemma le_64: "16 \<le> (64 :: nat)"
  by simp

lemma schedule_nth:
  assumes "length block = 64"
  shows "length (schedule block) = 64"
    "i < 16 \<Longrightarrow> schedule block ! i = be_word (take 4 (drop (4 * i) block))"
    "16 \<le> i \<Longrightarrow> i < 64 \<Longrightarrow> schedule block ! i =
       schedule block ! (i - 16) + small0 (schedule block ! (i - 15)) + schedule block ! (i - 7) + small1 (schedule block ! (i - 2))"
proof -
  have fw: "length (first_words block) = 16" using first_words_nth [of block 16 0] assms by simp
  have p1: "length (schedule block) = 64"
    unfolding schedule_def by (rule conjunct1 [OF schedule_prefix [OF fw order_refl le_64]])
  have p2: "\<forall>i < 64. schedule block ! i = (if i < 16 then first_words block ! i
      else schedule block ! (i - 16) + small0 (schedule block ! (i - 15)) + schedule block ! (i - 7) + small1 (schedule block ! (i - 2)))"
    unfolding schedule_def by (rule conjunct2 [OF schedule_prefix [OF fw order_refl le_64]])
  show "length (schedule block) = 64" by (rule p1)
  show "i < 16 \<Longrightarrow> schedule block ! i = be_word (take 4 (drop (4 * i) block))" using p2 [rule_format, of i] first_words_nth [of block 16 i] assms by simp
  show "16 \<le> i \<Longrightarrow> i < 64 \<Longrightarrow> schedule block ! i =
       schedule block ! (i - 16) + small0 (schedule block ! (i - 15)) + schedule block ! (i - 7) + small1 (schedule block ! (i - 2))"
    using p2 [rule_format, of i] by simp
qed

text \<open>Four words of the schedule in a register, and what \<open>sha256msg1\<close> leaves of four that are still to come.\<close>

definition quad_of :: "(nat \<Rightarrow> u32) \<Rightarrow> nat \<Rightarrow> m128" where
  "quad_of w q = (w (4 * q), w (4 * q + 1), w (4 * q + 2), w (4 * q + 3))"

definition begun :: "(nat \<Rightarrow> u32) \<Rightarrow> nat \<Rightarrow> m128" where
  "begun w q = (let p = 4 * (q - 4) in
     (w p + small0 (w (p + 1)), w (p + 1) + small0 (w (p + 2)), w (p + 2) + small0 (w (p + 3)), w (p + 3) + small0 (w (p + 4))))"

definition msg_inv :: "(nat \<Rightarrow> u32) \<Rightarrow> nat \<Rightarrow> m128 list \<Rightarrow> bool" where
  "msg_inv w r m \<longleftrightarrow> length m = 4 \<and> (r < 16 \<longrightarrow> m ! (r mod 4) = quad_of w r) \<and>
     (r < 15 \<longrightarrow> m ! ((r + 1) mod 4) = (if r < 3 then quad_of w (r + 1) else begun w (r + 1))) \<and>
     (r < 14 \<longrightarrow> m ! ((r + 2) mod 4) = (if r < 2 then quad_of w (r + 2) else begun w (r + 2))) \<and>
     m ! ((r + 3) mod 4) = (if r = 0 then quad_of w 3 else quad_of w (r - 1))"

definition recurs :: "(nat \<Rightarrow> u32) \<Rightarrow> bool" where
  "recurs w \<longleftrightarrow> (\<forall>i. 16 \<le> i \<and> i < 64 \<longrightarrow> w i = w (i - 16) + small0 (w (i - 15)) + w (i - 7) + small1 (w (i - 2)))"

lemma msg2_next:
  assumes "recurs w" "3 \<le> r" "r < 15"
  shows "sha256msg2 (add_epi32 (begun w (r + 1)) (alignr4 (quad_of w r) (quad_of w (r - 1)))) (quad_of w r) = quad_of w (r + 1)"
proof -
  obtain k where k: "r = k + 3" using assms(2) by (metis add.commute le_Suc_ex)
  define v where "v = (\<lambda>i. w (4 * k + i))"
  have v: "v (16 + i) = v i + small0 (v (i + 1)) + v (i + 9) + small1 (v (i + 14))" if "i < 4" for i
    using assms(1) [unfolded recurs_def, rule_format, of "4 * k + 16 + i"] assms(3) that k by (simp add: v_def ac_simps)
  have "begun w (k + 4) = (v 0 + small0 (v 1), v 1 + small0 (v 2), v 2 + small0 (v 3), v 3 + small0 (v 4))"
    by (simp add: begun_def v_def Let_def algebra_simps)
  moreover have "quad_of w (k + 3) = (v 12, v 13, v 14, v 15)" "quad_of w (k + 2) = (v 8, v 9, v 10, v 11)" "quad_of w (k + 4) = (v 16, v 17, v 18, v 19)"
    by (simp_all add: quad_of_def v_def algebra_simps)
  moreover have "v 16 = v 0 + small0 (v 1) + v 9 + small1 (v 14)" "v 17 = v 1 + small0 (v 2) + v 10 + small1 (v 15)"
    "v 18 = v 2 + small0 (v 3) + v 11 + small1 (v 16)" "v 19 = v 3 + small0 (v 4) + v 12 + small1 (v 17)"
    using v [of 0] v [of 1] v [of 2] v [of 3] by (simp_all add: numeral_eq_Suc)
  ultimately show ?thesis unfolding k
    by (simp add: sha256msg2_def add_epi32_def alignr4_def Let_def ac_simps)
qed

lemma msg1_begun: "1 \<le> r \<Longrightarrow> sha256msg1 (quad_of w (r - 1)) (quad_of w r) = begun w (r + 3)"
  by (cases r) (simp_all add: sha256msg1_def quad_of_def begun_def Let_def algebra_simps)

lemma mod4_cases: "(r :: nat) mod 4 = 0 \<or> r mod 4 = 1 \<or> r mod 4 = 2 \<or> r mod 4 = 3"
  by linarith

lemma mod4_apart:
  "(r + 1) mod 4 \<noteq> r mod 4" "(r + 2) mod 4 \<noteq> r mod 4" "(r + 3) mod 4 \<noteq> (r :: nat) mod 4"
  "(r + 2) mod 4 \<noteq> (r + 1) mod 4" "(r + 3) mod 4 \<noteq> (r + 1) mod 4" "(r + 3) mod 4 \<noteq> (r + 2) mod 4"
  by presburger+

lemma mod4_shift:
  "(Suc r + 1) mod 4 = (r + 2) mod 4" "(Suc r + 2) mod 4 = (r + 3) mod 4" "(Suc r + 3) mod 4 = r mod 4" "Suc r mod 4 = (r + 1) mod 4"
  by presburger+

lemma upd_other: "j \<noteq> i \<Longrightarrow> (if b then xs[i := x] else xs) ! j = xs ! j"
  by simp

lemma msg_step:
  assumes "recurs w" "r < 16" "msg_inv w r m"
  shows "msg_inv w (Suc r) (fst (ni_step r (m, abef, cdgh)))"
proof -
  let ?i = "r mod 4" and ?i1 = "(r + 1) mod 4" and ?i2 = "(r + 2) mod 4" and ?i3 = "(r + 3) mod 4"
  define m1 where "m1 = (if 3 \<le> r \<and> r < 15 then m[?i1 := sha256msg2 (add_epi32 (m ! ?i1) (alignr4 (m ! ?i) (m ! ?i3))) (m ! ?i)] else m)"
  define m2 where "m2 = (if 1 \<le> r \<and> r < 13 then m1[?i3 := sha256msg1 (m1 ! ?i3) (m1 ! ?i)] else m1)"
  have step: "fst (ni_step r (m, abef, cdgh)) = m2" by (simp add: ni_step_def m1_def m2_def Let_def)
  have inv: "length m = 4" "m ! ?i = quad_of w r" "r < 15 \<Longrightarrow> m ! ?i1 = (if r < 3 then quad_of w (r + 1) else begun w (r + 1))"
    "r < 14 \<Longrightarrow> m ! ?i2 = (if r < 2 then quad_of w (r + 2) else begun w (r + 2))" "m ! ?i3 = (if r = 0 then quad_of w 3 else quad_of w (r - 1))"
    using assms(2,3) by (auto simp: msg_inv_def)
  have len: "length m1 = 4" "length m2 = 4" by (simp_all add: m1_def m2_def inv(1))
  have keep1: "m1 ! j = m ! j" if "j \<noteq> ?i1" for j unfolding m1_def by (rule upd_other [OF that])
  have keep2: "m2 ! j = m1 ! j" if "j \<noteq> ?i3" for j unfolding m2_def by (rule upd_other [OF that])
  note apart = mod4_apart [of r] mod4_apart [of r, symmetric]
  have at1: "m1 ! ?i = quad_of w r" "m1 ! ?i2 = m ! ?i2" "m1 ! ?i3 = m ! ?i3"
    using keep1 [OF apart(7)] keep1 [OF apart(4)] keep1 [OF apart(5)] inv(2) by simp_all
  have next1: "m1 ! ?i1 = quad_of w (r + 1)" if "r < 15"
    using that inv msg2_next [OF assms(1), of r] by (cases "r < 3") (simp_all add: m1_def)
  have at2: "m2 ! ?i = quad_of w r" "m2 ! ?i1 = m1 ! ?i1" "m2 ! ?i2 = m ! ?i2"
    using keep2 [OF apart(9)] keep2 [OF apart(11)] keep2 [OF apart(12)] at1(1,2) by simp_all
  have three: "m2 ! ?i3 = (if r < 1 then quad_of w (r + 3) else begun w (r + 3))" if "r < 13"
    using that msg1_begun [of r w] at1 inv(5) len by (cases "r = 0") (simp_all add: m2_def)
  have shift: "(Suc r + 1) mod 4 = ?i2" "(Suc r + 2) mod 4 = ?i3" "(Suc r + 3) mod 4 = ?i" "Suc r mod 4 = ?i1"
    by (rule mod4_shift)+
  have n: "Suc r + 1 = r + 2" "Suc r + 2 = r + 3" "Suc r - 1 = r" by simp_all
  show ?thesis
    unfolding step msg_inv_def shift n using len(2) at2 next1 inv(4) three by (intro conjI impI) simp_all
qed

lemma sha_round_shift: "\<exists>x y. sha_round k (a, b, c, d, e, f, g, h) = (x, a, b, c, y, e, f, g)"
  by (simp add: sha_round_def Let_def)

definition pack :: "hash \<Rightarrow> m128 \<times> m128" where
  "pack = (\<lambda>(a, b, c, d, e, f, g, h). ((f, e, b, a), (h, g, d, c)))"

lemma rnds2_pack:
  assumes "pack st = (abef, cdgh)"
  shows "pack (sha_round k1 (sha_round k0 st)) = (sha256rnds2 cdgh abef (k0, k1, k2, k3), abef)"
proof -
  obtain a b c d e f g h where st: "st = (a, b, c, d, e, f, g, h)" by (cases st) auto
  obtain x y where 1: "sha_round k0 st = (x, a, b, c, y, e, f, g)" unfolding st using sha_round_shift by blast
  obtain x' y' where 2: "sha_round k1 (x, a, b, c, y, e, f, g) = (x', x, a, b, y', y, e, f)" using sha_round_shift by blast
  have "abef = (f, e, b, a)" "cdgh = (h, g, d, c)" using assms by (simp_all add: pack_def st)
  then show ?thesis using 1 2 by (simp add: sha256rnds2_def pack_def st)
qed

lemma rounds_step:
  assumes "pack st = (abef, cdgh)" "m ! (r mod 4) = quad_of w r"
  shows "snd (ni_step r (m, abef, cdgh)) =
           pack (fold (\<lambda>i. sha_round (K ! i + w i)) [4 * r..<4 * Suc r] st)"
proof -
  let ?k = "\<lambda>i. K ! i + w i"
  have mk: "add_epi32 (m ! (r mod 4)) (load_k (4 * r)) = (?k (4 * r), ?k (4 * r + 1), ?k (4 * r + 2), ?k (4 * r + 3))"
    by (simp add: assms(2) add_epi32_def quad_of_def load_k_def add.commute)
  have sh: "shuffle_epi32 0x0e (a, b, c, d) = (c, d, a, a)" for a b c d by (simp add: shuffle_epi32_def lane_def)
  have up: "[4 * r..<4 * Suc r] = [4 * r, 4 * r + 1, 4 * r + 2, 4 * r + 3]" by (simp add: upt_conv_Cons)
  define st2 where "st2 = sha_round (?k (4 * r + 1)) (sha_round (?k (4 * r)) st)"
  note p2 = rnds2_pack [OF assms(1), of "?k (4 * r + 1)" "?k (4 * r)" "?k (4 * r + 2)" "?k (4 * r + 3)", folded st2_def]
  note p4 = rnds2_pack [OF p2, of "?k (4 * r + 3)" "?k (4 * r + 2)" "?k (4 * r)" "?k (4 * r)"]
  show ?thesis unfolding up using p4 by (simp add: ni_step_def Let_def mk sh st2_def)
qed

lemma ni_fold:
  assumes "recurs w" "msg_inv w 0 m" "n \<le> 16"
  shows "msg_inv w n (fst (fold ni_step [0..<n] (m, pack st))) \<and>
         snd (fold ni_step [0..<n] (m, pack st)) = pack (fold (\<lambda>i. sha_round (K ! i + w i)) [0..<4 * n] st)"
  using assms(3)
proof (induction n)
  case 0
  then show ?case using assms(2) by simp
next
  case (Suc n)
  obtain m' p where f: "fold ni_step [0..<n] (m, pack st) = (m', p)" by (meson surj_pair)
  let ?st = "fold (\<lambda>i. sha_round (K ! i + w i)) [0..<4 * n] st"
  have ih: "msg_inv w n m'" "p = pack ?st" using Suc f by simp_all
  obtain abef cdgh where p: "pack ?st = (abef, cdgh)" by (meson surj_pair)
  have "m' ! (n mod 4) = quad_of w n" using ih(1) Suc.prems by (simp add: msg_inv_def)
  note r = rounds_step [OF p this]
  have up: "[0..<4 * Suc n] = [0..<4 * n] @ [4 * n..<4 * Suc n]" by (metis le_add1 mult_Suc_right upt_add_eq_append zero_le add.commute)
  show ?case using msg_step [OF assms(1) _ ih(1), of abef cdgh] Suc.prems r f ih(2) p unfolding up by simp
qed

lemma bswap_word:
  assumes "length bs = 64" "i < 16"
  shows "bswap (le_word bs i) = be_word (take 4 (drop (4 * i) bs))"
proof -
  let ?b = "take 4 (drop (4 * i) bs)"
  have len: "length ?b = 4" using assms by simp
  have "le_val ?b < 2 ^ 32" using le_val_bound [of ?b] len by simp
  then have "unat (le_word bs i) = le_val ?b" by (simp add: le_word_def unat_of_nat)
  then show ?thesis using le_bytes_le_val [of ?b] len by (simp add: bswap_def)
qed

lemma ni_block_pack:
  assumes "length block = 64"
  shows "ni_block block (pack st) = pack (compress_scalar block st)"
proof -
  define w where "w = (\<lambda>i. schedule block ! i)"
  let ?m = "map (\<lambda>i. shuffle_swap (loadu block i)) [0..<4]"
  have rec: "recurs w" unfolding recurs_def w_def using schedule_nth(3) [OF assms] by blast
  have q: "shuffle_swap (loadu block q) = quad_of w q" if "q < 4" for q
    using that bswap_word [OF assms] schedule_nth(2) [OF assms] by (simp add: shuffle_swap_def loadu_def quad_of_def w_def)
  have inv: "msg_inv w 0 ?m" using q by (simp add: msg_inv_def)
  let ?st = "fold (\<lambda>i. sha_round (K ! i + w i)) [0..<64] st"
  have e: "4 * 16 = (64 :: nat)" by simp
  have run: "snd (fold ni_step [0..<16] (?m, pack st)) = pack ?st"
    using conjunct2 [OF ni_fold [OF rec inv order_refl, of st]] unfolding e .
  have add: "add_epi32 (fst (pack x)) (fst (pack y)) = fst (pack (add_hash y x))" "add_epi32 (snd (pack x)) (snd (pack y)) = snd (pack (add_hash y x))" for x y
    by (auto simp: add_epi32_def pack_def add_hash_def add.commute split: prod.splits)
  have "ni_block block (pack st) = (add_epi32 (fst (pack ?st)) (fst (pack st)), add_epi32 (snd (pack ?st)) (snd (pack st)))"
    unfolding ni_block_def Let_def case_prod_beta' prod.collapse by (simp only: run)
  then show ?thesis unfolding add by (simp add: compress_scalar_def Let_def w_def del: upt_rec_numeral upt_Suc)
qed

lemma chunks_length: "b \<in> set (chunks bs) \<Longrightarrow> length b = 64"
  by (induction bs rule: chunks.induct) (subst (asm) chunks.simps, auto split: if_splits)

lemma ni_blocks:
  "list_all (\<lambda>b. length b = 64) bs \<Longrightarrow> fold ni_block bs (pack st) = pack (fold compress_scalar bs st)"
  by (induction bs arbitrary: st) (simp_all add: ni_block_pack)

lemma shuffles:
  "shuffle_epi32 0xb1 (a, b, c, d) = (b, a, d, c)" "shuffle_epi32 0x1b (a, b, c, d) = (d, c, b, a)"
  by (simp_all add: shuffle_epi32_def lane_def)

lemma compress_ni_scalar: "compress_ni blocks st = fold compress_scalar (chunks blocks) st"
proof -
  obtain a b c d e f g h where st: "st = (a, b, c, d, e, f, g, h)" by (cases st) auto
  have start: "(alignr8 (shuffle_epi32 0xb1 (a, b, c, d)) (shuffle_epi32 0x1b (e, f, g, h)),
      blend_f0 (shuffle_epi32 0x1b (e, f, g, h)) (shuffle_epi32 0xb1 (a, b, c, d))) = pack st"
    by (simp add: st pack_def alignr8_def blend_f0_def shuffles)
  have "list_all (\<lambda>b. length b = 64) (chunks blocks)" using chunks_length by (auto simp: list_all_iff)
  note run = ni_blocks [OF this, of st]
  obtain a' b' c' d' e' f' g' h' where st': "fold compress_scalar (chunks blocks) st = (a', b', c', d', e', f', g', h')"
    by (cases "fold compress_scalar (chunks blocks) st") auto
  have "compress_ni blocks st = (a', b', c', d', e', f', g', h')"
    using run start unfolding st' unfolding st compress_ni_def
    by (simp add: Let_def pack_def alignr8_def blend_f0_def shuffles)
  then show ?thesis by (simp add: st')
qed

lemma compress_chunks: "compress ni blocks st = fold compress_scalar (chunks blocks) st"
  by (simp add: compress_def compress_ni_scalar)

text \<open>C33. The SHA-NI path computes what the scalar one does, on any number of blocks and from any state: the registers'
  rotation of the message words and the split of the state over two registers are the schedule and the rounds of
  FIPS 180-4.\<close>

theorem compress_paths_agree: "compress ni blocks st = fold compress_scalar (chunks blocks) st"
  by (rule compress_chunks)

section \<open>Feeding a hash in pieces\<close>

text \<open>FIPS 180-4's padding: a one bit, the fewest zeros that leave room for the length in the last block, the length in
  bits; and its digest.\<close>

definition pad_zeros :: "nat \<Rightarrow> nat" where
  "pad_zeros n = hd (filter (\<lambda>k. (n + 1 + k) mod 64 = 56) [0..<64])"

definition sha_padded :: "bytes \<Rightarrow> bytes" where
  "sha_padded msg = msg @ 0x80 # replicate (pad_zeros (length msg)) 0 @ be_bytes 8 (8 * length msg)"

definition sha_spec :: "bytes \<Rightarrow> bytes" where
  "sha_spec msg = hash_bytes (fold compress_scalar (chunks (sha_padded msg)) H0)"

lemma chunks_append: "length a mod 64 = 0 \<Longrightarrow> chunks (a @ b) = chunks a @ chunks b"
proof (induction a rule: chunks.induct)
  case (1 a)
  show ?case
  proof (cases "length a < 64")
    case True
    then have "a = []" using 1(2) by simp
    then show ?thesis by (simp add: chunks.simps [of "[]"])
  next
    case False
    then have "chunks (drop 64 a @ b) = chunks (drop 64 a) @ chunks b" using 1 by (simp add: mod_if)
    then show ?thesis using False by (subst chunks.simps, subst (2) chunks.simps) simp
  qed
qed

lemma chunks_one: "length b = 64 \<Longrightarrow> chunks b = [b]"
  by (subst chunks.simps) (simp add: chunks.simps [of "[]"])

text \<open>A running hash that was fed \<open>msg\<close>.\<close>

definition whole :: "bytes \<Rightarrow> nat" where
  "whole msg = length msg div 64 * 64"

definition holds_msg :: "bytes \<Rightarrow> sha256 \<Rightarrow> bool" where
  "holds_msg msg h \<longleftrightarrow> sh_state h = fold compress_scalar (chunks (take (whole msg) msg)) H0 \<and> sh_filled h = length msg mod 64 \<and>
     length (sh_block h) = 64 \<and> take (sh_filled h) (sh_block h) = drop (whole msg) msg"

definition fed :: "bytes \<Rightarrow> sha256 \<Rightarrow> bool" where
  "fed msg h \<longleftrightarrow> holds_msg msg h \<and> sh_total h = word_of_nat (length msg)"

lemma whole_le: "whole msg \<le> length msg" "whole msg mod 64 = 0" "length msg - whole msg = length msg mod 64"
  by (simp_all add: whole_def minus_div_mult_eq_mod)

lemma fed_default: "fed [] sha_default"
  by (simp add: fed_def holds_msg_def sha_default_def whole_def chunks.simps [of "[]"])

lemma overwrite_start: "length bs \<le> length dst \<Longrightarrow> take (length bs) (overwrite dst 0 bs) = bs \<and> length (overwrite dst 0 bs) = length dst"
  by (simp add: overwrite_def)

lemma absorb_holds:
  assumes "holds_msg msg h" "length msg mod 64 = 0"
  shows "holds_msg (msg @ bs) (absorb ni bs h)"
proof -
  have w: "whole msg = length msg" "whole (msg @ bs) = length msg + whole bs"
    using assms(2) by (auto simp: whole_def div_add mod_0_imp_dvd)
  have t: "take (whole (msg @ bs)) (msg @ bs) = msg @ take (whole bs) bs" "drop (whole (msg @ bs)) (msg @ bs) = drop (whole bs) bs"
    by (simp_all add: w)
  have short: "length (drop (whole bs) bs) < 64" "length (drop (whole bs) bs) = length (msg @ bs) mod 64"
    using assms(2) by (simp_all add: whole_le mod_add_left_eq [symmetric, of "length msg"])
  have "length (take (whole bs) bs) mod 64 = 0" using whole_le by simp
  then have "chunks (msg @ take (whole bs) bs) = chunks msg @ chunks (take (whole bs) bs)" using chunks_append [OF assms(2)] by simp
  then show ?thesis
    using assms(1) overwrite_start [of "drop (whole bs) bs" "sh_block h"] short
    unfolding holds_msg_def t by (simp add: absorb_def Let_def w(1) compress_chunks whole_def [of bs, symmetric])
qed

lemma fill_holds:
  assumes "holds_msg msg h" "0 < length msg mod 64" "length msg mod 64 + length bs < 64"
  shows "holds_msg (msg @ bs) (fill_block bs h)"
proof -
  have e: "length (msg @ bs) = length msg div 64 * 64 + (length msg mod 64 + length bs)" by simp
  have "length (msg @ bs) div 64 = length msg div 64 + (length msg mod 64 + length bs) div 64" unfolding e by (rule div_mult_self3) simp
  then have "length (msg @ bs) div 64 = length msg div 64" unfolding div_less [OF assms(3)] by (simp only: add_0_right)
  then have w: "whole (msg @ bs) = whole msg" by (simp add: whole_def)
  have m: "length (msg @ bs) mod 64 = length msg mod 64 + length bs" using assms(3) by (metis length_append mod_add_left_eq mod_less)
  show ?thesis using assms whole_le(1) [of msg] m
    by (auto simp: holds_msg_def fill_block_def w overwrite_def)
qed

lemma full_holds:
  assumes "holds_msg msg h" "0 < length msg mod 64" "length msg mod 64 + length bs = 64"
  shows "holds_msg (msg @ bs) ((fill_block bs h)\<lparr>sh_state := compress ni (sh_block (fill_block bs h)) (sh_state h), sh_filled := 0\<rparr>)"
    "length (msg @ bs) mod 64 = 0"
proof -
  show m: "length (msg @ bs) mod 64 = 0" using assms(3) by (metis length_append mod_add_left_eq mod_self)
  have w: "whole (msg @ bs) = length (msg @ bs)" using m by (auto simp: whole_def)
  have b: "sh_block (fill_block bs h) = drop (whole msg) msg @ bs" "length (drop (whole msg) msg @ bs) = 64"
    using assms whole_le(3) [of msg] by (auto simp: holds_msg_def fill_block_def overwrite_def)
  have "chunks (msg @ bs) = chunks (take (whole msg) msg) @ [drop (whole msg) msg @ bs]"
    using chunks_append [of "take (whole msg) msg" "drop (whole msg) msg @ bs"] whole_le [of msg] chunks_one [OF b(2)]
    by (simp add: append_assoc [symmetric] del: append_assoc)
  then show "holds_msg (msg @ bs) ((fill_block bs h)\<lparr>sh_state := compress ni (sh_block (fill_block bs h)) (sh_state h), sh_filled := 0\<rparr>)"
    using assms(1) m b chunks_one [OF b(2)] by (simp add: holds_msg_def w compress_chunks)
qed

lemma fed_update:
  assumes "fed msg h"
  shows "fed (msg @ bs) (sha_update ni bs h)"
proof -
  let ?h = "h\<lparr>sh_total := sh_total h + word_of_nat (length bs)\<rparr>"
  have h: "holds_msg msg ?h" "sh_filled h = length msg mod 64" "sh_total ?h = word_of_nat (length (msg @ bs))"
    using assms by (auto simp: fed_def holds_msg_def)
  have total: "sh_total (sha_update ni bs h) = word_of_nat (length (msg @ bs))"
    using h(3) by (simp add: sha_update_def Let_def fill_block_def absorb_def)
  have "holds_msg (msg @ bs) (sha_update ni bs h)"
  proof (cases "0 < length msg mod 64")
    case False
    then show ?thesis using absorb_holds [OF h(1)] h(2) by (simp add: sha_update_def Let_def)
  next
    case True
    show ?thesis
    proof (cases "length msg mod 64 + length bs < 64")
      case small: True
      then have "min (64 - sh_filled h) (length bs) = length bs" using h(2) by simp
      then show ?thesis using fill_holds [OF h(1) True small] True small h(2) by (simp add: sha_update_def Let_def fill_block_def)
    next
      case large: False
      let ?n = "64 - length msg mod 64"
      have n: "min (64 - sh_filled h) (length bs) = ?n" "length (take ?n bs) = ?n" "length msg mod 64 + length (take ?n bs) = 64"
        using large h(2) True by auto
      note full = full_holds(1) [OF h(1) True n(3), of ni] full_holds(2) [OF h(1) True n(3)]
      have "sha_update ni bs h = absorb ni (drop ?n bs)
          ((fill_block (take ?n bs) ?h)\<lparr>sh_state := compress ni (sh_block (fill_block (take ?n bs) ?h)) (sh_state ?h), sh_filled := 0\<rparr>)"
        using True h(2) n large by (simp add: sha_update_def Let_def fill_block_def)
      then show ?thesis using absorb_holds [OF full, of "drop ?n bs" ni] by simp
    qed
  qed
  then show ?thesis using total by (simp add: fed_def)
qed

lemma fed_all: "fed msg h \<Longrightarrow> fed (msg @ concat ps) (fold (sha_update ni) ps h)"
  by (induction ps arbitrary: msg h) (auto dest: fed_update [where ni = ni] simp flip: append_assoc)

text \<open>The zeros of the padding as the source counts them.\<close>

lemma pad_zeros: "pad_zeros n = (119 - n mod 64) mod 64"
proof -
  let ?r = "n mod 64"
  have "(n + 1 + k) mod 64 = (?r + 1 + k) mod 64" for k by (metis add.assoc mod_add_left_eq)
  moreover have "?r \<in> set [0..<64]" by simp
  moreover have "\<forall>r \<in> set [0..<64]. hd (filter (\<lambda>k. (r + 1 + k) mod 64 = 56) [0..<64]) = (119 - r) mod 64" by code_simp
  ultimately show ?thesis by (simp only: pad_zeros_def)
qed

lemma length_hash_bytes [simp]: "length (hash_bytes st) = 32"
  by (cases st) (auto simp: hash_bytes_def split: prod.splits)

lemma sha_finish_fed:
  assumes "fed msg h" "length msg < 2 ^ 61"
  shows "sha_finish ni h = sha_spec msg"
proof -
  let ?z = "pad_zeros (length msg)" and ?len = "be_bytes 8 (8 * length msg)"
  have filled: "sh_filled h = length msg mod 64" using assms(1) by (simp add: fed_def holds_msg_def)
  have z: "?z = (119 - sh_filled h) mod 64" "?z < 64" by (simp_all add: pad_zeros filled)
  have pad: "take ((119 - sh_filled h) mod 64 + 1) (0x80 # replicate 63 0) = 0x80 # replicate ?z (0 :: u8)"
    using z by (simp add: min_def)
  have bits: "unat (sh_total h * 8) = 8 * length msg"
  proof -
    have "sh_total h * 8 = word_of_nat (8 * length msg)" using assms(1) by (simp add: fed_def mult.commute)
    moreover have "unat (word_of_nat (8 * length msg) :: u64) = 8 * length msg"
      unfolding unat_of_nat using assms(2) by (intro mod_less) simp
    ultimately show ?thesis by simp
  qed
  define h' where "h' = sha_update ni ?len (sha_update ni (0x80 # replicate ?z 0) h)"
  have f: "fed (sha_padded msg) h'"
    using fed_update [OF fed_update [OF assms(1), of "0x80 # replicate ?z 0" ni], of ?len ni] by (simp add: h'_def sha_padded_def)
  have "(length msg mod 64 + 1 + ?z + 8) mod 64 = 0"
  proof -
    have "\<forall>r \<in> set [0..<64]. (r + 1 + (119 - r) mod 64 + 8) mod 64 = (0 :: nat)" by code_simp
    moreover have "length msg mod 64 \<in> set [0..<64]" by simp
    ultimately show ?thesis unfolding pad_zeros by blast
  qed
  then have "length (sha_padded msg) mod 64 = 0" by (simp add: sha_padded_def) presburger
  then have "whole (sha_padded msg) = length (sha_padded msg)" by (auto simp: whole_def)
  then have "sh_state h' = fold compress_scalar (chunks (sha_padded msg)) H0" using f by (simp add: fed_def holds_msg_def)
  then show ?thesis unfolding sha_finish_def Let_def pad bits h'_def [symmetric] by (simp add: sha_spec_def)
qed

section \<open>What a MAC needs of a hash\<close>

text \<open>A running hash: fed in any pieces, it ends with the digest of their concatenation.\<close>

locale running_hash =
  fixes start :: 'h and feed :: "bytes \<Rightarrow> 'h \<Rightarrow> 'h" and close :: "'h \<Rightarrow> bytes" and digest :: "bytes \<Rightarrow> bytes" and cap size_of :: nat
  assumes digest_of: "length (concat ps) < cap \<Longrightarrow> close (fold feed ps start) = digest (concat ps)"
    and digest_size: "length (digest bs) = size_of"
begin

lemma one_piece: "length bs < cap \<Longrightarrow> close (feed bs start) = digest bs"
  using digest_of [of "[bs]"] by simp

lemma nested:
  assumes "length ip + length (concat ps) < cap" "length op + size_of < cap"
  shows "close (feed (close (fold feed ps (feed ip start))) (feed op start)) = digest (op @ digest (ip @ concat ps))"
  using digest_of [of "ip # ps"] digest_of [of "[op, digest (ip @ concat ps)]"] assms digest_size by simp

end

interpretation sha: running_hash sha_default "sha_update ni" "sha_finish ni" sha_spec "2 ^ 61" 32 for ni
proof
  show "sha_finish ni (fold (sha_update ni) ps sha_default) = sha_spec (concat ps)" if "length (concat ps) < 2 ^ 61" for ps
    using sha_finish_fed [OF _ that] fed_all [OF fed_default, of ps ni] by simp
  show "length (sha_spec bs) = 32" for bs by (simp add: sha_spec_def)
qed

text \<open>C13. A message hashed in pieces, however it is cut and on either path, has the digest FIPS 180-4 defines for the whole:
  the message padded and compressed block by block. (The standard's bound: less than \<open>2 ^ 64\<close> bits.)\<close>

theorem sha256_streams:
  assumes "length (concat ps) < 2 ^ 61"
  shows "sha_finish ni (fold (sha_update ni) ps sha_default) = sha_spec (concat ps)"
  using assms by (rule sha.digest_of)

theorem sha256_streams_witness:
  "sha_finish True (fold (sha_update True) [[97], [], [98, 99]] sha_default) = sha_spec [97, 98, 99]"
  using sha256_streams [of "[[97], [], [98, 99]]" True] by simp

section \<open>HMAC and HKDF are the standards' functions\<close>

definition block_key :: "bytes \<Rightarrow> bytes" where
  "block_key key = (let k = (if 64 < length key then sha_spec key else key) in k @ replicate (64 - length k) 0)"

definition hmac_spec :: "bytes \<Rightarrow> bytes \<Rightarrow> bytes" where
  "hmac_spec key bs =
     sha_spec (map (\<lambda>x. x XOR 0x5c) (block_key key) @ sha_spec (map (\<lambda>x. x XOR 0x36) (block_key key) @ bs))"

fun hkdf_t :: "bytes \<Rightarrow> bytes \<Rightarrow> nat \<Rightarrow> bytes" where
  "hkdf_t prk info 0 = []"
| "hkdf_t prk info (Suc i) = hmac_spec prk (hkdf_t prk info i @ info @ [byte (Suc i)])"

lemma block_key_length: "length (block_key key) = 64"
  using sha.digest_size by (auto simp: block_key_def Let_def)

lemma hmac_new_key:
  assumes "length key < 2 ^ 61"
  shows "hmac_new ni key = \<lparr>hm_inner = sha_update ni (map (\<lambda>x. x XOR 0x36) (block_key key)) sha_default,
           hm_outer = sha_update ni (map (\<lambda>x. x XOR 0x5c) (block_key key)) sha_default\<rparr>"
proof -
  have "overwrite (replicate 64 0) 0 (if 64 < length key then sha_digest ni key else key) = block_key key"
    using sha.one_piece [OF assms, of ni] sha.digest_size [of key]
    by (simp add: sha_digest_def block_key_def overwrite_def Let_def)
  then show ?thesis by (simp add: hmac_new_def Let_def)
qed

lemma hmac_fold: "fold (hmac_update ni) ps h = h\<lparr>hm_inner := fold (sha_update ni) ps (hm_inner h)\<rparr>"
  by (induction ps arbitrary: h) (simp_all add: hmac_update_def)

lemma hmac_pieces:
  assumes "length key < 2 ^ 61" "length (concat ps) + 64 < 2 ^ 61"
  shows "hmac_finish ni (fold (hmac_update ni) ps (hmac_new ni key)) = hmac_spec key (concat ps)"
  using sha.nested [of "map (\<lambda>x. x XOR 0x36) (block_key key)" ps "map (\<lambda>x. x XOR 0x5c) (block_key key)" ni] assms
  by (simp add: hmac_fold hmac_new_key hmac_finish_def hmac_spec_def block_key_length)

lemma hkdf_t_length: "length (hkdf_t prk info i) = (if i = 0 then 0 else 32)"
  using sha.digest_size by (cases i) (simp_all add: hmac_spec_def)

lemma expand_part_spec:
  assumes "length prk < 2 ^ 61" "length (concat info) + 97 < 2 ^ 61" "0 < i \<Longrightarrow> t = hkdf_t prk (concat info) i"
  shows "expand_part ni prk info i t = hkdf_t prk (concat info) (Suc i)"
proof -
  let ?ps = "(if 0 < i then [t] else []) @ info @ [[byte (Suc i)]]"
  have "hmac_finish ni (fold (hmac_update ni) ?ps (hmac_new ni prk)) = hmac_spec prk (concat ?ps)"
    using assms hkdf_t_length [of prk "concat info" i] by (intro hmac_pieces) auto
  then show ?thesis using assms(3) by (auto simp: expand_part_def)
qed

lemma expand_loop_spec:
  assumes "length prk < 2 ^ 61" "length (concat info) + 97 < 2 ^ 61" "0 < i \<Longrightarrow> t = hkdf_t prk (concat info) i"
  shows "expand_loop ni prk info i t n = take n (concat (map (hkdf_t prk (concat info)) [Suc i..<Suc i + (n + 31) div 32]))"
  using assms(3)
proof (induction n arbitrary: i t rule: less_induct)
  case (less n)
  show ?case
  proof (cases "n = 0")
    case True
    then show ?thesis by (simp add: expand_loop.simps)
  next
    case False
    let ?T = "hkdf_t prk (concat info)" and ?m = "min 32 n"
    note part = expand_part_spec [OF assms(1,2) less.prems, of ni]
    have "(n + 31) div 32 = Suc ((n - ?m + 31) div 32)" using False by (auto simp: min_def le_div_geq)
    then have up: "[Suc i..<Suc i + (n + 31) div 32] = Suc i # [Suc (Suc i)..<Suc (Suc i) + (n - ?m + 31) div 32]"
      by (simp add: upt_conv_Cons)
    have rest: "expand_loop ni prk info (Suc i) (?T (Suc i)) (n - ?m) = take (n - ?m) (concat (map ?T [Suc (Suc i)..<Suc (Suc i) + (n - ?m + 31) div 32]))"
      using False by (intro less.IH) auto
    have len: "length (?T (Suc i)) = 32" using hkdf_t_length [of prk "concat info" "Suc i"] by simp
    then have t: "take ?m (?T (Suc i)) = take n (?T (Suc i))" "n - length (?T (Suc i)) = n - ?m" by (auto simp: min_def)
    show ?thesis unfolding up using False
      by (subst expand_loop.simps) (simp add: part rest t Let_def del: hkdf_t.simps)
  qed
qed

text \<open>C34. HMAC fed in pieces is RFC 2104's function of the whole, and HKDF-Expand is RFC 5869's: the first \<open>n\<close> bytes of
  \<open>T(1) | T(2) | ...\<close>, each the HMAC of the one before, the info and its number; beyond 255 blocks it refuses.\<close>

theorem hmac_and_hkdf:
  assumes "length key < 2 ^ 61" "length (concat ps) + 97 < 2 ^ 61"
  shows "hmac_finish ni (fold (hmac_update ni) ps (hmac_new ni key)) = hmac_spec key (concat ps) \<and>
         hkdf_extract ni key (concat ps) = hmac_spec key (concat ps) \<and>
         hkdf_expand ni key ps n =
           (if n \<le> 255 * 32 then Some (take n (concat (map (hkdf_t key (concat ps)) [1..<1 + (n + 31) div 32]))) else None)"
proof -
  have "hkdf_extract ni key (concat ps) = hmac_spec key (concat ps)"
    using hmac_pieces [of key "[concat ps]" ni] assms by (simp add: hkdf_extract_def hmac_mac_def)
  moreover have "hmac_finish ni (fold (hmac_update ni) ps (hmac_new ni key)) = hmac_spec key (concat ps)"
    by (rule hmac_pieces) (use assms in linarith)+
  ultimately show ?thesis using expand_loop_spec [OF assms, of 0 "replicate 32 0" ni n] by (simp add: hkdf_expand_def)
qed

theorem hmac_and_hkdf_witness:
  "hkdf_extract False [1, 2] [3, 4] = hmac_spec [1, 2] [3, 4] \<and> hkdf_expand True [1, 2] [[3], [4]] 9000 = None"
  using hmac_and_hkdf [of "[1, 2]" "[[3, 4]]" False] hmac_and_hkdf [of "[1, 2]" "[[3], [4]]" True 9000] by simp

end
