(* ===== verification/Wpk.thy ===== *)
theory Wpk
  imports Engine
begin

text \<open>
  The packed weight file (\<open>wpk/mod.rs\<close>): the CRC in both its versions, the tensor table, the header, opening and
  checking a file, and the writer. A file is its bytes; a write past its end fills the gap with zeros, as the kernel
  does. The \<open>crc32\<close> instructions are modelled as Intel's manual gives them, and whether the CPU has them is an
  argument. \<open>u64\<close> values are naturals below \<open>2 ^ 64\<close>, and \<open>checked_mul\<close> and \<open>checked_add\<close> test that bound.
\<close>

unbundle bit_operations_syntax

definition ALIGN :: nat where "ALIGN = 4096"
definition WPK_MAGIC :: bytes where "WPK_MAGIC = map of_char ''TACHYWPK''"
definition WPK_VERSION :: nat where "WPK_VERSION = 1"
definition HEADER :: nat where "HEADER = 48"
definition MAX_RANK :: nat where "MAX_RANK = 8"
definition CHUNK :: nat where "CHUNK = 16 * 2 ^ 20"

datatype dtype = F32 | F16 | BF16 | F8E4M3 | I8 | U8

definition DTYPES :: "dtype list" where "DTYPES = [F32, F16, BF16, F8E4M3, I8, U8]"

text \<open>The discriminant, \<open>dtype as u8\<close>.\<close>

fun dtype_num :: "dtype \<Rightarrow> nat" where
  "dtype_num F32 = 0" | "dtype_num F16 = 1" | "dtype_num BF16 = 2" | "dtype_num F8E4M3 = 3" | "dtype_num I8 = 4" | "dtype_num U8 = 5"

fun dtype_size :: "dtype \<Rightarrow> nat" where
  "dtype_size F32 = 4" | "dtype_size F16 = 2" | "dtype_size BF16 = 2" | "dtype_size F8E4M3 = 1" | "dtype_size I8 = 1" | "dtype_size U8 = 1"

record tensor =
  tn_name :: str
  tn_dtype :: dtype
  tn_shape :: "nat list"
  tn_offset :: nat
  tn_len :: nat
  tn_crc :: u32

fun mul_all :: "nat \<Rightarrow> nat list \<Rightarrow> nat option" where
  "mul_all n [] = Some n"
| "mul_all n (d # ds) = (if n * d < 2 ^ 64 then mul_all (n * d) ds else None)"

definition bytes_of :: "dtype \<Rightarrow> nat list \<Rightarrow> nat option" where
  "bytes_of d shape = mul_all (dtype_size d) shape"

definition first_failure :: "(bool \<times> string) list \<Rightarrow> string option" where
  "first_failure checks = map_option snd (find (\<lambda>(ok, _). \<not> ok) checks)"

text \<open>\<open>{name:?}\<close>, less the escapes of unusual characters.\<close>

definition debug_str :: "str \<Rightarrow> str" where
  "debug_str s = [34] @ s @ [34]"

section \<open>CRC32C\<close>

definition crc_bit :: "u32 \<Rightarrow> u32" where
  "crc_bit c = drop_bit 1 c XOR (0x82F63B78 AND - (c AND 1))"

definition crc_byte :: "u8 \<Rightarrow> u32 \<Rightarrow> u32" where
  "crc_byte b c = (crc_bit ^^ 8) (c XOR ucast b)"

definition crc32c_soft :: "u32 \<Rightarrow> bytes \<Rightarrow> u32" where
  "crc32c_soft crc bs = NOT (fold crc_byte bs (NOT crc))"

text \<open>\<open>_mm_crc32_u8\<close> and \<open>_mm_crc32_u64\<close>: the remainder of the bits fed, lowest first, by the Castagnoli polynomial.\<close>

definition mm_crc32_u8 :: "u32 \<Rightarrow> u8 \<Rightarrow> u32" where
  "mm_crc32_u8 c b = (crc_bit ^^ 8) (c XOR ucast b)"

definition mm_crc32_u64 :: "u64 \<Rightarrow> u64 \<Rightarrow> u64" where
  "mm_crc32_u64 c w = ucast (fold (\<lambda>b c. mm_crc32_u8 c b) (le_bytes 8 (unat w)) (ucast c))"

fun crc_words :: "bytes \<Rightarrow> u64 \<Rightarrow> u64 \<times> bytes" where
  "crc_words bs c =
     (if length bs < 8 then (c, bs) else crc_words (drop 8 bs) (mm_crc32_u64 c (word_of_nat (le_val (take 8 bs)))))"

declare crc_words.simps [simp del]

definition crc32c_sse42 :: "u32 \<Rightarrow> bytes \<Rightarrow> u32" where
  "crc32c_sse42 crc bs =
     (case crc_words bs (ucast (NOT crc)) of (wide, rest) \<Rightarrow> NOT (fold (\<lambda>b c. mm_crc32_u8 c b) rest (ucast wide)))"

definition crc32c :: "bool \<Rightarrow> u32 \<Rightarrow> bytes \<Rightarrow> u32" where
  "crc32c sse crc bs = (if sse then crc32c_sse42 crc bs else crc32c_soft crc bs)"

section \<open>The table\<close>

record cursor =
  cu_rest :: bytes
  cu_short :: bool

definition cur_take :: "nat \<Rightarrow> cursor \<Rightarrow> bytes \<times> cursor" where
  "cur_take n c =
     (if n \<le> length (cu_rest c) then (take n (cu_rest c), c\<lparr>cu_rest := drop n (cu_rest c)\<rparr>) else ([], c\<lparr>cu_short := True\<rparr>))"

definition cur_int :: "nat \<Rightarrow> cursor \<Rightarrow> nat \<times> cursor" where
  "cur_int n c = (case cur_take n c of (bs, c) \<Rightarrow> (le_val bs, c))"

fun cur_ints :: "nat \<Rightarrow> cursor \<Rightarrow> nat list \<times> cursor" where
  "cur_ints 0 c = ([], c)"
| "cur_ints (Suc k) c = (case cur_int 8 c of (v, c) \<Rightarrow> (case cur_ints k c of (vs, c) \<Rightarrow> (v # vs, c)))"

definition encode_tensor :: "tensor \<Rightarrow> bytes" where
  "encode_tensor t =
     le_bytes 2 (length (to_utf8 (tn_name t))) @ to_utf8 (tn_name t) @ [byte (dtype_num (tn_dtype t)), byte (length (tn_shape t))] @
     concat (map (le_bytes 8) (tn_shape t @ [tn_offset t, tn_len t])) @ le_bytes 4 (unat (tn_crc t))"

definition wpk_encode :: "tensor list \<Rightarrow> bytes" where
  "wpk_encode ts = concat (map encode_tensor ts)"

text \<open>\<open>String::from_utf8_lossy\<close>: U+FFFD for each broken sequence.\<close>

function lossy :: "bytes \<Rightarrow> str" where
  "lossy bs =
     (if bs = [] then []
      else case utf8_next bs of
        Whole c n \<Rightarrow> c # lossy (drop n bs)
      | Broken n \<Rightarrow> REPLACEMENT # lossy (drop n bs)
      | Cut \<Rightarrow> [REPLACEMENT])"
  by pat_completeness auto
termination
  by (relation "measure length") (auto dest: utf8_next_bounds)

declare lossy.simps [simp del]

definition wpk_decode :: "nat \<Rightarrow> cursor \<Rightarrow> error + (tensor \<times> cursor)" where
  "wpk_decode data_len c =
     (let (name_len, c) = cur_int 2 c; (nm, c) = cur_take name_len c; (dt, c) = cur_int 1 c; (rank, c) = cur_int 1 c;
          (shape, c) = cur_ints (min rank MAX_RANK) c; (offset, c) = cur_int 8 c; (len, c) = cur_int 8 c; (crc, c) = cur_int 4 c;
          name = lossy nm; dtype = (if dt < length DTYPES then Some (DTYPES ! dt) else None);
          failure = first_failure
            [(\<not> cu_short c, ''the tensor table is truncated''), (dtype \<noteq> None, ''unknown element type''),
             (rank \<le> MAX_RANK, ''more than 8 dimensions''), (offset mod ALIGN = 0, ''not 4 KiB aligned''),
             (Option.bind dtype (\<lambda>d. bytes_of d shape) = Some len, ''its length does not match its shape''),
             (offset + len < 2 ^ 64 \<and> offset + len \<le> data_len, ''it lies outside the data region'')]
      in case (failure, dtype) of
           (None, Some d) \<Rightarrow>
             Inr (\<lparr>tn_name = name, tn_dtype = d, tn_shape = shape, tn_offset = offset, tn_len = len, tn_crc = word_of_nat crc\<rparr>, c)
         | (why, _) \<Rightarrow> Inl (Format (lit ''tensor '' @ debug_str name @ lit '': '' @ lit (case why of None \<Rightarrow> ''invalid'' | Some s \<Rightarrow> s))))"

definition wpk_header :: "bool \<Rightarrow> nat \<Rightarrow> nat \<Rightarrow> bytes \<Rightarrow> bytes" where
  "wpk_header sse count data_len table =
     (let head = WPK_MAGIC @ concat (map (le_bytes 8) [WPK_VERSION OR push_bit 32 count, data_len, ALIGN + data_len, length table]) @
            le_bytes 4 (unat (crc32c sse 0 table));
          head = head @ le_bytes 4 (unat (crc32c sse 0 head))
      in head @ replicate (ALIGN - length head) 0)"

section \<open>Files\<close>

type_synonym disk_file = bytes

definition write_at :: "bytes \<Rightarrow> nat \<Rightarrow> disk_file \<Rightarrow> disk_file" where
  "write_at bs at f = overwrite (f @ replicate (at - length f) 0) at bs"

definition read_exact_at :: "nat \<Rightarrow> nat \<Rightarrow> disk_file \<Rightarrow> error + bytes" where
  "read_exact_at at n f = ok_or (Format (lit ''the file ends early'')) (slice f at n)"

definition wpk_head :: "bytes \<Rightarrow> bytes \<times> nat \<times> nat \<times> nat \<times> nat \<times> nat \<times> nat" where
  "wpk_head head =
     (let (magic, c) = cur_take 8 \<lparr>cu_rest = head, cu_short = False\<rparr>;
          (version, c) = cur_int 8 c; (data_len, c) = cur_int 8 c; (table_at, c) = cur_int 8 c; (table_len, c) = cur_int 8 c;
          (table_crc, c) = cur_int 4 c; (head_crc, c) = cur_int 4 c
      in (magic, version, data_len, table_at, table_len, table_crc, head_crc))"

definition wpk_table :: "bool \<Rightarrow> disk_file \<Rightarrow> nat \<Rightarrow> nat \<Rightarrow> nat \<Rightarrow> nat \<Rightarrow> nat \<Rightarrow> error + (tensor list \<times> nat)" where
  "wpk_table sse f count data_len table_at table_len table_crc =
     rbind (read_exact_at table_at table_len f) (\<lambda>table.
       if unat (crc32c sse 0 table) \<noteq> table_crc then Inl (Format (lit ''the tensor table is corrupt''))
       else rbind (read_n count (wpk_decode data_len) \<lparr>cu_rest = table, cu_short = False\<rparr>) (\<lambda>(ts, c).
         if cu_rest c = [] then Inr (ts, data_len) else Inl (Format (lit ''the tensor table has trailing bytes''))))"

definition wpk_index :: "bool \<Rightarrow> disk_file \<Rightarrow> error + (tensor list \<times> nat)" where
  "wpk_index sse f =
     rbind (read_exact_at 0 HEADER f) (\<lambda>head.
       case wpk_head head of (magic, version, data_len, table_at, table_len, table_crc, head_crc) \<Rightarrow>
         case first_failure
            [(magic = WPK_MAGIC, ''not a .wpk file''),
             (unat (crc32c sse 0 (take (HEADER - 4) head)) = head_crc, ''the header is corrupt''),
             (version mod 2 ^ 32 = WPK_VERSION, ''unsupported version''),
             (data_len mod ALIGN = 0 \<and> table_at = (ALIGN + data_len) mod 2 ^ 64, ''the data region is malformed''),
             (table_at + table_len < 2 ^ 64 \<and> table_at + table_len \<le> length f, ''the file is truncated'')] of
          Some why \<Rightarrow> Inl (Format (lit why))
        | None \<Rightarrow> wpk_table sse f (drop_bit 32 version) data_len table_at table_len table_crc)"

definition find_tensor :: "str \<Rightarrow> tensor list \<Rightarrow> tensor option" where
  "find_tensor name ts = find (\<lambda>t. tn_name t = name) ts"

datatype reads = Auto | Direct | Cached

text \<open>Which file a load reads: \<open>uncached\<close> is the one opened with \<open>O_DIRECT\<close>, if the file system allows it, and
  \<open>cached\<close> tells whether the page cache holds nine tenths of the data.\<close>

datatype source = Index_file | Data_file

definition open_reads :: "reads \<Rightarrow> bool \<Rightarrow> reads" where
  "open_reads r direct = (if r \<noteq> Cached \<and> direct then r else Cached)"

definition wpk_source :: "reads \<Rightarrow> bool \<Rightarrow> source" where
  "wpk_source r cached = (case r of Direct \<Rightarrow> Data_file | Auto \<Rightarrow> (if \<not> cached then Data_file else Index_file) | Cached \<Rightarrow> Index_file)"

function crc_parts :: "bool \<Rightarrow> disk_file \<Rightarrow> nat \<Rightarrow> nat \<Rightarrow> u32 \<Rightarrow> error + u32" where
  "crc_parts sse f at len crc =
     (if len = 0 then Inr crc
      else let n = min CHUNK len in
        rbind (read_exact_at at n f) (\<lambda>part. crc_parts sse f (at + n) (len - n) (crc32c sse crc part)))"
  by pat_completeness auto
termination
  by (relation "measure (\<lambda>(_, _, _, len, _). len)") (auto simp: CHUNK_def)

declare crc_parts.simps [simp del]

fun wpk_verify :: "bool \<Rightarrow> disk_file \<Rightarrow> tensor list \<Rightarrow> error + unit" where
  "wpk_verify sse f [] = Inr ()"
| "wpk_verify sse f (t # ts) =
     rbind (crc_parts sse f (ALIGN + tn_offset t) (tn_len t) 0) (\<lambda>crc.
       if crc \<noteq> tn_crc t then Inl (Format (lit ''tensor '' @ debug_str (tn_name t) @ lit '': its bytes do not match their checksum''))
       else wpk_verify sse f ts)"

section \<open>The writer\<close>

record writer =
  wr_file :: disk_file
  wr_tensors :: "tensor list"
  wr_data_len :: nat

definition wr_create :: writer where
  "wr_create = \<lparr>wr_file = [], wr_tensors = [], wr_data_len = 0\<rparr>"

definition wr_add :: "bool \<Rightarrow> str \<Rightarrow> dtype \<Rightarrow> nat list \<Rightarrow> bytes \<Rightarrow> writer \<Rightarrow> error + writer" where
  "wr_add sse name d shape bs w =
     (if bytes_of d shape \<noteq> Some (length bs) \<or> MAX_RANK < length shape \<or> 0xFFFF < length (to_utf8 name)
      then Inl (Format (lit ''tensor '' @ debug_str name @ lit '': its bytes, type and shape do not agree''))
      else let t = \<lparr>tn_name = name, tn_dtype = d, tn_shape = shape, tn_offset = wr_data_len w, tn_len = length bs, tn_crc = crc32c sse 0 bs\<rparr>
        in Inr \<lparr>wr_file = write_at bs (ALIGN + wr_data_len w) (wr_file w), wr_tensors = wr_tensors w @ [t],
                wr_data_len = next_multiple_of (wr_data_len w + length bs) ALIGN\<rparr>)"

definition wr_finish :: "bool \<Rightarrow> writer \<Rightarrow> disk_file" where
  "wr_finish sse w =
     (let table = wpk_encode (wr_tensors w) in
      write_at (wpk_header sse (length (wr_tensors w)) (wr_data_len w) table) 0
        (write_at table (ALIGN + wr_data_len w) (wr_file w)))"

section \<open>The checksum\<close>

lemma crc_soft_append: "crc32c_soft (crc32c_soft c a) b = crc32c_soft c (a @ b)"
  by (simp add: crc32c_soft_def)

lemma fold_u8: "fold (\<lambda>b c. mm_crc32_u8 c b) bs c = fold crc_byte bs c"
proof -
  have "(\<lambda>b c. mm_crc32_u8 c b) = crc_byte" by (simp add: fun_eq_iff mm_crc32_u8_def crc_byte_def)
  then show ?thesis by simp
qed

lemma narrow_wide: "ucast (ucast (c :: u32) :: u64) = c"
  by (simp add: unsigned_ucast_eq take_bit_word_eq_self)

lemma crc_u64:
  assumes "length bs = 8"
  shows "mm_crc32_u64 (ucast (c :: u32)) (word_of_nat (le_val bs)) = ucast (fold crc_byte bs c)"
proof -
  have "le_val bs < 2 ^ 64" using le_val_bound [of bs] assms by simp
  then have "unat (word_of_nat (le_val bs) :: u64) = le_val bs" by (simp add: unat_of_nat)
  then have "le_bytes 8 (unat (word_of_nat (le_val bs) :: u64)) = bs" using le_bytes_le_val [of bs] assms by simp
  then show ?thesis by (simp add: mm_crc32_u64_def fold_u8 narrow_wide)
qed

lemma crc_words_fold:
  "case crc_words bs (ucast c) of (wide, rest) \<Rightarrow> fold crc_byte rest (ucast wide) = fold crc_byte bs (c :: u32)"
proof (induction "length bs" arbitrary: bs c rule: less_induct)
  case less
  show ?case
  proof (cases "length bs < 8")
    case True
    then show ?thesis by (simp add: crc_words.simps narrow_wide)
  next
    case False
    have "fold crc_byte bs c = fold crc_byte (drop 8 bs) (fold crc_byte (take 8 bs) c)"
      by (metis append_take_drop_id comp_apply fold_append)
    then show ?thesis using False less [of "drop 8 bs" "fold crc_byte (take 8 bs) c"] crc_u64 [of "take 8 bs" c]
      by (subst crc_words.simps) simp
  qed
qed

lemma crc_same: "crc32c sse crc bs = crc32c_soft crc bs"
  using crc_words_fold [of bs "NOT crc"] by (simp add: crc32c_def crc32c_sse42_def crc32c_soft_def fold_u8 split: prod.splits)

lemma crc_parts_ok:
  assumes "slice f at len = Some bs"
  shows "crc_parts sse f at len crc = Inr (crc32c_soft crc bs)"
  using assms
proof (induction sse f at len crc arbitrary: bs rule: crc_parts.induct)
  case (1 sse f at len crc)
  show ?case
  proof (cases "len = 0")
    case True
    then show ?thesis using 1(2) by (auto simp: crc_parts.simps slice_def crc32c_soft_def split: if_splits)
  next
    case False
    let ?n = "min CHUNK len"
    have b: "bs = take len (drop at f)" "at + len \<le> length f" using 1(2) by (auto simp: slice_def split: if_splits)
    have head: "slice f at ?n = Some (take ?n bs)" using b by (simp add: slice_def min_def)
    have tail: "slice f (at + ?n) (len - ?n) = Some (drop ?n bs)" using b by (auto simp: slice_def drop_take add.commute)
    show ?thesis
      using 1(1) [OF False refl _ tail] head False crc_soft_append [of crc "take ?n bs" "drop ?n bs"]
      by (subst crc_parts.simps) (simp add: read_exact_at_def Let_def crc_same)
  qed
qed

section \<open>What opening a file establishes\<close>

definition tensor_ok :: "nat \<Rightarrow> tensor \<Rightarrow> bool" where
  "tensor_ok data_len t \<longleftrightarrow> tn_offset t mod ALIGN = 0 \<and> bytes_of (tn_dtype t) (tn_shape t) = Some (tn_len t) \<and>
     length (tn_shape t) \<le> MAX_RANK \<and> tn_offset t + tn_len t \<le> data_len"

lemma first_failure_None: "first_failure checks = None \<longleftrightarrow> list_all fst checks"
  by (induction checks) (auto simp: first_failure_def)

lemma cur_ints_length: "cur_ints n c = (vs, c') \<Longrightarrow> length vs = n"
  by (induction n arbitrary: c vs) (auto split: prod.splits)

lemma wpk_decode_ok: "wpk_decode data_len c = Inr (t, c') \<Longrightarrow> tensor_ok data_len t"
  by (auto simp: wpk_decode_def tensor_ok_def Let_def first_failure_None split: prod.splits option.splits if_splits dest!: cur_ints_length)

lemma read_n_all: "read_n n item r = Inr (xs, r') \<Longrightarrow> (\<And>x r r'. item r = Inr (x, r') \<Longrightarrow> P x) \<Longrightarrow> list_all P xs"
  by (induction n arbitrary: r xs) (fastforce simp: result_simps)+


section \<open>What is written is read back\<close>

lemma cur_take_app: "cur_take (length bs) \<lparr>cu_rest = bs @ rest, cu_short = b\<rparr> = (bs, \<lparr>cu_rest = rest, cu_short = b\<rparr>)"
  by (simp add: cur_take_def)

lemma cur_int_le: "v < 256 ^ n \<Longrightarrow> cur_int n \<lparr>cu_rest = le_bytes n v @ rest, cu_short = b\<rparr> = (v, \<lparr>cu_rest = rest, cu_short = b\<rparr>)"
  using cur_take_app [of "le_bytes n v" rest b] by (simp add: cur_int_def)

lemma cur_int_byte: "v < 256 \<Longrightarrow> cur_int (Suc 0) \<lparr>cu_rest = byte v # rest, cu_short = b\<rparr> = (v, \<lparr>cu_rest = rest, cu_short = b\<rparr>)"
  using cur_int_le [of v 1 rest b] by simp

lemma cur_ints_le:
  "list_all (\<lambda>v. v < 2 ^ 64) vs \<Longrightarrow>
     cur_ints (length vs) \<lparr>cu_rest = concat (map (le_bytes 8) vs) @ rest, cu_short = b\<rparr> = (vs, \<lparr>cu_rest = rest, cu_short = b\<rparr>)"
  by (induction vs) (simp_all add: cur_int_le)

lemma lossy_to_utf8: "str_ok s \<Longrightarrow> lossy (to_utf8 s) = s"
  by (induction s) (simp_all add: lossy.simps [of "[]"] lossy.simps [of "encode_utf8 c @ bs" for c bs])

definition tensor_fits :: "nat \<Rightarrow> tensor \<Rightarrow> bool" where
  "tensor_fits data_len t \<longleftrightarrow> tensor_ok data_len t \<and> str_ok (tn_name t) \<and> length (to_utf8 (tn_name t)) < 65536 \<and>
     list_all (\<lambda>v. v < 2 ^ 64) (tn_shape t)"

lemma dtype_back: "dtype_num d < length DTYPES \<and> DTYPES ! dtype_num d = d"
  by (cases d) (simp_all add: DTYPES_def)

lemma wpk_decode_encode:
  assumes "tensor_fits data_len t" "data_len < 2 ^ 64"
  shows "wpk_decode data_len \<lparr>cu_rest = encode_tensor t @ rest, cu_short = False\<rparr> = Inr (t, \<lparr>cu_rest = rest, cu_short = False\<rparr>)"
proof -
  note ok = assms(1) [unfolded tensor_fits_def tensor_ok_def]
  have small: "tn_offset t < 256 ^ 8" "tn_len t < 256 ^ 8" "unat (tn_crc t) < 256 ^ 4" "length (to_utf8 (tn_name t)) < 256 ^ 2"
    "dtype_num (tn_dtype t) < 256" "length (tn_shape t) < 256" "min (length (tn_shape t)) MAX_RANK = length (tn_shape t)"
    using ok assms(2) dtype_back [of "tn_dtype t"] by (auto simp: DTYPES_def MAX_RANK_def)
  show ?thesis
    using ok assms(2) dtype_back [of "tn_dtype t"]
    by (simp add: wpk_decode_def encode_tensor_def cur_int_le small cur_int_byte cur_take_app cur_ints_le Let_def first_failure_def lossy_to_utf8 MAX_RANK_def)
qed

lemma slice_overwrite_before: "a + n \<le> at \<Longrightarrow> at \<le> length dst \<Longrightarrow> slice (overwrite dst at src) a n = slice dst a n"
  by (auto simp: slice_def overwrite_def drop_take)

lemma write_keep:
  assumes "slice f a n = Some bs" "a + n \<le> at"
  shows "slice (write_at x at f) a n = Some bs"
proof -
  have f: "a + n \<le> length f" "bs = take n (drop a f)" using assms(1) by (auto simp: slice_def split: if_splits)
  have "slice (write_at x at f) a n = slice (f @ replicate (at - length f) 0) a n"
    unfolding write_at_def using assms(2) by (rule slice_overwrite_before) simp
  then show ?thesis using f by (simp add: slice_def)
qed

lemma write_read: "slice (write_at bs at f) at (length bs) = Some bs"
  by (simp add: write_at_def overwrite_def slice_def)

lemma write_before:
  assumes "slice f a n = Some bs" "length x \<le> a"
  shows "slice (write_at x 0 f) a n = Some bs"
  using assms by (auto simp: write_at_def overwrite_def slice_def split: if_splits)

text \<open>An item given to the writer, and its tensor in a file.\<close>

type_synonym wpk_item = "str \<times> dtype \<times> nat list \<times> bytes"

definition stored :: "bool \<Rightarrow> disk_file \<Rightarrow> nat \<Rightarrow> wpk_item \<Rightarrow> tensor \<Rightarrow> bool" where
  "stored sse f data_len = (\<lambda>(name, d, shape, bs) t.
     tn_name t = name \<and> tn_dtype t = d \<and> tn_shape t = shape \<and> tn_len t = length bs \<and> tn_crc t = crc32c sse 0 bs \<and>
     tensor_ok data_len t \<and> length (to_utf8 name) < 65536 \<and> slice f (ALIGN + tn_offset t) (length bs) = Some bs)"

fun wr_add_all :: "bool \<Rightarrow> wpk_item list \<Rightarrow> writer \<Rightarrow> error + writer" where
  "wr_add_all sse [] w = Inr w"
| "wr_add_all sse ((name, d, shape, bs) # items) w = rbind (wr_add sse name d shape bs w) (wr_add_all sse items)"

definition wr_holds :: "bool \<Rightarrow> wpk_item list \<Rightarrow> writer \<Rightarrow> bool" where
  "wr_holds sse items w \<longleftrightarrow> wr_data_len w mod ALIGN = 0 \<and> list_all2 (stored sse (wr_file w) (wr_data_len w)) items (wr_tensors w)"

lemma stored_more:
  assumes "stored sse f data_len item t" "data_len \<le> data_len'"
  shows "stored sse (write_at x (ALIGN + data_len) f) data_len' item t"
  using assms write_keep [of f "ALIGN + tn_offset t" "tn_len t" _ "ALIGN + data_len" x]
  by (auto simp: stored_def tensor_ok_def)

lemma wr_add_holds:
  assumes "wr_holds sse items w" "wr_add sse name d shape bs w = Inr w'"
  shows "wr_holds sse (items @ [(name, d, shape, bs)]) w'"
proof -
  let ?t = "\<lparr>tn_name = name, tn_dtype = d, tn_shape = shape, tn_offset = wr_data_len w, tn_len = length bs, tn_crc = crc32c sse 0 bs\<rparr>"
  have ok: "bytes_of d shape = Some (length bs)" "length shape \<le> MAX_RANK" "length (to_utf8 name) < 65536"
    and w': "w' = \<lparr>wr_file = write_at bs (ALIGN + wr_data_len w) (wr_file w), wr_tensors = wr_tensors w @ [?t],
                wr_data_len = next_multiple_of (wr_data_len w + length bs) ALIGN\<rparr>"
    using assms(2) by (auto simp: wr_add_def Let_def split: if_splits)
  have grow: "wr_data_len w + length bs \<le> wr_data_len w'" unfolding w' by (simp add: next_multiple_of_ge ALIGN_def)
  have new: "stored sse (wr_file w') (wr_data_len w') (name, d, shape, bs) ?t"
    using assms(1) ok grow write_read [of bs "ALIGN + wr_data_len w" "wr_file w"]
    by (simp add: stored_def tensor_ok_def wr_holds_def w' ALIGN_def)
  have old: "list_all2 (stored sse (wr_file w') (wr_data_len w')) items (wr_tensors w)"
    using assms(1) stored_more [of sse "wr_file w" "wr_data_len w" _ _ "wr_data_len w'" bs] grow
    by (auto simp: wr_holds_def w' elim!: list_all2_mono)
  have "wr_data_len w' mod ALIGN = 0" unfolding w' by (simp add: mod_eq_0_iff_dvd)
  then show ?thesis using old new by (auto simp: wr_holds_def w' intro!: list_all2_appendI)
qed

lemma wr_add_all_holds: "wr_holds sse done w \<Longrightarrow> wr_add_all sse items w = Inr w' \<Longrightarrow> wr_holds sse (done @ items) w'"
proof (induction sse items w arbitrary: "done" rule: wr_add_all.induct)
  case (2 sse name d shape bs items w)
  then show ?case using wr_add_holds [OF "2.prems"(1)] by (fastforce simp: result_simps)
qed simp

lemma magic_length: "length WPK_MAGIC = 8"
  by (simp add: WPK_MAGIC_def)

lemma slice_front:
  assumes "slice f 0 (length (a @ b)) = Some (a @ b)"
  shows "slice f 0 (length a) = Some a"
proof -
  have f: "length (a @ b) \<le> length f" "take (length (a @ b)) f = a @ b" using assms by (auto simp: slice_def split: if_splits)
  have "take (length a) f = take (length a) (take (length (a @ b)) f)" by (simp add: min_def)
  then have "take (length a) f = a" unfolding f(2) by simp
  then show ?thesis using f(1) by (simp add: slice_def)
qed

lemma header_length: "length (WPK_MAGIC @ concat (map (le_bytes 8) [a, b, c, d]) @ le_bytes 4 e) = 44"
  by (simp add: WPK_MAGIC_def)

lemma wpk_head_back:
  assumes "v < 2 ^ 64" "d < 2 ^ 64" "ta < 2 ^ 64" "tn < 2 ^ 64"
  shows "wpk_head ((WPK_MAGIC @ concat (map (le_bytes 8) [v, d, ta, tn]) @ le_bytes 4 (unat (c :: u32))) @ le_bytes 4 (unat (h :: u32))) =
           (WPK_MAGIC, v, d, ta, tn, unat c, unat h)"
proof -
  have m: "cur_take 8 \<lparr>cu_rest = WPK_MAGIC @ rest, cu_short = b\<rparr> = (WPK_MAGIC, \<lparr>cu_rest = rest, cu_short = b\<rparr>)" for rest b
    using cur_take_app [of WPK_MAGIC rest b] unfolding magic_length .
  have small: "v < 256 ^ 8" "d < 256 ^ 8" "ta < 256 ^ 8" "tn < 256 ^ 8" "unat c < 256 ^ 4" "unat h < 256 ^ 4" using assms by simp_all
  have e: "cur_int 4 \<lparr>cu_rest = le_bytes 4 (unat h), cu_short = b\<rparr> = (unat h, \<lparr>cu_rest = [], cu_short = b\<rparr>)" for b
    using cur_int_le [OF small(6), of "[]" b] by simp
  show ?thesis using assms by (simp add: wpk_head_def m cur_int_le small e Let_def)
qed

lemma version_word:
  assumes "n < 2 ^ 32"
  shows "WPK_VERSION OR push_bit 32 n < 2 ^ 64" "(WPK_VERSION OR push_bit 32 n) mod 2 ^ 32 = WPK_VERSION" "drop_bit 32 (WPK_VERSION OR push_bit 32 n) = n"
proof -
  have "WPK_VERSION AND push_bit 32 n = 0" by (rule bit_eqI) (auto simp: bit_simps WPK_VERSION_def bit_1_iff)
  then have e: "WPK_VERSION OR push_bit 32 n = 1 + n * 2 ^ 32"
    by (simp add: disjunctive_add_eq_or [symmetric] WPK_VERSION_def push_bit_eq_mult)
  show "WPK_VERSION OR push_bit 32 n < 2 ^ 64" using assms unfolding e by simp
  show "(WPK_VERSION OR push_bit 32 n) mod 2 ^ 32 = WPK_VERSION" 
    unfolding e mod_mult_self1 by (simp add: WPK_VERSION_def)
  show "drop_bit 32 (WPK_VERSION OR push_bit 32 n) = n" unfolding e by (simp add: drop_bit_eq_div)
qed

lemma tensors_fit:
  assumes "list_all2 (stored sse f data_len) items ts" "list_all (\<lambda>(name, _, shape, _). str_ok name \<and> list_all (\<lambda>v. v < 2 ^ 64) shape) items"
  shows "list_all (tensor_fits data_len) ts"
  using assms by (induction rule: list_all2_induct) (auto simp: stored_def tensor_fits_def)

lemma table_back:
  assumes "list_all (tensor_fits data_len) ts" "data_len < 2 ^ 64" "slice f at (length (wpk_encode ts)) = Some (wpk_encode ts)"
  shows "wpk_table sse f (length ts) data_len at (length (wpk_encode ts)) (unat (crc32c sse 0 (wpk_encode ts))) = Inr (ts, data_len)"
proof -
  have "read_n (length ts) (wpk_decode data_len) \<lparr>cu_rest = concat (map encode_tensor ts) @ [], cu_short = False\<rparr> =
      Inr (ts, \<lparr>cu_rest = [], cu_short = False\<rparr>)"
    by (rule read_n_written [where R = "\<lambda>rest. \<lparr>cu_rest = rest, cu_short = False\<rparr>"])
       (use assms(1,2) wpk_decode_encode in \<open>auto simp: list_all_iff\<close>)
  then show ?thesis using assms(3) by (simp add: wpk_table_def read_exact_at_def wpk_encode_def)
qed

lemma verify_ok:
  "list_all2 (stored sse f data_len) items ts \<Longrightarrow> wpk_verify sse f ts = Inr ()"
  by (induction rule: list_all2_induct) (auto simp: stored_def crc_parts_ok crc_same)

lemma finished_file:
  assumes "wr_holds sse items w" "list_all (\<lambda>(name, _, shape, _). str_ok name \<and> list_all (\<lambda>v. v < 2 ^ 64) shape) items"
    "length items < 2 ^ 32" "ALIGN + wr_data_len w + length (wpk_encode (wr_tensors w)) < 2 ^ 64"
  shows "wpk_index sse (wr_finish sse w) = Inr (wr_tensors w, wr_data_len w)"
    "list_all2 (stored sse (wr_finish sse w) (wr_data_len w)) items (wr_tensors w)"
proof -
  let ?ts = "wr_tensors w" and ?d = "wr_data_len w"
  let ?table = "wpk_encode ?ts"
  define f1 where "f1 = write_at ?table (ALIGN + ?d) (wr_file w)"
  define core where "core = WPK_MAGIC @ concat (map (le_bytes 8) [WPK_VERSION OR push_bit 32 (length ?ts), ?d, ALIGN + ?d, length ?table]) @ le_bytes 4 (unat (crc32c sse 0 ?table))"
  define head where "head = core @ le_bytes 4 (unat (crc32c sse 0 core))"
  let ?header = "head @ replicate (ALIGN - length head) 0"
  have len: "length core = 44" "length head = 48" using header_length by (simp_all add: core_def head_def)
  have fin: "wr_finish sse w = write_at ?header 0 f1" unfolding wr_finish_def f1_def wpk_header_def core_def head_def Let_def by (rule refl)
  have hl: "length ?header = ALIGN" using len by (simp add: ALIGN_def)
  have st: "list_all2 (stored sse (wr_file w) ?d) items ?ts" and align: "?d mod ALIGN = 0" using assms(1) by (simp_all add: wr_holds_def)
  have st1: "list_all2 (stored sse f1 ?d) items ?ts" using st stored_more [of sse "wr_file w" ?d _ _ ?d ?table] by (auto simp: f1_def elim!: list_all2_mono)
  show "list_all2 (stored sse (wr_finish sse w) ?d) items ?ts"
    using st1 by (rule list_all2_mono) (use hl in \<open>auto simp: stored_def fin intro!: write_before\<close>)
  have tab: "slice (wr_finish sse w) (ALIGN + ?d) (length ?table) = Some ?table"
    unfolding fin f1_def by (rule write_before [OF write_read]) (use hl in simp)
  obtain v where v: "v = WPK_VERSION OR push_bit 32 (length ?ts)" by blast
  have count: "length ?ts < 2 ^ 32" using assms(3) list_all2_lengthD [OF st] by simp
  note version = version_word [OF count, folded v]
  have size: "ALIGN + ?d + length ?table \<le> length (wr_finish sse w)" using tab by (auto simp: slice_def split: if_splits)
  have "slice (wr_finish sse w) 0 (length ?header) = Some ?header" unfolding fin by (rule write_read)
  then have "read_exact_at 0 HEADER (wr_finish sse w) = Inr head"
    using slice_front [of "wr_finish sse w" head "replicate (ALIGN - length head) 0"] len(2) by (simp add: read_exact_at_def HEADER_def)
  moreover have "wpk_head head = (WPK_MAGIC, v, ?d, ALIGN + ?d, length ?table, unat (crc32c sse 0 ?table), unat (crc32c sse 0 core))"
    unfolding head_def core_def v [symmetric] using assms(4) version(1) by (intro wpk_head_back) auto
  moreover have "take (HEADER - 4) head = core" using len by (simp add: head_def HEADER_def)
  moreover have "wpk_table sse (wr_finish sse w) (length ?ts) ?d (ALIGN + ?d) (length ?table) (unat (crc32c sse 0 ?table)) = Inr (?ts, ?d)"
    using tensors_fit [OF st assms(2)] assms(4) tab by (intro table_back) auto
  ultimately show "wpk_index sse (wr_finish sse w) = Inr (?ts, ?d)"
    using align size assms(4) version(2,3) by (simp add: wpk_index_def first_failure_def)
qed

text \<open>C32. A finished file opens, and lists the tensors that were added, in order, with their names, types and shapes; every
  tensor's bytes lie where its entry says, and the file verifies. (The names are valid text and the sizes \<open>u64\<close>, which
  the types of the source ensure; the file ends before \<open>2 ^ 64\<close>.)\<close>

theorem wpk_round_trip:
  assumes "wr_add_all sse items wr_create = Inr w"
    "list_all (\<lambda>(name, _, shape, _). str_ok name \<and> list_all (\<lambda>v. v < 2 ^ 64) shape) items"
    "length items < 2 ^ 32" "ALIGN + wr_data_len w + length (wpk_encode (wr_tensors w)) < 2 ^ 64"
  shows "wpk_index sse (wr_finish sse w) = Inr (wr_tensors w, wr_data_len w) \<and>
         map (\<lambda>t. (tn_name t, tn_dtype t, tn_shape t, slice (wr_finish sse w) (ALIGN + tn_offset t) (tn_len t))) (wr_tensors w) =
           map (\<lambda>(name, d, shape, bs). (name, d, shape, Some bs)) items \<and>
         wpk_verify sse (wr_finish sse w) (wr_tensors w) = Inr ()"
proof -
  have h: "wr_holds sse items w" using wr_add_all_holds [of sse "[]" wr_create items w] assms(1) by (simp add: wr_holds_def wr_create_def)
  note fin = finished_file [OF h assms(2-)]
  have "map (\<lambda>t. (tn_name t, tn_dtype t, tn_shape t, slice (wr_finish sse w) (ALIGN + tn_offset t) (tn_len t))) (wr_tensors w) =
      map (\<lambda>(name, d, shape, bs). (name, d, shape, Some bs)) items"
    using fin(2) by (induction rule: list_all2_induct) (auto simp: stored_def)
  then show ?thesis using fin(1) verify_ok [OF fin(2)] by simp
qed

lemma empty_file: "wpk_index False (wr_finish False wr_create) = Inr ([], 0)"
  using finished_file(1) [of False "[]" wr_create] by (simp add: wr_holds_def wr_create_def ALIGN_def wpk_encode_def)


theorem wpk_round_trip_witness:
  "\<exists>w. wr_add_all True [(lit ''w'', U8, [2], [1, 2]), (lit ''v'', F16, [1], [3, 4])] wr_create = Inr w \<and>
     wpk_verify True (wr_finish True w) (wr_tensors w) = Inr ()"
proof -
  let ?items = "[(lit ''w'', U8, [2], [1, 2]), (lit ''v'', F16, [1], [3, 4])] :: wpk_item list"
  obtain w where w: "wr_add_all True ?items wr_create = Inr w"
      "ALIGN + wr_data_len w + length (wpk_encode (wr_tensors w)) < 2 ^ 64"
    by (simp add: encode_utf8_def wr_add_def bytes_of_def MAX_RANK_def Let_def wr_create_def next_multiple_of_def ALIGN_def wpk_encode_def encode_tensor_def lit_def)
  then show ?thesis using wpk_round_trip [OF w(1) _ _ w(2)] by (simp add: lit_def is_scalar_def)
qed

end
