(* ===== verification/Loader.thy ===== *)
theory Loader
  imports Wpk
begin

text \<open>
  Streaming the data region of a weight file into memory (\<open>wpk/load.rs\<close>). The kernel and the copy engine of the GPU run
  beside the program: an event says which of the reads in flight the kernel finishes next and with what result, or that
  the copy stream has done its next operation, and the program is run on every sequence of events the interfaces allow.
  A read that finishes puts bytes of the file where it was told to, perhaps fewer than it was asked for. Memory is a
  function from addresses to bytes; the CUDA calls may fail, as their world's list of outcomes says.
\<close>

definition DEPTH :: nat where "DEPTH = 4"

record slot =
  sl_chunk :: nat
  sl_ptr :: nat
  sl_want :: nat
  sl_done :: nat

record sqe =
  sq_off :: nat
  sq_addr :: nat
  sq_len :: nat
  sq_user :: nat

text \<open>\<open>rg_ring\<close> holds the reads in flight.\<close>

record reading =
  rg_ring :: "sqe list"
  rg_len :: nat
  rg_slots :: "slot list"
  rg_next :: nat
  rg_busy :: nat

text \<open>The closures \<open>target\<close> and \<open>landed\<close>, over the world they work on.\<close>

type_synonym 'w targeting = "nat \<Rightarrow> nat \<Rightarrow> 'w \<Rightarrow> (error + nat) \<times> 'w"
type_synonym 'w landing = "nat \<Rightarrow> nat \<Rightarrow> 'w \<Rightarrow> (error + unit) \<times> 'w"

definition sqe_of :: "nat \<Rightarrow> slot \<Rightarrow> sqe" where
  "sqe_of s sl = \<lparr>sq_off = ALIGN + (sl_chunk sl * CHUNK + sl_done sl), sq_addr = sl_ptr sl + sl_done sl,
     sq_len = sl_want sl - sl_done sl, sq_user = s\<rparr>"

definition submit :: "nat \<Rightarrow> reading \<Rightarrow> reading" where
  "submit s r = r\<lparr>rg_ring := rg_ring r @ [sqe_of s (rg_slots r ! s)], rg_busy := rg_busy r + 1\<rparr>"

definition refill :: "'w targeting \<Rightarrow> nat \<Rightarrow> reading \<Rightarrow> 'w \<Rightarrow> (error + unit) \<times> reading \<times> 'w" where
  "refill target s r w =
     (let chunk = rg_next r in
      if rg_len r \<le> chunk * CHUNK then (Inr (), r, w)
      else let r = r\<lparr>rg_next := chunk + 1\<rparr> in
        case target chunk s w of
          (Inl e, w) \<Rightarrow> (Inl e, r, w)
        | (Inr p, w) \<Rightarrow>
            let sl = \<lparr>sl_chunk = chunk, sl_ptr = p, sl_want = min CHUNK (rg_len r - chunk * CHUNK), sl_done = 0\<rparr>
            in (Inr (), submit s (r\<lparr>rg_slots := (rg_slots r)[s := sl]\<rparr>), w))"

text \<open>\<open>complete\<close>, from the completion it has waited for: the slot the read was for and its result.\<close>

definition complete :: "nat \<Rightarrow> int \<Rightarrow> reading \<Rightarrow> (error + nat option) \<times> reading" where
  "complete s res r =
     (let r = r\<lparr>rg_busy := rg_busy r - 1\<rparr> in
      if res < 0 then (Inl (Io (- res)), r)
      else if res = 0 then (Inl (Format (lit ''the file ends early'')), r)
      else let sl = rg_slots r ! s; sl = sl\<lparr>sl_done := sl_done sl + nat res\<rparr>; r = r\<lparr>rg_slots := (rg_slots r)[s := sl]\<rparr>
        in if sl_done sl = sl_want sl then (Inr (Some s), r) else (Inr None, submit s r))"

datatype event = Finished nat int | Copied

text \<open>What a read in flight may come to: an error, nothing, or some bytes, never past the end of the file.\<close>

definition event_ok :: "disk_file \<Rightarrow> reading \<Rightarrow> event \<Rightarrow> bool" where
  "event_ok f r ev = (case ev of
     Finished i res \<Rightarrow> i < length (rg_ring r) \<and>
       (0 < res \<longrightarrow> nat res \<le> sq_len (rg_ring r ! i) \<and> sq_off (rg_ring r ! i) + nat res \<le> length f)
   | Copied \<Rightarrow> True)"

type_synonym 'w world_ops = "(nat \<Rightarrow> bytes \<Rightarrow> 'w \<Rightarrow> 'w) \<times> ('w \<Rightarrow> 'w)"

text \<open>One turn of the loop of \<open>read\<close>, or a step of the copy stream beside it. The first of the world's operations writes
  bytes to memory, the second is a step of the stream.\<close>

definition read_step ::
  "disk_file \<Rightarrow> 'w world_ops \<Rightarrow> 'w targeting \<Rightarrow> 'w landing \<Rightarrow> event \<Rightarrow> (error + unit) \<times> reading \<times> 'w \<Rightarrow> (error + unit) \<times> reading \<times> 'w" where
  "read_step f ops target landed ev = (\<lambda>(result, r, w).
     case ev of
       Copied \<Rightarrow> (result, r, snd ops w)
     | Finished i res \<Rightarrow>
         let q = rg_ring r ! i;
             w = (if 0 < res then fst ops (sq_addr q) (take (nat res) (drop (sq_off q) f)) w else w);
             (c, r) = complete (sq_user q) res (r\<lparr>rg_ring := take i (rg_ring r) @ drop (i + 1) (rg_ring r)\<rparr>)
         in case (c, result) of
              (Inr (Some s), Inr _) \<Rightarrow>
                (case landed (sl_chunk (rg_slots r ! s)) s w of
                   (Inl e, w) \<Rightarrow> (Inl e, r, w)
                 | (Inr _, w) \<Rightarrow> refill target s r w)
            | (Inl e, Inr _) \<Rightarrow> (Inl e, r, w)
            | _ \<Rightarrow> (result, r, w))"

fun read_loop ::
  "disk_file \<Rightarrow> 'w world_ops \<Rightarrow> 'w targeting \<Rightarrow> 'w landing \<Rightarrow> event list \<Rightarrow> (error + unit) \<times> reading \<times> 'w \<Rightarrow>
     ((error + unit) \<times> reading \<times> 'w) option" where
  "read_loop f ops target landed [] st = (if rg_busy (fst (snd st)) = 0 then Some st else None)"
| "read_loop f ops target landed (ev # evs) st =
     (if rg_busy (fst (snd st)) = 0 then Some st else read_loop f ops target landed evs (read_step f ops target landed ev st))"

fun first_refills :: "'w targeting \<Rightarrow> nat list \<Rightarrow> reading \<Rightarrow> 'w \<Rightarrow> (error + unit) \<times> reading \<times> 'w" where
  "first_refills target [] r w = (Inr (), r, w)"
| "first_refills target (s # ss) r w =
     (case refill target s r w of (Inl e, r, w) \<Rightarrow> (Inl e, r, w) | (Inr _, r, w) \<Rightarrow> first_refills target ss r w)"

definition reading_new :: "nat \<Rightarrow> reading" where
  "reading_new len = \<lparr>rg_ring = [], rg_len = len, rg_slots = replicate DEPTH \<lparr>sl_chunk = 0, sl_ptr = 0, sl_want = 0, sl_done = 0\<rparr>,
     rg_next = 0, rg_busy = 0\<rparr>"

definition read_start :: "nat \<Rightarrow> 'w targeting \<Rightarrow> 'w \<Rightarrow> (error + unit) \<times> reading \<times> 'w" where
  "read_start len target w = first_refills target [0..<DEPTH] (reading_new len) w"

text \<open>\<open>read\<close> under a sequence of events: what it returns, the reads still in flight and the world then, if it returns
  within them.\<close>

definition read_region ::
  "disk_file \<Rightarrow> nat \<Rightarrow> 'w world_ops \<Rightarrow> 'w targeting \<Rightarrow> 'w landing \<Rightarrow> event list \<Rightarrow> 'w \<Rightarrow> ((error + unit) \<times> reading \<times> 'w) option" where
  "read_region f len ops target landed evs w = read_loop f ops target landed evs (read_start len target w)"

text \<open>The events are ones the kernel may cause, each in the state it occurs in.\<close>

fun events_ok :: "disk_file \<Rightarrow> 'w world_ops \<Rightarrow> 'w targeting \<Rightarrow> 'w landing \<Rightarrow> event list \<Rightarrow> (error + unit) \<times> reading \<times> 'w \<Rightarrow> bool" where
  "events_ok f ops target landed [] st \<longleftrightarrow> True"
| "events_ok f ops target landed (ev # evs) st \<longleftrightarrow>
     rg_busy (fst (snd st)) = 0 \<or> event_ok f (fst (snd st)) ev \<and> events_ok f ops target landed evs (read_step f ops target landed ev st)"

section \<open>To host memory\<close>

type_synonym memory = "nat \<Rightarrow> u8"

definition mem_write :: "nat \<Rightarrow> bytes \<Rightarrow> memory \<Rightarrow> memory" where
  "mem_write at bs m = (\<lambda>a. if at \<le> a \<and> a < at + length bs then bs ! (a - at) else m a)"

definition host_ops :: "memory world_ops" where
  "host_ops = (mem_write, \<lambda>m. m)"

definition host_target :: "nat \<Rightarrow> memory targeting" where
  "host_target base chunk s m = (Inr (base + chunk * CHUNK), m)"

definition host_landed :: "memory landing" where
  "host_landed chunk s m = (Inr (), m)"

definition to_host :: "disk_file \<Rightarrow> nat \<Rightarrow> nat \<Rightarrow> nat \<Rightarrow> event list \<Rightarrow> memory \<Rightarrow> ((error + unit) \<times> reading \<times> memory) option" where
  "to_host f len base dst_len evs m =
     (if dst_len < len then Some (Inl OutOfRange, reading_new len, m)
      else read_region f len host_ops (host_target base) host_landed evs m)"

section \<open>To the GPU\<close>

text \<open>An operation of the copy stream: a copy of host bytes to the device, or the record of a slot's event.\<close>

datatype stream_op = Upload nat nat nat | Record nat

record gpu =
  gp_mem :: memory
  gp_dev :: memory
  gp_stream :: "stream_op list"
  gp_cuda :: "error option list"

text \<open>The outcome of the next CUDA call.\<close>

definition cuda :: "gpu \<Rightarrow> (error + unit) \<times> gpu" where
  "cuda g = (case gp_cuda g of
     [] \<Rightarrow> (Inr (), g)
   | o1 # os \<Rightarrow> ((case o1 of None \<Rightarrow> Inr () | Some e \<Rightarrow> Inl e), g\<lparr>gp_cuda := os\<rparr>))"

fun stream_do :: "stream_op \<Rightarrow> gpu \<Rightarrow> gpu" where
  "stream_do (Upload to from n) g = g\<lparr>gp_dev := mem_write to (map (\<lambda>i. gp_mem g (from + i)) [0..<n]) (gp_dev g)\<rparr>"
| "stream_do (Record s) g = g"

definition stream_step :: "gpu \<Rightarrow> gpu" where
  "stream_step g = (case gp_stream g of [] \<Rightarrow> g | x # xs \<Rightarrow> stream_do x (g\<lparr>gp_stream := xs\<rparr>))"

text \<open>\<open>Event::sync\<close>: the stream runs until the slot's last record is done.\<close>

function event_run :: "nat \<Rightarrow> gpu \<Rightarrow> gpu" where
  "event_run s g = (if Record s \<in> set (gp_stream g) then event_run s (stream_step g) else g)"
  by pat_completeness auto
termination
proof (relation "measure (\<lambda>(s, g). length (gp_stream g))")
  fix s :: nat and g :: gpu assume "Record s \<in> set (gp_stream g)"
  then obtain x xs where "gp_stream g = x # xs" by (cases "gp_stream g") auto
  then show "((s, stream_step g), s, g) \<in> measure (\<lambda>(s, g). length (gp_stream g))" by (cases x) (simp_all add: stream_step_def)
qed simp

declare event_run.simps [simp del]

definition event_sync :: "nat \<Rightarrow> gpu \<Rightarrow> (error + unit) \<times> gpu" where
  "event_sync s g = (case cuda g of (Inl e, g) \<Rightarrow> (Inl e, g) | (Inr _, g) \<Rightarrow> (Inr (), event_run s g))"

definition stream_sync :: "gpu \<Rightarrow> (error + unit) \<times> gpu" where
  "stream_sync g = (case cuda g of (Inl e, g) \<Rightarrow> (Inl e, g) | (Inr _, g) \<Rightarrow> (Inr (), (stream_step ^^ length (gp_stream g)) g))"

definition within_buf :: "nat \<Rightarrow> nat \<Rightarrow> nat \<Rightarrow> bool" where
  "within_buf len at n \<longleftrightarrow> at + n \<le> len \<and> at + n < 2 ^ 64"

definition stream_upload :: "nat \<Rightarrow> nat \<Rightarrow> nat \<Rightarrow> nat \<Rightarrow> gpu \<Rightarrow> (error + unit) \<times> gpu" where
  "stream_upload dst_len at from n g =
     (if \<not> within_buf dst_len at n then (Inl OutOfRange, g)
      else case cuda g of (Inl e, g) \<Rightarrow> (Inl e, g) | (Inr _, g) \<Rightarrow> (Inr (), g\<lparr>gp_stream := gp_stream g @ [Upload at from n]\<rparr>))"

definition stream_record :: "nat \<Rightarrow> gpu \<Rightarrow> (error + unit) \<times> gpu" where
  "stream_record s g = (case cuda g of (Inl e, g) \<Rightarrow> (Inl e, g) | (Inr _, g) \<Rightarrow> (Inr (), g\<lparr>gp_stream := gp_stream g @ [Record s]\<rparr>))"

definition gpu_ops :: "gpu world_ops" where
  "gpu_ops = (\<lambda>at bs g. g\<lparr>gp_mem := mem_write at bs (gp_mem g)\<rparr>, stream_step)"

definition free_slot :: "nat \<Rightarrow> gpu targeting" where
  "free_slot base chunk s g = (case event_sync s g of (Inl e, g) \<Rightarrow> (Inl e, g) | (Inr _, g) \<Rightarrow> (Inr (base + s * CHUNK), g))"

definition upload_chunk :: "nat \<Rightarrow> nat \<Rightarrow> nat \<Rightarrow> gpu landing" where
  "upload_chunk base len dst_len chunk s g =
     (case stream_upload dst_len (chunk * CHUNK) (base + s * CHUNK) (min CHUNK (len - chunk * CHUNK)) g of
        (Inl e, g) \<Rightarrow> (Inl e, g)
      | (Inr _, g) \<Rightarrow> stream_record s g)"

definition to_device :: "disk_file \<Rightarrow> nat \<Rightarrow> nat \<Rightarrow> nat \<Rightarrow> event list \<Rightarrow> gpu \<Rightarrow> ((error + unit) \<times> reading \<times> gpu) option" where
  "to_device f len base dst_len evs g =
     (if dst_len < len then Some (Inl OutOfRange, reading_new len, g)
      else map_option (\<lambda>(read, r, g). case stream_sync g of (sync, g) \<Rightarrow> (rbind read (\<lambda>_. sync), r, g))
        (read_region f len gpu_ops (free_slot base) (upload_chunk base len dst_len) evs g))"

definition loader_upload :: "nat \<Rightarrow> nat \<Rightarrow> nat \<Rightarrow> gpu \<Rightarrow> (error + unit) \<times> gpu" where
  "loader_upload dst_len src n g = (case stream_upload dst_len 0 src n g of (Inl e, g) \<Rightarrow> (Inl e, g) | (Inr _, g) \<Rightarrow> stream_sync g)"

section \<open>The reads in flight\<close>

definition want :: "nat \<Rightarrow> nat \<Rightarrow> nat" where
  "want len chunk = min CHUNK (len - chunk * CHUNK)"

definition slot_ok :: "nat \<Rightarrow> nat \<Rightarrow> slot \<Rightarrow> bool" where
  "slot_ok len next sl \<longleftrightarrow> sl_want sl = want len (sl_chunk sl) \<and> sl_done sl < sl_want sl \<and> sl_chunk sl < next"

definition chunk_of :: "reading \<Rightarrow> nat \<Rightarrow> nat" where
  "chunk_of r s = sl_chunk (rg_slots r ! s)"

text \<open>The reads in flight are those of the slots \<open>us\<close>, each for a chunk of its own that is not among the landed ones.\<close>

definition flying :: "nat \<Rightarrow> nat set \<Rightarrow> nat list \<Rightarrow> reading \<Rightarrow> bool" where
  "flying len L us r \<longleftrightarrow>
     rg_len r = len \<and> length (rg_slots r) = DEPTH \<and> rg_busy r = length us \<and> distinct us \<and> set us \<subseteq> {..<DEPTH} \<and>
     rg_ring r = map (\<lambda>s. sqe_of s (rg_slots r ! s)) us \<and> L \<subseteq> {..<rg_next r} \<and>
     (\<forall>s\<in>set us. slot_ok len (rg_next r) (rg_slots r ! s) \<and> chunk_of r s \<notin> L) \<and> inj_on (chunk_of r) (set us)"

type_synonym filling = "nat \<Rightarrow> (nat \<times> nat \<times> nat) option"

definition active :: "nat list \<Rightarrow> reading \<Rightarrow> filling" where
  "active us r = (\<lambda>s. if s \<in> set us then let sl = rg_slots r ! s in Some (sl_chunk sl, sl_ptr sl, sl_done sl) else None)"

text \<open>A read leaves the ring, its slot's entry changed.\<close>

definition landed_off :: "nat \<Rightarrow> nat \<Rightarrow> slot \<Rightarrow> reading \<Rightarrow> reading" where
  "landed_off i s x r = r\<lparr>rg_ring := take i (rg_ring r) @ drop (i + 1) (rg_ring r), rg_busy := rg_busy r - 1, rg_slots := (rg_slots r)[s := x]\<rparr>"

lemma without_nth:
  assumes "distinct us" "i < length us"
  shows "set (take i us @ drop (i + 1) us) = set us - {us ! i}" "distinct (take i us @ drop (i + 1) us)" "us ! i \<notin> set (take i us @ drop (i + 1) us)"
proof -
  have "us = take i us @ us ! i # drop (i + 1) us" using assms(2) by (simp add: id_take_nth_drop)
  then obtain a b where ab: "us = a @ us ! i # b" "take i us = a" "drop (i + 1) us = b" by blast
  have "distinct (a @ us ! i # b)" using assms(1) ab(1) by metis
  moreover have "set us = insert (us ! i) (set a \<union> set b)" by (subst ab(1)) auto
  ultimately show "set (take i us @ drop (i + 1) us) = set us - {us ! i}" "distinct (take i us @ drop (i + 1) us)" "us ! i \<notin> set (take i us @ drop (i + 1) us)"
    unfolding ab(2,3) by auto
qed

lemma flying_user: "flying len L us r \<Longrightarrow> i < length us \<Longrightarrow> us ! i \<in> set us \<and> us ! i < DEPTH"
  by (force simp: flying_def)

lemma flying_cut:
  assumes "flying len L us r" "i < length us" "us' = take i us @ drop (i + 1) us"
  shows "flying len L us' (landed_off i (us ! i) x r)" "active us' (landed_off i (us ! i) x r) = (active us r)(us ! i := None)"
    "set us' = set us - {us ! i}" "\<forall>s\<in>set us'. chunk_of (landed_off i (us ! i) x r) s = chunk_of r s"
proof -
  note us = without_nth [of us i, folded assms(3)]
  have d: "distinct us" using assms(1) by (simp add: flying_def)
  have same: "\<forall>s\<in>set us'. (rg_slots r)[us ! i := x] ! s = rg_slots r ! s" using us(3) [OF d assms(2)] by (metis nth_list_update_neq)
  then show "\<forall>s\<in>set us'. chunk_of (landed_off i (us ! i) x r) s = chunk_of r s" by (simp add: landed_off_def chunk_of_def)
  show "set us' = set us - {us ! i}" using us(1) [OF d assms(2)] .
  have "length us' = length us - 1" using assms(2,3) by auto
  moreover have "take i (rg_ring r) @ drop (i + 1) (rg_ring r) = map (\<lambda>s. sqe_of s (rg_slots r ! s)) us'"
    using assms(1,3) by (simp add: flying_def take_map drop_map)
  moreover have "map (\<lambda>s. sqe_of s (rg_slots r ! s)) us' = map (\<lambda>s. sqe_of s ((rg_slots r)[us ! i := x] ! s)) us'"
    using same by (intro map_cong) simp_all
  ultimately show "flying len L us' (landed_off i (us ! i) x r)"
    using assms(1) us [OF d assms(2)] same unfolding flying_def landed_off_def
    by (auto simp: chunk_of_def inj_on_def)
  show "active us' (landed_off i (us ! i) x r) = (active us r)(us ! i := None)"
    using us [OF d assms(2)] same by (auto simp: active_def landed_off_def fun_eq_iff Let_def)
qed

lemma submit_simps [simp]: "chunk_of (submit s r) = chunk_of r" "rg_slots (submit s r) = rg_slots r" "rg_next (submit s r) = rg_next r"
  "rg_len (submit s r) = rg_len r" "rg_busy (submit s r) = rg_busy r + 1" "rg_ring (submit s r) = rg_ring r @ [sqe_of s (rg_slots r ! s)]"
  by (simp_all add: submit_def chunk_of_def fun_eq_iff)

lemma flying_submit:
  assumes "flying len L us r" "s \<notin> set us" "s < DEPTH" "slot_ok len (rg_next r) (rg_slots r ! s)" "chunk_of r s \<notin> L" "chunk_of r s \<notin> chunk_of r ` set us"
  shows "flying len L (us @ [s]) (submit s r)" "active (us @ [s]) (submit s r) = (active us r)(s := active [s] r s)"
proof -
  have "inj_on (chunk_of r) (insert s (set us))" using assms by (simp add: flying_def)
  then show "flying len L (us @ [s]) (submit s r)" using assms by (simp add: flying_def)
  show "active (us @ [s]) (submit s r) = (active us r)(s := active [s] r s)" by (auto simp: active_def fun_eq_iff)
qed

lemma flying_slot:
  assumes "flying len L us r" "s \<notin> set us"
  shows "flying len L us (r\<lparr>rg_slots := (rg_slots r)[s := x]\<rparr>)" "active us (r\<lparr>rg_slots := (rg_slots r)[s := x]\<rparr>) = active us r"
    "\<forall>t\<in>set us. chunk_of (r\<lparr>rg_slots := (rg_slots r)[s := x]\<rparr>) t = chunk_of r t"
proof -
  have same: "\<forall>t\<in>set us. (rg_slots r)[s := x] ! t = rg_slots r ! t" using assms(2) by (metis nth_list_update_neq)
  then show "flying len L us (r\<lparr>rg_slots := (rg_slots r)[s := x]\<rparr>)" "active us (r\<lparr>rg_slots := (rg_slots r)[s := x]\<rparr>) = active us r"
      "\<forall>t\<in>set us. chunk_of (r\<lparr>rg_slots := (rg_slots r)[s := x]\<rparr>) t = chunk_of r t"
    using assms(1) by (auto simp: flying_def active_def fun_eq_iff chunk_of_def inj_on_def)
qed

lemma flying_next:
  assumes "flying len L us r"
  shows "flying len L us (r\<lparr>rg_next := rg_next r + 1\<rparr>)"
  using assms by (force simp: flying_def slot_ok_def chunk_of_def inj_on_def)

text \<open>The bytes still to arrive: of the chunks not begun and of the reads in flight.\<close>

definition to_come :: "reading \<Rightarrow> nat" where
  "to_come r = (rg_len r - rg_next r * CHUNK) + sum_list (map sq_len (rg_ring r))"

lemma refill_to_come:
  assumes "s < length (rg_slots r)"
  shows "to_come (fst (snd (refill target s r w))) \<le> to_come r"
  using assms by (auto simp: refill_def to_come_def submit_def sqe_of_def Let_def split: prod.splits sum.splits)

lemma sum_without:
  assumes "i < length qs"
  shows "sum_list (map sq_len qs) = sq_len (qs ! i) + sum_list (map sq_len (take i qs @ drop (i + 1) qs))"
proof -
  have "qs = take i qs @ qs ! i # drop (i + 1) qs" using assms by (simp add: id_take_nth_drop)
  then have "sum_list (map sq_len qs) = sum_list (map sq_len (take i qs @ qs ! i # drop (i + 1) qs))" by simp
  then show ?thesis by simp
qed

lemma complete_off:
  "complete s res (r\<lparr>rg_ring := take i (rg_ring r) @ drop (Suc i) (rg_ring r)\<rparr>) =
     (if res < 0 then (Inl (Io (- res)), landed_off i s (rg_slots r ! s) r)
      else if res = 0 then (Inl (Format (lit ''the file ends early'')), landed_off i s (rg_slots r ! s) r)
      else let sl = rg_slots r ! s; x = sl\<lparr>sl_done := sl_done sl + nat res\<rparr>
        in if sl_done x = sl_want x then (Inr (Some s), landed_off i s x r) else (Inr None, submit s (landed_off i s x r)))"
  by (simp add: complete_def landed_off_def Let_def)

text \<open>How many reads finish in a sequence of events.\<close>

definition finishes :: "event list \<Rightarrow> nat" where
  "finishes evs = length (filter (\<lambda>ev. ev \<noteq> Copied) evs)"

section \<open>What the reader promises\<close>

text \<open>A place where chunks are put: \<open>Inv ok L A w\<close> says that the chunks \<open>L\<close> have landed in world \<open>w\<close>, that slot \<open>s\<close> is
  being filled as \<open>A s\<close> tells (its chunk, address and the bytes arrived), and that nothing failed if \<open>ok\<close>.\<close>

locale chunk_sink =
  fixes f :: disk_file and len :: nat and ops :: "'w world_ops" and target :: "'w targeting" and landed :: "'w landing"
    and Inv :: "bool \<Rightarrow> nat set \<Rightarrow> filling \<Rightarrow> 'w \<Rightarrow> bool"
  assumes weaken: "Inv ok L A w \<Longrightarrow> Inv False L A w"
    and cancel: "Inv ok L A w \<Longrightarrow> Inv ok L (A(s := None)) w"
    and copied: "Inv ok L A w \<Longrightarrow> Inv ok L A (snd ops w)"
    and target_ok: "Inv True L A w \<Longrightarrow> s < DEPTH \<Longrightarrow> A s = None \<Longrightarrow> target chunk s w = (Inr p, w') \<Longrightarrow> Inv True L (A(s \<mapsto> (chunk, p, 0))) w'"
    and target_err: "Inv True L A w \<Longrightarrow> target chunk s w = (Inl e, w') \<Longrightarrow> Inv False L A w'"
    and arrive: "Inv ok L A w \<Longrightarrow> A s = Some (chunk, p, d) \<Longrightarrow> s < DEPTH \<Longrightarrow> chunk \<notin> L \<Longrightarrow>
      (\<forall>s' p' d'. A s' = Some (chunk, p', d') \<longrightarrow> s' = s) \<Longrightarrow> d + length bs \<le> want len chunk \<Longrightarrow>
      (\<forall>i < length bs. bs ! i = f ! (ALIGN + (chunk * CHUNK + d + i))) \<Longrightarrow>
      Inv ok L (A(s \<mapsto> (chunk, p, d + length bs))) (fst ops (p + d) bs w)"
    and landed_ok: "Inv True L A w \<Longrightarrow> A s = Some (chunk, p, want len chunk) \<Longrightarrow> s < DEPTH \<Longrightarrow> landed chunk s w = (Inr (), w') \<Longrightarrow>
      Inv True (insert chunk L) (A(s := None)) w'"
    and landed_err: "Inv True L A w \<Longrightarrow> A s = Some (chunk, p, want len chunk) \<Longrightarrow> s < DEPTH \<Longrightarrow> landed chunk s w = (Inl e, w') \<Longrightarrow>
      Inv False L (A(s := None)) w'"
begin

text \<open>While nothing has failed, every chunk begun has landed or is in flight, and no slot of \<open>S\<close> is idle while chunks are left.\<close>

definition complete_so_far :: "nat set \<Rightarrow> nat set \<Rightarrow> nat list \<Rightarrow> reading \<Rightarrow> bool" where
  "complete_so_far S L us r \<longleftrightarrow> L \<union> chunk_of r ` set us = {..<rg_next r} \<and> (len \<le> rg_next r * CHUNK \<or> S \<subseteq> set us)"

definition good :: "nat set \<Rightarrow> nat set \<Rightarrow> (error + unit) \<times> reading \<times> 'w \<Rightarrow> bool" where
  "good S T = (\<lambda>(result, r, w). \<exists>L us. set us \<subseteq> T \<and> flying len L us r \<and> Inv (result = Inr ()) L (active us r) w \<and>
     (result = Inr () \<longrightarrow> complete_so_far S L us r))"

lemma goodI:
  "set us \<subseteq> T \<Longrightarrow> flying len L us r \<Longrightarrow> Inv (result = Inr ()) L (active us r) w \<Longrightarrow> (result = Inr () \<Longrightarrow> complete_so_far S L us r) \<Longrightarrow>
     good S T (result, r, w)"
  unfolding good_def by blast

lemma good_mono: "good S T st \<Longrightarrow> T \<subseteq> T' \<Longrightarrow> good S T' st"
  unfolding good_def by (cases st) (simp, blast)

lemma refill_good:
  assumes fly: "flying len L us r" and inv: "Inv True L (active us r) w" and all: "L \<union> chunk_of r ` set us = {..<rg_next r}"
    and s: "s \<notin> set us" "s < DEPTH" and S: "S \<subseteq> insert s (set us) \<or> len \<le> rg_next r * CHUNK"
  shows "good S (insert s (set us)) (refill target s r w)"
proof (cases "len \<le> rg_next r * CHUNK")
  case True
  then have "refill target s r w = (Inr (), r, w)" using fly by (simp add: refill_def Let_def flying_def)
  moreover have "complete_so_far S L us r" using all True by (simp add: complete_so_far_def)
  ultimately show ?thesis using fly inv by (auto simp: good_def)
next
  case False
  let ?c = "rg_next r" and ?r1 = "r\<lparr>rg_next := rg_next r + 1\<rparr>"
  have r1: "flying len L us ?r1" "active us ?r1 = active us r" using flying_next [OF fly] by (simp_all add: active_def fun_eq_iff)
  show ?thesis
  proof (cases "target ?c s w")
    case (Pair res w')
    show ?thesis
    proof (cases res)
      case (Inl e)
      then have "refill target s r w = (Inl e, ?r1, w')" using False fly Pair by (simp add: refill_def Let_def flying_def)
      moreover have "Inv False L (active us ?r1) w'" using target_err [OF inv] Pair Inl r1(2) by simp
      ultimately show ?thesis using r1(1) by (auto simp: good_def)
    next
      case (Inr p)
      define sl where "sl = \<lparr>sl_chunk = ?c, sl_ptr = p, sl_want = want len ?c, sl_done = 0\<rparr>"
      define r2 where "r2 = ?r1\<lparr>rg_slots := (rg_slots ?r1)[s := sl]\<rparr>"
      have e: "refill target s r w = (Inr (), submit s r2, w')"
        using False fly Pair Inr by (simp add: refill_def Let_def flying_def r2_def sl_def want_def)
      note r2 = flying_slot [OF r1(1) s(1), of sl, folded r2_def]
      have sl: "rg_slots r2 ! s = sl" using fly s(2) by (simp add: r2_def flying_def)
      have c: "chunk_of r2 s = ?c" by (simp add: chunk_of_def sl) (simp add: sl_def)
      have im: "chunk_of r2 ` set us = chunk_of r ` set us" using r2(3) by (auto simp: chunk_of_def image_iff)
      have new: "?c \<notin> L" "?c \<notin> chunk_of r2 ` set us" using all im by auto
      have ok: "slot_ok len (rg_next r2) (rg_slots r2 ! s)" using False by (simp add: sl) (simp add: sl_def r2_def slot_ok_def want_def CHUNK_def)
      note sub = flying_submit [OF r2(1) s ok, unfolded c, OF new]
      have "active (us @ [s]) (submit s r2) = (active us r)(s \<mapsto> (?c, p, 0))"
        using sub(2) r2(2) r1(2) by (simp add: active_def [of "[s]"] sl) (simp add: sl_def)
      then have "Inv True L (active (us @ [s]) (submit s r2)) w'"
        using target_ok [OF inv s(2)] s(1) Pair Inr by (simp add: active_def)
      moreover have "complete_so_far S L (us @ [s]) (submit s r2)"
        using all im c S False by (auto simp: complete_so_far_def r2_def lessThan_Suc)
      ultimately show ?thesis using sub(1) unfolding e by (intro goodI [of "us @ [s]"]) auto
    qed
  qed
qed

lemma first_refills_good:
  assumes "flying len L us r" "Inv True L (active us r) w" "complete_so_far S L us r"
    "set us \<inter> set ss = {}" "distinct ss" "set ss \<subseteq> {..<DEPTH}"
  shows "good (S \<union> set ss) {..<DEPTH} (first_refills target ss r w)"
  using assms
proof (induction ss arbitrary: L us r w S)
  case Nil
  then show ?case by (auto simp: good_def flying_def)
next
  case (Cons s ss)
  obtain res r' w' where e: "refill target s r w = (res, r', w')" by (metis prod_cases3)
  have "insert s S \<subseteq> insert s (set us) \<or> len \<le> rg_next r * CHUNK" using Cons.prems(3) by (auto simp: complete_so_far_def)
  then have "good (insert s S) (insert s (set us)) (res, r', w')"
    using refill_good [of L us r w s "insert s S"] Cons.prems e by (auto simp: complete_so_far_def)
  then obtain L' us' where g: "set us' \<subseteq> insert s (set us)" "flying len L' us' r'" "Inv (res = Inr ()) L' (active us' r') w'"
      "res = Inr () \<Longrightarrow> complete_so_far (insert s S) L' us' r'" by (auto simp: good_def)
  show ?case
  proof (cases res)
    case (Inl x)
    then show ?thesis using e g by (auto simp: good_def flying_def)
  next
    case (Inr x)
    have "good (insert s S \<union> set ss) {..<DEPTH} (first_refills target ss r' w')"
      using g Inr Cons.prems by (intro Cons.IH [of L' us']) auto
    then show ?thesis using e Inr by simp
  qed
qed

lemma start_good:
  assumes "Inv True {} (\<lambda>_. None) w"
  shows "good {..<DEPTH} {..<DEPTH} (read_start len target w)"
proof -
  have "flying len {} [] (reading_new len)" by (simp add: flying_def reading_new_def)
  moreover have "active [] (reading_new len) = (\<lambda>_. None)" by (simp add: active_def fun_eq_iff)
  ultimately have "good ({} \<union> set [0..<DEPTH]) {..<DEPTH} (first_refills target [0..<DEPTH] (reading_new len) w)"
    using assms by (intro first_refills_good) (auto simp: complete_so_far_def reading_new_def)
  then show ?thesis by (simp add: read_start_def atLeast0LessThan)
qed

lemma fill_chunk:
  assumes fly: "flying len L us r" and inv: "Inv ok L (active us r) w" and i: "i < length us" and res: "0 < res"
    and ev: "event_ok f r (Finished i res)"
  defines "s \<equiv> us ! i" and "sl \<equiv> rg_slots r ! (us ! i)"
  shows "Inv ok L ((active us r)(s \<mapsto> (sl_chunk sl, sl_ptr sl, sl_done sl + nat res)))
     (fst ops (sq_addr (rg_ring r ! i)) (take (nat res) (drop (sq_off (rg_ring r ! i)) f)) w)"
proof -
  have s: "s \<in> set us" using i by (simp add: s_def)
  have q: "rg_ring r ! i = sqe_of s sl" using fly i by (simp add: flying_def s_def sl_def)
  let ?bs = "take (nat res) (drop (sq_off (sqe_of s sl)) f)"
  have n: "nat res \<le> sl_want sl - sl_done sl" "ALIGN + (sl_chunk sl * CHUNK + sl_done sl) + nat res \<le> length f"
    using ev res q by (auto simp: event_ok_def sqe_of_def)
  have ok: "slot_ok len (rg_next r) sl" "sl_chunk sl \<notin> L" using fly s by (auto simp: flying_def s_def sl_def chunk_of_def)
  have A: "active us r s = Some (sl_chunk sl, sl_ptr sl, sl_done sl)" using s by (simp add: active_def s_def sl_def Let_def)
  have other: "\<forall>s' p' d'. active us r s' = Some (sl_chunk sl, p', d') \<longrightarrow> s' = s"
    using fly s by (auto simp: active_def Let_def flying_def s_def sl_def chunk_of_def inj_on_def split: if_splits)
  have len: "length ?bs = nat res" using n by (simp add: sqe_of_def)
  have "s < DEPTH" using fly s by (auto simp: flying_def)
  moreover have "\<forall>j < length ?bs. ?bs ! j = f ! (ALIGN + (sl_chunk sl * CHUNK + sl_done sl + j))"
    using n len by (auto simp: sqe_of_def ac_simps)
  moreover have "sl_done sl + length ?bs \<le> want len (sl_chunk sl)" using n ok(1) unfolding len slot_ok_def by linarith
  ultimately show ?thesis
    using arrive [OF inv A _ ok(2) other, of ?bs] len unfolding q by (simp add: sqe_of_def)
qed

lemma chunk_landed:
  assumes fly: "flying len L us r" and i: "i < length us" and x: "rg_slots r ! (us ! i) = sl" "sl_chunk x = sl_chunk sl"
    and inv: "Inv True L ((active us r)(us ! i \<mapsto> (sl_chunk sl, p, want len (sl_chunk sl)))) w" and so_far: "complete_so_far {..<DEPTH} L us r"
  shows "good {..<DEPTH} {..<DEPTH} (case landed (sl_chunk sl) (us ! i) w of
     (Inl e, w) \<Rightarrow> (Inl e, landed_off i (us ! i) x r, w) | (Inr _, w) \<Rightarrow> refill target (us ! i) (landed_off i (us ! i) x r) w)"
proof -
  define s where "s = us ! i"
  define us' where "us' = take i us @ drop (i + 1) us"
  define r' where "r' = landed_off i s x r"
  note cut = flying_cut(1,2) [OF fly i us'_def, of x, folded s_def, folded r'_def] flying_cut(3) [OF fly i us'_def, folded s_def]
    flying_cut(4) [OF fly i us'_def, of x, folded s_def, folded r'_def]
  have s: "s \<in> set us" "s < DEPTH" "s \<notin> set us'" using flying_user [OF fly i] cut(3) by (auto simp: s_def)
  have c: "chunk_of r s = sl_chunk sl" using x(1) by (simp add: chunk_of_def s_def)
  have nxt: "rg_next r' = rg_next r" by (simp add: r'_def landed_off_def)
  have img: "chunk_of r' ` set us' = chunk_of r ` set us - {sl_chunk sl}"
    using cut(3,4) fly s(1) c by (auto simp: flying_def inj_on_def image_iff)
  have low: "sl_chunk sl < rg_next r" using fly s(1) x(1) by (auto simp: flying_def slot_ok_def s_def)
  have A: "((active us r)(s \<mapsto> y))(s := None) = active us' r'" for y using cut(2) by simp
  have fly': "flying len (insert (sl_chunk sl) L) us' r'"
    using cut(1) img low nxt unfolding flying_def by (auto simp: image_iff)
  show ?thesis
  proof (cases "landed (sl_chunk sl) s w")
    case (Pair res w')
    show ?thesis
    proof (cases res)
      case (Inl e)
      have "Inv False L (active us' r') w'" using landed_err [OF inv [folded s_def] _ s(2), of "sl_chunk sl" p e w'] Pair Inl A by simp
      then have "good {..<DEPTH} {..<DEPTH} (Inl e, r', w')" using cut(1,3) fly by (intro goodI [of us' _ L]) (auto simp: flying_def)
      then show ?thesis using Pair Inl by (simp add: s_def [symmetric] r'_def)
    next
      case (Inr y)
      have "Inv True (insert (sl_chunk sl) L) (active us' r') w'"
        using landed_ok [OF inv [folded s_def] _ s(2), of "sl_chunk sl" p w'] Pair Inr A by simp
      moreover have "insert (sl_chunk sl) L \<union> chunk_of r' ` set us' = {..<rg_next r'}"
        using so_far img low nxt s(1) c by (auto simp: complete_so_far_def)
      moreover have "{..<DEPTH} \<subseteq> insert s (set us') \<or> len \<le> rg_next r' * CHUNK" using so_far cut(3) nxt by (auto simp: complete_so_far_def)
      ultimately have "good {..<DEPTH} (insert s (set us')) (refill target s r' w')" using fly' s by (intro refill_good)
      moreover have "insert s (set us') \<subseteq> {..<DEPTH}" using s(2) cut(1) by (auto simp: flying_def)
      ultimately have "good {..<DEPTH} {..<DEPTH} (refill target s r' w')" by (rule good_mono)
      then show ?thesis using Pair Inr by (simp add: s_def [symmetric] r'_def)
    qed
  qed
qed

lemma step_good:
  assumes "good {..<DEPTH} {..<DEPTH} (result, r, w)" "event_ok f r ev"
  shows "good {..<DEPTH} {..<DEPTH} (read_step f ops target landed ev (result, r, w))"
proof (cases ev)
  case Copied
  then show ?thesis using assms(1) copied by (auto simp: good_def read_step_def) blast+
next
  case (Finished i res)
  obtain L us where g: "flying len L us r" "Inv (result = Inr ()) L (active us r) w" "result = Inr () \<Longrightarrow> complete_so_far {..<DEPTH} L us r"
    using assms(1) by (auto simp: good_def)
  have i: "i < length us" using assms(2) g(1) Finished by (simp add: event_ok_def flying_def)
  define s where "s = us ! i"
  define sl where "sl = rg_slots r ! s"
  define us' where "us' = take i us @ drop (i + 1) us"
  have user: "sq_user (rg_ring r ! i) = s" using g(1) i by (simp add: flying_def s_def sqe_of_def)
  have s: "s \<in> set us" "s < DEPTH" using flying_user [OF g(1) i] by (auto simp: s_def)
  have ok: "slot_ok len (rg_next r) sl" using g(1) s(1) by (auto simp: flying_def sl_def)
  note cut = flying_cut [OF g(1) i us'_def, folded s_def]
  have sub: "set us' \<subseteq> {..<DEPTH}" "s \<notin> set us'" using cut(3) g(1) by (auto simp: flying_def)
  show ?thesis
  proof (cases "0 < res")
    case False
    let ?r = "landed_off i s sl r"
    have "Inv (result = Inr ()) L (active us' ?r) w" using cancel [OF g(2)] cut(2) by simp
    then have "Inv False L (active us' ?r) w" by (rule weaken)
    then have "good {..<DEPTH} {..<DEPTH} (Inl e, ?r, w)" for e using cut(1) sub(1) by (intro goodI) auto
    then show ?thesis using False Finished user by (cases result) (auto simp: read_step_def complete_off sl_def Let_def)
  next
    case True
    define x where "x = sl\<lparr>sl_done := sl_done sl + nat res\<rparr>"
    let ?w = "fst ops (sq_addr (rg_ring r ! i)) (take (nat res) (drop (sq_off (rg_ring r ! i)) f)) w" and ?r = "landed_off i s x r"
    have ev: "event_ok f r (Finished i res)" using assms(2) Finished by simp
    note fill = fill_chunk [OF g(1,2) i True ev, folded s_def, folded sl_def]
    have cmp: "complete s res (r\<lparr>rg_ring := take i (rg_ring r) @ drop (Suc i) (rg_ring r)\<rparr>) =
        (if sl_done x = sl_want x then (Inr (Some s), ?r) else (Inr None, submit s ?r))"
      using True unfolding complete_off x_def by (simp add: Let_def sl_def)
    have x: "rg_slots ?r ! s = x" using s g(1) by (simp add: landed_off_def flying_def)
    show ?thesis
    proof (cases "sl_done x = sl_want x")
      case whole: True
      have Inv: "Inv (result = Inr ()) L ((active us r)(s \<mapsto> (sl_chunk sl, sl_ptr sl, want len (sl_chunk sl)))) ?w"
        using fill whole ok by (simp add: x_def slot_ok_def)
      show ?thesis
      proof (cases result)
        case (Inl e)
        have "Inv False L (active us' ?r) ?w" using weaken [OF cancel [OF Inv, of s]] cut(2) by simp
        then have "good {..<DEPTH} {..<DEPTH} (Inl e, ?r, ?w)" using cut(1) sub(1) by (intro goodI) auto
        then show ?thesis using Inl Finished user True whole by (simp add: read_step_def cmp Let_def)
      next
        case (Inr y)
        note lnd = chunk_landed [OF g(1) i, folded s_def, OF sl_def [symmetric], of x "sl_ptr sl" ?w]
        have "sl_chunk x = sl_chunk sl" by (simp add: x_def)
        then show ?thesis using lnd Inv g(3) Inr Finished user True whole x
          by (simp add: read_step_def cmp Let_def)
      qed
    next
      case part: False
      have c: "chunk_of ?r s = chunk_of r s" "chunk_of r s = sl_chunk sl" using x by (simp_all add: chunk_of_def sl_def x_def)
      have nxt: "rg_next ?r = rg_next r" by (simp add: landed_off_def)
      have img: "chunk_of ?r ` set us' = chunk_of r ` set us - {sl_chunk sl}"
        using cut(3,4) g(1) s(1) c by (auto simp: flying_def inj_on_def image_iff)
      have n: "sl_done x < sl_want x" using ev True part g(1) i s_def [symmetric] sl_def [symmetric] ok
        by (auto simp: event_ok_def flying_def sqe_of_def x_def slot_ok_def)
      have "slot_ok len (rg_next ?r) (rg_slots ?r ! s)" using ok n unfolding x nxt by (simp add: slot_ok_def x_def)
      moreover have "chunk_of ?r s \<notin> L" using g(1) s(1) unfolding c(1) by (simp add: flying_def)
      ultimately have fly: "flying len L (us' @ [s]) (submit s ?r)" "active (us' @ [s]) (submit s ?r) = (active us' ?r)(s := active [s] ?r s)"
        using flying_submit [OF cut(1) sub(2) s(2), of x] img c by auto
      have "Inv (result = Inr ()) L (active (us' @ [s]) (submit s ?r)) ?w" using fill unfolding fly(2) cut(2) by (simp add: active_def [of "[s]"] x) (simp add: x_def)
      moreover have "complete_so_far {..<DEPTH} L (us' @ [s]) (submit s ?r)" if "result = Inr ()"
      proof -
        have "sl_chunk sl \<in> chunk_of r ` set us" using c(2) s(1) by (metis imageI)
        then have "chunk_of ?r ` set (us' @ [s]) = chunk_of r ` set us" using img c by auto
        moreover have "set (us' @ [s]) = set us" using cut(3) s(1) by auto
        ultimately show ?thesis using g(3) [OF that] unfolding complete_so_far_def submit_simps nxt by metis
      qed
      ultimately have "good {..<DEPTH} {..<DEPTH} (result, submit s ?r, ?w)" using fly(1) sub(1) s(2) by (intro goodI [of "us' @ [s]"]) auto
      then show ?thesis using Finished user True part
        by (cases result) (simp_all add: read_step_def cmp Let_def)
    qed
  qed
qed

lemma loop_good:
  "good {..<DEPTH} {..<DEPTH} st \<Longrightarrow> events_ok f ops target landed evs st \<Longrightarrow> read_loop f ops target landed evs st = Some (result, r, w) \<Longrightarrow>
     good {..<DEPTH} {..<DEPTH} (result, r, w) \<and> rg_busy r = 0"
proof (induction evs arbitrary: st)
  case (Cons ev evs)
  then show ?case using step_good [of "fst st" "fst (snd st)" "snd (snd st)" ev] by (auto split: if_splits)
qed (auto split: if_splits)

lemma step_to_come:
  assumes "good {..<DEPTH} {..<DEPTH} (result, r, w)" "event_ok f r (Finished i res)"
  shows "to_come (fst (snd (read_step f ops target landed (Finished i res) (result, r, w)))) < to_come r"
proof -
  obtain L us where g: "flying len L us r" using assms(1) by (auto simp: good_def)
  have i: "i < length us" "i < length (rg_ring r)" using assms(2) g by (simp_all add: event_ok_def flying_def)
  define s where "s = us ! i"
  define sl where "sl = rg_slots r ! s"
  have q: "rg_ring r ! i = sqe_of s sl" using g i by (simp add: flying_def s_def sl_def)
  have s: "s \<in> set us" "s < length (rg_slots r)" using flying_user [OF g i(1)] g by (auto simp: s_def flying_def)
  have pos: "sl_done sl < sl_want sl" using g s(1) by (auto simp: flying_def slot_ok_def sl_def)
  have off: "to_come (landed_off i s x r) + (sl_want sl - sl_done sl) = to_come r" for x
    using sum_without [OF i(2)] q by (simp add: to_come_def landed_off_def sqe_of_def)
  have sub: "to_come (submit s (landed_off i s x r)) = to_come (landed_off i s x r) + (sl_want x - sl_done x)" for x
    using s(2) by (simp add: to_come_def landed_off_def sqe_of_def)
  have ref: "to_come (fst (snd (refill target s (landed_off i s x r) v))) \<le> to_come (landed_off i s x r)" for x v
    using s(2) by (intro refill_to_come) (simp add: landed_off_def)
  have less: "to_come (landed_off i s x r) < to_come r" for x using off [of x] pos by linarith
  have user: "sq_user (rg_ring r ! i) = s" by (simp add: q sqe_of_def)
  show ?thesis
  proof (cases "0 < res")
    case False
    then show ?thesis using user less by (cases result) (auto simp: read_step_def complete_off Let_def)
  next
    case True
    define x where "x = sl\<lparr>sl_done := sl_done sl + nat res\<rparr>"
    have cmp: "complete s res (r\<lparr>rg_ring := take i (rg_ring r) @ drop (Suc i) (rg_ring r)\<rparr>) =
        (if sl_done x = sl_want x then (Inr (Some s), landed_off i s x r) else (Inr None, submit s (landed_off i s x r)))"
      using True unfolding complete_off x_def by (simp add: Let_def sl_def)
    have "sl_want x - sl_done x < sl_want sl - sl_done sl" using True pos by (simp add: x_def)
    then have part: "to_come (submit s (landed_off i s x r)) < to_come r" using sub [of x] off [of x] by linarith
    show ?thesis using part less [of x] ref [of x] user True
      by (cases result) (auto simp: read_step_def cmp Let_def split: sum.splits prod.splits intro: le_less_trans)
  qed
qed

lemma loop_returns:
  "good {..<DEPTH} {..<DEPTH} st \<Longrightarrow> events_ok f ops target landed evs st \<Longrightarrow> to_come (fst (snd st)) \<le> finishes evs \<Longrightarrow>
     read_loop f ops target landed evs st \<noteq> None"
proof (induction evs arbitrary: st)
  case Nil
  obtain L us where g: "flying len L us (fst (snd st))" using Nil(1) by (auto simp: good_def)
  then have "\<forall>s\<in>set us. 0 < sq_len (sqe_of s (rg_slots (fst (snd st)) ! s))" by (auto simp: flying_def slot_ok_def sqe_of_def)
  moreover have "sum_list (map (\<lambda>s. sq_len (sqe_of s (rg_slots (fst (snd st)) ! s))) us) = 0"
    using Nil(3) g by (simp add: to_come_def flying_def finishes_def comp_def)
  ultimately have "us = []" by (cases us) auto
  then show ?case using g by (simp add: flying_def)
next
  case (Cons ev evs)
  obtain result r w where st: "st = (result, r, w)" by (metis prod_cases3)
  show ?case
  proof (cases "rg_busy r = 0")
    case False
    then have ev: "event_ok f r ev" "events_ok f ops target landed evs (read_step f ops target landed ev st)" using Cons.prems(2) st by auto
    have g: "good {..<DEPTH} {..<DEPTH} (read_step f ops target landed ev st)" using Cons.prems(1) ev(1) step_good st by simp
    have "to_come (fst (snd (read_step f ops target landed ev st))) \<le> finishes evs"
    proof (cases ev)
      case (Finished i res)
      then have "to_come (fst (snd (read_step f ops target landed ev st))) < to_come r" using step_to_come Cons.prems(1) ev(1) st by blast
      then show ?thesis using Cons.prems(3) st Finished by (simp add: finishes_def)
    qed (use Cons.prems(3) st in \<open>simp add: finishes_def read_step_def\<close>)
    then show ?thesis using Cons.IH [OF g ev(2)] False st by simp
  qed (simp add: st)
qed

lemma refill_slots: "length (rg_slots (fst (snd (refill target s r w)))) = length (rg_slots r)"
  by (auto simp: refill_def Let_def split: prod.splits sum.splits)

lemma first_to_come:
  "set ss \<subseteq> {..<DEPTH} \<Longrightarrow> length (rg_slots r) = DEPTH \<Longrightarrow> to_come (fst (snd (first_refills target ss r w))) \<le> to_come r"
proof (induction ss arbitrary: r w)
  case (Cons s ss)
  obtain res r' w' where e: "refill target s r w = (res, r', w')" by (metis prod_cases3)
  have "to_come r' \<le> to_come r" using refill_to_come [of s r target w] Cons.prems e by simp
  moreover have "length (rg_slots r') = DEPTH" using refill_slots [of s r w] Cons.prems e by simp
  ultimately show ?case using Cons.IH [of r' w'] Cons.prems(1) e by (cases res) auto
qed simp

lemma start_to_come: "to_come (fst (snd (read_start len target w))) \<le> len"
proof -
  have "to_come (reading_new len) = len" "length (rg_slots (reading_new len)) = DEPTH" by (simp_all add: to_come_def reading_new_def)
  then show ?thesis using first_to_come [of "[0..<DEPTH]" "reading_new len" w] by (simp add: read_start_def atLeast0LessThan)
qed

lemma region_returns:
  assumes "Inv True {} (\<lambda>_. None) w" "events_ok f ops target landed evs (read_start len target w)" "len \<le> finishes evs"
  shows "read_region f len ops target landed evs w \<noteq> None"
  using loop_returns [OF start_good [OF assms(1)] assms(2)] start_to_come [of w] assms(3) by (simp add: read_region_def)

lemma region_read:
  assumes "Inv True {} (\<lambda>_. None) w" "events_ok f ops target landed evs (read_start len target w)"
    "read_region f len ops target landed evs w = Some (result, r, w')"
  shows "rg_ring r = []" "\<exists>L. Inv (result = Inr ()) L (\<lambda>_. None) w' \<and> (result = Inr () \<longrightarrow> {c. c * CHUNK < len} \<subseteq> L)"
proof -
  have g: "good {..<DEPTH} {..<DEPTH} (result, r, w')" "rg_busy r = 0"
    using loop_good [OF start_good [OF assms(1)] assms(2)] assms(3) by (simp_all add: read_region_def)
  then obtain L us where l: "flying len L us r" "Inv (result = Inr ()) L (active us r) w'" "result = Inr () \<Longrightarrow> complete_so_far {..<DEPTH} L us r"
    by (auto simp: good_def)
  have us: "us = []" using l(1) g(2) by (simp add: flying_def)
  then show "rg_ring r = []" using l(1) by (simp add: flying_def)
  have "{c. c * CHUNK < len} \<subseteq> L" if "result = Inr ()"
  proof -
    have "L = {..<rg_next r}" "len \<le> rg_next r * CHUNK" using l(3) [OF that] us by (auto simp: complete_so_far_def DEPTH_def lessThan_empty_iff)
    then show ?thesis using order_less_le_trans by (auto simp: CHUNK_def)
  qed
  then show "\<exists>L. Inv (result = Inr ()) L (\<lambda>_. None) w' \<and> (result = Inr () \<longrightarrow> {c. c * CHUNK < len} \<subseteq> L)"
    using l(2) us by (auto simp: active_def)
qed

end

section \<open>Host memory\<close>

text \<open>\<open>m\<close> holds the first \<open>n\<close> bytes of chunk \<open>c\<close> of the data region from address \<open>at\<close>.\<close>

definition holds_chunk :: "disk_file \<Rightarrow> nat \<Rightarrow> nat \<Rightarrow> memory \<Rightarrow> nat \<Rightarrow> bool" where
  "holds_chunk f c n m at \<longleftrightarrow> (\<forall>i < n. m (at + i) = f ! (ALIGN + (c * CHUNK + i)))"

lemma CHUNK_pos [simp]: "0 < CHUNK" "CHUNK \<noteq> 0"
  by (simp_all add: CHUNK_def)

lemma want_le: "want len c \<le> CHUNK" "i < want len c \<Longrightarrow> c * CHUNK + i < len"
  by (auto simp: want_def)

lemma chunks_apart:
  assumes "i < CHUNK" "j < CHUNK" "c * CHUNK + i = d * CHUNK + j"
  shows "c = d"
  by (metis assms add.commute div_less div_mult_self1 CHUNK_pos(2) add.left_neutral)

lemma mem_write_apart:
  assumes "holds_chunk f c n m (base + s * CHUNK)" "n \<le> CHUNK" "d + length bs \<le> CHUNK" "s \<noteq> t"
  shows "holds_chunk f c n (mem_write (base + t * CHUNK + d) bs m) (base + s * CHUNK)"
proof -
  have "\<not> (base + t * CHUNK + d \<le> base + s * CHUNK + i \<and> base + s * CHUNK + i < base + t * CHUNK + d + length bs)" if "i < n" for i
  proof
    assume a: "base + t * CHUNK + d \<le> base + s * CHUNK + i \<and> base + s * CHUNK + i < base + t * CHUNK + d + length bs"
    define j where "j = s * CHUNK + i - t * CHUNK"
    have "t * CHUNK + j = s * CHUNK + i" "j < CHUNK" using a assms(3) by (auto simp: j_def)
    then show False using chunks_apart [of i j s t] that assms(2,4) by simp
  qed
  then show ?thesis using assms(1) unfolding holds_chunk_def mem_write_def by presburger
qed

lemma mem_write_more:
  assumes "holds_chunk f c d m at" "\<forall>i < length bs. bs ! i = f ! (ALIGN + (c * CHUNK + d + i))"
  shows "holds_chunk f c (d + length bs) (mem_write (at + d) bs m) at"
  unfolding holds_chunk_def
proof (intro allI impI)
  fix i assume "i < d + length bs"
  then show "mem_write (at + d) bs m (at + i) = f ! (ALIGN + (c * CHUNK + i))"
    using assms by (cases "i < d") (simp_all add: holds_chunk_def mem_write_def)
qed

definition host_inv :: "disk_file \<Rightarrow> nat \<Rightarrow> nat \<Rightarrow> memory \<Rightarrow> bool \<Rightarrow> nat set \<Rightarrow> filling \<Rightarrow> memory \<Rightarrow> bool" where
  "host_inv f len base m0 ok L A m \<longleftrightarrow>
     (\<forall>c\<in>L. holds_chunk f c (want len c) m (base + c * CHUNK)) \<and>
     (\<forall>s c p d. A s = Some (c, p, d) \<longrightarrow> p = base + c * CHUNK \<and> d \<le> want len c \<and> holds_chunk f c d m p) \<and>
     (\<forall>a. a < base \<or> base + len \<le> a \<longrightarrow> m a = m0 a)"

lemma mem_write_frame:
  assumes "\<forall>a. a < base \<or> base + len \<le> a \<longrightarrow> m a = m0 a" "d + length bs \<le> want len c"
  shows "\<forall>a. a < base \<or> base + len \<le> a \<longrightarrow> mem_write (base + c * CHUNK + d) bs m a = m0 a"
proof (intro allI impI)
  fix a assume a: "a < base \<or> base + len \<le> a"
  have "\<not> (base + c * CHUNK + d \<le> a \<and> a < base + c * CHUNK + d + length bs)" using a assms(2) by (auto simp: want_def)
  then show "mem_write (base + c * CHUNK + d) bs m a = m0 a" using a assms(1) unfolding mem_write_def by presburger
qed

lemma host_arrive:
  assumes inv: "host_inv f len base m0 ok L A m" and A: "A s = Some (c, p, d)" "c \<notin> L" "\<forall>s' p' d'. A s' = Some (c, p', d') \<longrightarrow> s' = s"
    and bs: "d + length bs \<le> want len c" "\<forall>i < length bs. bs ! i = f ! (ALIGN + (c * CHUNK + d + i))"
  shows "host_inv f len base m0 ok L (A(s \<mapsto> (c, p, d + length bs))) (mem_write (p + d) bs m)"
proof -
  have p: "p = base + c * CHUNK" "holds_chunk f c d m p" using inv A(1) by (auto simp: host_inv_def)
  have small: "d + length bs \<le> CHUNK" using bs(1) want_le(1) [of len c] by linarith
  have apart: "holds_chunk f c' n (mem_write (p + d) bs m) (base + c' * CHUNK)"
    if "holds_chunk f c' n m (base + c' * CHUNK)" "c' \<noteq> c" "n \<le> want len c'" for c' n
    using mem_write_apart [OF that(1) _ small that(2)] that(3) want_le(1) [of len c'] p(1) by simp
  have "\<forall>c'\<in>L. holds_chunk f c' (want len c') (mem_write (p + d) bs m) (base + c' * CHUNK)"
    using inv A(2) apart by (metis host_inv_def order_refl)
  moreover have "p' = base + c' * CHUNK \<and> d' \<le> want len c' \<and> holds_chunk f c' d' (mem_write (p + d) bs m) p'"
    if "(A(s \<mapsto> (c, p, d + length bs))) s' = Some (c', p', d')" for s' c' p' d'
  proof (cases "s' = s")
    case True
    then show ?thesis using that bs p(1) mem_write_more [OF p(2) bs(2)] by auto
  next
    case False
    then have "c' \<noteq> c" "A s' = Some (c', p', d')" using that A(3) by auto
    then have "p' = base + c' * CHUNK" "d' \<le> want len c'" "holds_chunk f c' d' m p'" using inv by (auto simp: host_inv_def)
    then show ?thesis using apart \<open>c' \<noteq> c\<close> by simp
  qed
  ultimately show ?thesis using mem_write_frame [OF _ bs(1)] inv p(1) unfolding host_inv_def by blast
qed

interpretation host: chunk_sink f len host_ops "host_target base" host_landed "host_inv f len base m0" for f len base m0
proof
  fix ok L A s chunk p d bs w
  assume "host_inv f len base m0 ok L A w" "A s = Some (chunk, p, d)" "chunk \<notin> L" "\<forall>s' p' d'. A s' = Some (chunk, p', d') \<longrightarrow> s' = s"
    "d + length bs \<le> want len chunk" "\<forall>i < length bs. bs ! i = f ! (ALIGN + (chunk * CHUNK + d + i))"
  then show "host_inv f len base m0 ok L (A(s \<mapsto> (chunk, p, d + length bs))) (fst host_ops (p + d) bs w)"
    using host_arrive by (simp add: host_ops_def)
qed (auto simp: host_inv_def host_ops_def host_target_def host_landed_def holds_chunk_def)

section \<open>Device memory\<close>

text \<open>A copy waiting on the stream is from a slot that is not being filled, and is followed by the slot's record.\<close>

definition copy_ok :: "disk_file \<Rightarrow> nat \<Rightarrow> nat \<Rightarrow> filling \<Rightarrow> memory \<Rightarrow> stream_op \<Rightarrow> bool" where
  "copy_ok f len base A m x \<longleftrightarrow> (case x of
     Record _ \<Rightarrow> True
   | Upload to from n \<Rightarrow> \<exists>c s. s < DEPTH \<and> to = c * CHUNK \<and> from = base + s * CHUNK \<and> n = want len c \<and> A s = None \<and> holds_chunk f c n m from)"

fun recorded :: "nat \<Rightarrow> stream_op list \<Rightarrow> bool" where
  "recorded base [] \<longleftrightarrow> True"
| "recorded base (Record _ # xs) \<longleftrightarrow> recorded base xs"
| "recorded base (Upload to from n # xs) \<longleftrightarrow> (\<forall>s. from = base + s * CHUNK \<longrightarrow> Record s \<in> set xs) \<and> recorded base xs"

definition gpu_inv :: "disk_file \<Rightarrow> nat \<Rightarrow> nat \<Rightarrow> memory \<Rightarrow> memory \<Rightarrow> bool \<Rightarrow> nat set \<Rightarrow> filling \<Rightarrow> gpu \<Rightarrow> bool" where
  "gpu_inv f len base m0 d0 ok L A g \<longleftrightarrow>
     list_all (copy_ok f len base A (gp_mem g)) (gp_stream g) \<and>
     (\<forall>c\<in>L. holds_chunk f c (want len c) (gp_dev g) (c * CHUNK) \<or> (\<exists>from. Upload (c * CHUNK) from (want len c) \<in> set (gp_stream g))) \<and>
     (\<forall>s c p d. A s = Some (c, p, d) \<longrightarrow> s < DEPTH \<and> p = base + s * CHUNK \<and> d \<le> want len c \<and> holds_chunk f c d (gp_mem g) p) \<and>
     (ok \<longrightarrow> recorded base (gp_stream g)) \<and>
     (\<forall>a. a < base \<or> base + DEPTH * CHUNK \<le> a \<longrightarrow> gp_mem g a = m0 a) \<and> (\<forall>a \<ge> len. gp_dev g a = d0 a)"

lemma gpu_inv_cuda [simp]: "gpu_inv f len base m0 d0 ok L A (g\<lparr>gp_cuda := x\<rparr>) = gpu_inv f len base m0 d0 ok L A g"
  by (simp add: gpu_inv_def)

lemma gpu_inv_cuda_stream [simp]:
  "gpu_inv f len base m0 d0 ok L A (g\<lparr>gp_cuda := x, gp_stream := y\<rparr>) = gpu_inv f len base m0 d0 ok L A (g\<lparr>gp_stream := y\<rparr>)"
  by (simp add: gpu_inv_def)

lemma cuda_cases:
  assumes "cuda g = (res, g')"
  obtains x where "g' = g\<lparr>gp_cuda := x\<rparr>"
  using assms that [of "gp_cuda g"] by (cases "gp_cuda g") (auto simp: cuda_def)

text \<open>A copy of a chunk keeps every chunk of the device that was right.\<close>

lemma copy_keeps:
  assumes "holds_chunk f c (want len c) m from" "holds_chunk f c' (want len c') dev (c' * CHUNK)"
  shows "holds_chunk f c' (want len c') (mem_write (c * CHUNK) (map (\<lambda>i. m (from + i)) [0..<want len c]) dev) (c' * CHUNK)"
  unfolding holds_chunk_def
proof (intro allI impI)
  fix i assume i: "i < want len c'"
  let ?m = "mem_write (c * CHUNK) (map (\<lambda>i. m (from + i)) [0..<want len c]) dev"
  show "?m (c' * CHUNK + i) = f ! (ALIGN + (c' * CHUNK + i))"
  proof (cases "c * CHUNK \<le> c' * CHUNK + i \<and> c' * CHUNK + i < c * CHUNK + want len c")
    case True
    define j where "j = c' * CHUNK + i - c * CHUNK"
    have j: "c * CHUNK + j = c' * CHUNK + i" "j < want len c" using True by (auto simp: j_def)
    have "c = c'" using chunks_apart [of j i c c'] j i want_le(1) [of len c] want_le(1) [of len c'] by linarith
    then have "j = i" using j(1) by simp
    then show ?thesis using True assms(1) j \<open>c = c'\<close> by (simp add: mem_write_def holds_chunk_def)
  next
    case False
    then show ?thesis using assms(2) i unfolding mem_write_def holds_chunk_def by auto
  qed
qed

lemma copy_makes:
  assumes "holds_chunk f c (want len c) m from"
  shows "holds_chunk f c (want len c) (mem_write (c * CHUNK) (map (\<lambda>i. m (from + i)) [0..<want len c]) dev) (c * CHUNK)"
  using assms by (simp add: holds_chunk_def mem_write_def)

lemma stream_step_inv:
  assumes inv: "gpu_inv f len base m0 d0 ok L A g"
  shows "gpu_inv f len base m0 d0 ok L A (stream_step g)"
proof (cases "gp_stream g")
  case Nil
  then show ?thesis using inv by (simp add: stream_step_def)
next
  case (Cons x xs)
  show ?thesis
  proof (cases x)
    case (Record s)
    then show ?thesis using inv Cons by (auto simp: stream_step_def gpu_inv_def)
  next
    case (Upload to src n)
    have "copy_ok f len base A (gp_mem g) x" using inv Cons by (simp add: gpu_inv_def)
    then obtain c where c: "to = c * CHUNK" "n = want len c" "holds_chunk f c (want len c) (gp_mem g) src"
      using Upload by (auto simp: copy_ok_def)
    let ?dev = "mem_write to (map (\<lambda>i. gp_mem g (src + i)) [0..<n]) (gp_dev g)"
    have g: "stream_step g = g\<lparr>gp_stream := xs, gp_dev := ?dev\<rparr>" using Cons Upload by (simp add: stream_step_def)
    have L: "holds_chunk f c' (want len c') ?dev (c' * CHUNK) \<or> (\<exists>y. Upload (c' * CHUNK) y (want len c') \<in> set xs)" if "c' \<in> L" for c'
    proof (cases "c' = c")
      case True
      then show ?thesis using copy_makes [OF c(3)] c(1,2) by simp
    next
      case False
      then have "Upload (c' * CHUNK) y (want len c') \<noteq> x" for y using Upload c(1) by simp
      then have "holds_chunk f c' (want len c') (gp_dev g) (c' * CHUNK) \<or> (\<exists>y. Upload (c' * CHUNK) y (want len c') \<in> set xs)"
        using inv that Cons by (force simp: gpu_inv_def)
      then show ?thesis using copy_keeps [OF c(3)] c(1,2) by blast
    qed
    have out: "\<forall>a \<ge> len. ?dev a = d0 a" using inv want_le(2) [of _ len c] c(1,2) by (auto simp: gpu_inv_def mem_write_def want_def)
    show ?thesis using inv Cons Upload L out unfolding g gpu_inv_def by simp
  qed
qed

lemma stream_steps_inv: "gpu_inv f len base m0 d0 ok L A g \<Longrightarrow> gpu_inv f len base m0 d0 ok L A ((stream_step ^^ n) g)"
  by (induction n) (simp_all add: stream_step_inv)

lemma event_run_inv: "gpu_inv f len base m0 d0 ok L A g \<Longrightarrow> gpu_inv f len base m0 d0 ok L A (event_run s g) \<and> Record s \<notin> set (gp_stream (event_run s g))"
proof (induction s g rule: event_run.induct)
  case (1 s g)
  then show ?case using stream_step_inv by (subst (1 2) event_run.simps) auto
qed

lemma recorded_none: "recorded base xs \<Longrightarrow> Record s \<notin> set xs \<Longrightarrow> Upload to (base + s * CHUNK) n \<notin> set xs"
  by (induction base xs rule: recorded.induct) auto

lemma recorded_more: "recorded base xs \<Longrightarrow> recorded base (xs @ [Upload to (base + s * CHUNK) n, Record s])"
  by (induction base xs rule: recorded.induct) auto

lemma copy_ok_fill:
  assumes "copy_ok f len base A m x" "\<forall>to n. x \<noteq> Upload to (base + s * CHUNK) n"
  shows "copy_ok f len base (A(s := y)) m x"
  using assms by (auto simp: copy_ok_def split: stream_op.splits)

lemma copy_ok_cancel: "copy_ok f len base A m x \<Longrightarrow> copy_ok f len base (A(s := None)) m x"
  by (cases x) (auto simp: copy_ok_def)

lemma free_slot_inv:
  assumes inv: "gpu_inv f len base m0 d0 True L A g" and s: "s < DEPTH" "A s = None" and t: "free_slot base chunk s g = (Inr p, g')"
  shows "gpu_inv f len base m0 d0 True L (A(s \<mapsto> (chunk, p, 0))) g'"
proof -
  obtain u g1 where c: "cuda g = (Inr u, g1)" and g': "g' = event_run s g1" "p = base + s * CHUNK"
    using t by (auto simp: free_slot_def event_sync_def split: prod.splits sum.splits)
  have "gpu_inv f len base m0 d0 True L A g1" using inv c by (auto elim!: cuda_cases)
  then have run: "gpu_inv f len base m0 d0 True L A g'" "Record s \<notin> set (gp_stream g')" using event_run_inv g'(1) by auto
  have "\<forall>to n. Upload to (base + s * CHUNK) n \<notin> set (gp_stream g')" using run recorded_none by (auto simp: gpu_inv_def)
  then have "list_all (copy_ok f len base (A(s \<mapsto> (chunk, p, 0))) (gp_mem g')) (gp_stream g')"
    using run(1) by (auto simp: gpu_inv_def list_all_iff intro!: copy_ok_fill)
  then show ?thesis using run(1) s(1) g'(2) by (auto simp: gpu_inv_def holds_chunk_def)
qed

lemma gpu_arrive:
  assumes inv: "gpu_inv f len base m0 d0 ok L A g" and A: "A s = Some (c, p, d)"
    and bs: "d + length bs \<le> want len c" "\<forall>i < length bs. bs ! i = f ! (ALIGN + (c * CHUNK + d + i))"
  shows "gpu_inv f len base m0 d0 ok L (A(s \<mapsto> (c, p, d + length bs))) (g\<lparr>gp_mem := mem_write (p + d) bs (gp_mem g)\<rparr>)"
proof -
  let ?m = "mem_write (p + d) bs (gp_mem g)"
  have p: "s < DEPTH" "p = base + s * CHUNK" "holds_chunk f c d (gp_mem g) p" using inv A by (auto simp: gpu_inv_def)
  have small: "d + length bs \<le> CHUNK" using bs(1) want_le(1) [of len c] by linarith
  have apart: "holds_chunk f c' n ?m (base + s' * CHUNK)" if "holds_chunk f c' n (gp_mem g) (base + s' * CHUNK)" "s' \<noteq> s" "n \<le> want len c'" for c' n s'
    using mem_write_apart [OF that(1) _ small that(2)] that(3) want_le(1) [of len c'] p(2) by simp
  have "copy_ok f len base (A(s \<mapsto> (c, p, d + length bs))) ?m x" if ok: "copy_ok f len base A (gp_mem g) x" for x
  proof (cases x)
    case (Upload to src n)
    then obtain c' s' where u: "s' < DEPTH" "to = c' * CHUNK" "src = base + s' * CHUNK" "n = want len c'" "A s' = None" "holds_chunk f c' n (gp_mem g) src"
      using ok by (auto simp: copy_ok_def)
    then have "s' \<noteq> s" using A by auto
    then have "holds_chunk f c' n ?m src" using apart u by simp
    then show ?thesis using u Upload \<open>s' \<noteq> s\<close> by (auto simp: copy_ok_def)
  qed (simp add: copy_ok_def)
  then have "list_all (copy_ok f len base (A(s \<mapsto> (c, p, d + length bs))) ?m) (gp_stream g)"
    using inv by (auto simp: gpu_inv_def list_all_iff)
  moreover have "s' < DEPTH \<and> p' = base + s' * CHUNK \<and> d' \<le> want len c' \<and> holds_chunk f c' d' ?m p'"
    if "(A(s \<mapsto> (c, p, d + length bs))) s' = Some (c', p', d')" for s' c' p' d'
  proof (cases "s' = s")
    case True
    then show ?thesis using that bs p(1,2) mem_write_more [OF p(3) bs(2)] by auto
  next
    case False
    then have "s' < DEPTH" "p' = base + s' * CHUNK" "d' \<le> want len c'" "holds_chunk f c' d' (gp_mem g) p'" using that inv by (auto simp: gpu_inv_def)
    then show ?thesis using apart False by simp
  qed
  moreover have "\<forall>a. a < base \<or> base + DEPTH * CHUNK \<le> a \<longrightarrow> ?m a = m0 a"
  proof (intro allI impI)
    fix a assume a: "a < base \<or> base + DEPTH * CHUNK \<le> a"
    have "s * CHUNK + CHUNK \<le> DEPTH * CHUNK" using p(1) by (metis Suc_leI mult_le_mono1 mult_Suc add.commute)
    then have "\<not> (p + d \<le> a \<and> a < p + d + length bs)" using a small p(2) by auto
    then show "?m a = m0 a" using a inv unfolding mem_write_def gpu_inv_def by presburger
  qed
  ultimately show ?thesis using inv by (simp add: gpu_inv_def)
qed

lemma upload_inv:
  assumes inv: "gpu_inv f len base m0 d0 True L A g" and A: "A s = Some (c, p, want len c)" and u: "upload_chunk base len dst_len c s g = (res, g')"
  shows "case res of Inr _ \<Rightarrow> gpu_inv f len base m0 d0 True (insert c L) (A(s := None)) g' | Inl _ \<Rightarrow> gpu_inv f len base m0 d0 False L (A(s := None)) g'"
proof -
  have p: "s < DEPTH" "p = base + s * CHUNK" "holds_chunk f c (want len c) (gp_mem g) p" using inv A by (auto simp: gpu_inv_def)
  let ?up = "Upload (c * CHUNK) (base + s * CHUNK) (want len c)"
  have new: "copy_ok f len base (A(s := None)) (gp_mem g) ?up" using p by (auto simp: copy_ok_def)
  have old: "list_all (copy_ok f len base (A(s := None)) (gp_mem g)) (gp_stream g)"
    using inv by (auto simp: gpu_inv_def list_all_iff intro: copy_ok_cancel)
  have rec: "recorded base (gp_stream g @ [?up, Record s])" using inv by (simp add: gpu_inv_def recorded_more)
  have off: "gpu_inv f len base m0 d0 False L (A(s := None)) g" using inv old by (auto simp: gpu_inv_def)
  have one: "gpu_inv f len base m0 d0 False L (A(s := None)) (g\<lparr>gp_stream := gp_stream g @ [?up]\<rparr>)"
    using inv old new by (auto simp: gpu_inv_def)
  have two: "gpu_inv f len base m0 d0 True (insert c L) (A(s := None)) (g\<lparr>gp_stream := gp_stream g @ [?up, Record s]\<rparr>)"
    using inv old new rec by (auto simp: gpu_inv_def copy_ok_def)
  show ?thesis
  proof (cases "\<not> within_buf dst_len (c * CHUNK) (want len c)")
    case True
    then show ?thesis using u off by (auto simp: upload_chunk_def stream_upload_def want_def [symmetric])
  next
    case False
    obtain r1 x1 where c1: "cuda g = (r1, g\<lparr>gp_cuda := x1\<rparr>)" by (metis cuda_cases surj_pair)
    let ?g1 = "g\<lparr>gp_cuda := x1, gp_stream := gp_stream g @ [?up]\<rparr>"
    obtain r2 x2 where c2: "cuda ?g1 = (r2, ?g1\<lparr>gp_cuda := x2\<rparr>)" by (metis cuda_cases surj_pair)
    show ?thesis using False u c1 c2 gpu_inv_cuda [THEN iffD2, OF off] gpu_inv_cuda [THEN iffD2, OF one] gpu_inv_cuda [THEN iffD2, OF two]
      by (auto simp: upload_chunk_def stream_upload_def stream_record_def want_def [symmetric] split: sum.splits)
  qed
qed

interpretation device: chunk_sink f len gpu_ops "free_slot base" "upload_chunk base len dst_len" "gpu_inv f len base m0 d0"
  for f len base dst_len m0 d0
proof
  fix L A s chunk p w w'
  assume "gpu_inv f len base m0 d0 True L A w" "A s = Some (chunk, p, want len chunk)" "upload_chunk base len dst_len chunk s w = (Inr (), w')"
  then show "gpu_inv f len base m0 d0 True (insert chunk L) (A(s := None)) w'" by (auto dest: upload_inv)
next
  fix L A s chunk p w w' e
  assume "gpu_inv f len base m0 d0 True L A w" "A s = Some (chunk, p, want len chunk)" "upload_chunk base len dst_len chunk s w = (Inl e, w')"
  then show "gpu_inv f len base m0 d0 False L (A(s := None)) w'" by (auto dest: upload_inv)
next
  fix L A chunk s w e w'
  assume "gpu_inv f len base m0 d0 True L A w" "free_slot base chunk s w = (Inl e, w')"
  then show "gpu_inv f len base m0 d0 False L A w'"
    by (auto simp: free_slot_def event_sync_def gpu_inv_def elim!: cuda_cases split: prod.splits sum.splits)
next
  fix ok L A s w
  assume "gpu_inv f len base m0 d0 ok L A w"
  then show "gpu_inv f len base m0 d0 ok L (A(s := None)) w" by (auto simp: gpu_inv_def list_all_iff intro: copy_ok_cancel)
next
  fix L A s chunk p w w'
  assume "gpu_inv f len base m0 d0 True L A w" "s < DEPTH" "A s = None" "free_slot base chunk s w = (Inr p, w')"
  then show "gpu_inv f len base m0 d0 True L (A(s \<mapsto> (chunk, p, 0))) w'" by (rule free_slot_inv)
next
  fix ok L A s chunk p d bs w
  assume "gpu_inv f len base m0 d0 ok L A w" "A s = Some (chunk, p, d)" "d + length bs \<le> want len chunk"
    "\<forall>i < length bs. bs ! i = f ! (ALIGN + (chunk * CHUNK + d + i))"
  then show "gpu_inv f len base m0 d0 ok L (A(s \<mapsto> (chunk, p, d + length bs))) (fst gpu_ops (p + d) bs w)"
    by (simp add: gpu_ops_def gpu_arrive)
qed (auto simp: gpu_ops_def stream_step_inv, simp add: gpu_inv_def)

section \<open>Loading\<close>

lemma all_chunks:
  assumes "\<forall>c\<in>L. holds_chunk f c (want len c) m (base + c * CHUNK)" "{c. c * CHUNK < len} \<subseteq> L" "i < len"
  shows "m (base + i) = f ! (ALIGN + i)"
proof -
  let ?c = "i div CHUNK" and ?j = "i mod CHUNK"
  have i: "?c * CHUNK + ?j = i" "?j < CHUNK" by simp_all
  have "?c * CHUNK < len" "?j < len - ?c * CHUNK" using assms(3) i by linarith+
  then have "?c \<in> L" "?j < want len ?c" using assms(2) i(2) by (auto simp: want_def)
  then show ?thesis using assms(1) i(1) unfolding holds_chunk_def by (metis add.assoc)
qed

text \<open>C35. Loading into host memory: however the kernel orders, splits or fails the reads, when \<open>to_host\<close> returns no read is
  in flight, nothing outside the first \<open>len\<close> bytes of the destination was written, and if it returns success these are the
  data region of the file.\<close>

theorem to_host_loads:
  assumes "events_ok f host_ops (host_target base) host_landed evs (read_start len (host_target base) m)"
    "to_host f len base dst_len evs m = Some (result, r, m')"
  shows "rg_ring r = [] \<and> (\<forall>a. a < base \<or> base + len \<le> a \<longrightarrow> m' a = m a) \<and>
         (result = Inr () \<longrightarrow> len \<le> dst_len \<and> (\<forall>i < len. m' (base + i) = f ! (ALIGN + i)))"
proof (cases "dst_len < len")
  case True
  then show ?thesis using assms(2) by (auto simp: to_host_def reading_new_def)
next
  case False
  have start: "host_inv f len base m True {} (\<lambda>_. None) m" by (simp add: host_inv_def)
  have read: "read_region f len host_ops (host_target base) host_landed evs m = Some (result, r, m')" using assms(2) False by (simp add: to_host_def)
  obtain L where L: "host_inv f len base m (result = Inr ()) L (\<lambda>_. None) m'" "result = Inr () \<longrightarrow> {c. c * CHUNK < len} \<subseteq> L"
    using host.region_read(2) [OF start assms(1) read] by blast
  have "\<forall>i < len. m' (base + i) = f ! (ALIGN + i)" if "result = Inr ()"
    using L that all_chunks [of L f len m' base] by (simp add: host_inv_def)
  then show ?thesis using host.region_read(1) [OF start assms(1) read] L(1) False by (auto simp: host_inv_def)
qed

lemma steps_empty: "length (gp_stream ((stream_step ^^ n) g)) = length (gp_stream g) - n"
proof -
  have "length (gp_stream (stream_step g)) = length (gp_stream g) - 1" for g
    by (cases "gp_stream g"; cases "hd (gp_stream g)") (auto simp: stream_step_def)
  then show ?thesis by (induction n) simp_all
qed

text \<open>C8. Loading into device memory, with the copies running beside the reads and every CUDA call free to fail: when
  \<open>to_device\<close> returns no read is in flight, only the staging slots and the first \<open>len\<close> bytes of the device buffer were
  written, and if it returns success these bytes are the data region of the file and no copy is pending. No slot is
  refilled while its copy is waiting.\<close>

theorem to_device_loads:
  assumes "events_ok f gpu_ops (free_slot base) (upload_chunk base len dst_len) evs (read_start len (free_slot base) g)"
    "gp_stream g = []" "to_device f len base dst_len evs g = Some (result, r, g')"
  shows "rg_ring r = [] \<and> (\<forall>a. a < base \<or> base + DEPTH * CHUNK \<le> a \<longrightarrow> gp_mem g' a = gp_mem g a) \<and> (\<forall>a \<ge> len. gp_dev g' a = gp_dev g a) \<and>
         (result = Inr () \<longrightarrow> len \<le> dst_len \<and> gp_stream g' = [] \<and> (\<forall>i < len. gp_dev g' i = f ! (ALIGN + i)))"
proof (cases "dst_len < len")
  case True
  then show ?thesis using assms(3) by (auto simp: to_device_def reading_new_def)
next
  case False
  have start: "gpu_inv f len base (gp_mem g) (gp_dev g) True {} (\<lambda>_. None) g" using assms(2) by (simp add: gpu_inv_def)
  obtain res1 g1 sync where read: "read_region f len gpu_ops (free_slot base) (upload_chunk base len dst_len) evs g = Some (res1, r, g1)"
      and sync: "stream_sync g1 = (sync, g')" and result: "result = rbind res1 (\<lambda>_. sync)"
  proof -
    obtain res1 r1 g1 where read: "read_region f len gpu_ops (free_slot base) (upload_chunk base len dst_len) evs g = Some (res1, r1, g1)"
      using assms(3) False by (auto simp: to_device_def)
    moreover obtain sync g2 where "stream_sync g1 = (sync, g2)" by (meson surj_pair)
    ultimately show thesis using that [of res1 g1 sync] assms(3) False by (simp add: to_device_def)
  qed
  obtain L where L: "gpu_inv f len base (gp_mem g) (gp_dev g) (res1 = Inr ()) L (\<lambda>_. None) g1" "res1 = Inr () \<longrightarrow> {c. c * CHUNK < len} \<subseteq> L"
    using device.region_read(2) [OF start assms(1) read] by blast
  obtain u x where c: "cuda g1 = (u, g1\<lparr>gp_cuda := x\<rparr>)" by (metis cuda_cases surj_pair)
  then have g': "g' = (case u of Inl _ \<Rightarrow> g1\<lparr>gp_cuda := x\<rparr> | Inr _ \<Rightarrow> (stream_step ^^ length (gp_stream g1)) (g1\<lparr>gp_cuda := x\<rparr>))" "sync = Inr () \<longrightarrow> (\<exists>v. u = Inr v)"
    using sync by (auto simp: stream_sync_def split: sum.splits)
  then have inv: "gpu_inv f len base (gp_mem g) (gp_dev g) (res1 = Inr ()) L (\<lambda>_. None) g'" using L(1) stream_steps_inv by (auto split: sum.splits)
  have "gp_stream g' = [] \<and> (\<forall>i < len. gp_dev g' i = f ! (ALIGN + i))" if "result = Inr ()"
  proof -
    have ok: "res1 = Inr ()" "sync = Inr ()" using that result by (cases res1; auto)+
    then obtain u' where "u = Inr u'" using g'(2) by blast
    then have empty: "gp_stream g' = []" using g'(1) steps_empty [of "length (gp_stream g1)" "g1\<lparr>gp_cuda := x\<rparr>"] by simp
    then show ?thesis using inv L(2) ok(1) all_chunks [of L f len "gp_dev g'" 0] by (simp add: gpu_inv_def)
  qed
  then show ?thesis using device.region_read(1) [OF start assms(1) read] inv False by (auto simp: gpu_inv_def)
qed

text \<open>C36. Both loads end: once as many reads have finished as the region has bytes, \<open>to_host\<close> and \<open>to_device\<close> have
  returned, whatever the reads came to (each brings at least one byte, or fails and is not asked for again).\<close>

theorem loads_return:
  assumes "len \<le> finishes evs"
  shows "(events_ok f host_ops (host_target base) host_landed evs (read_start len (host_target base) m) \<longrightarrow>
           to_host f len base dst_len evs m \<noteq> None) \<and>
         (events_ok f gpu_ops (free_slot base) (upload_chunk base len dst_len) evs (read_start len (free_slot base) g) \<longrightarrow> gp_stream g = [] \<longrightarrow>
           to_device f len base dst_len evs g \<noteq> None)"
proof -
  have "host_inv f len base m True {} (\<lambda>_. None) m" by (simp add: host_inv_def)
  then have h: "to_host f len base dst_len evs m \<noteq> None"
    if "events_ok f host_ops (host_target base) host_landed evs (read_start len (host_target base) m)"
    using host.region_returns [OF _ that assms] by (auto simp: to_host_def)
  have "gpu_inv f len base (gp_mem g) (gp_dev g) True {} (\<lambda>_. None) g" if "gp_stream g = []" using that by (simp add: gpu_inv_def)
  then have "to_device f len base dst_len evs g \<noteq> None" if "gp_stream g = []"
    "events_ok f gpu_ops (free_slot base) (upload_chunk base len dst_len) evs (read_start len (free_slot base) g)"
    using device.region_returns [OF _ that(2) assms] that(1) by (simp add: to_device_def del: not_None_eq)
  then show ?thesis using h by blast
qed

text \<open>A file whose data region is three bytes, which come one at a time.\<close>

definition small_file :: disk_file where
  "small_file = replicate ALIGN 0 @ [7, 8, 9]"

definition short_reads :: "event list" where
  "short_reads = [Finished 0 1, Finished 0 1, Copied, Finished 0 1, Copied]"

definition idle_gpu :: gpu where
  "idle_gpu = \<lparr>gp_mem = \<lambda>_. 0, gp_dev = \<lambda>_. 0, gp_stream = [], gp_cuda = []\<rparr>"

lemmas load_defs = small_file_def short_reads_def idle_gpu_def read_start_def reading_new_def refill_def submit_def sqe_of_def read_step_def complete_def
  event_ok_def Let_def DEPTH_def CHUNK_def ALIGN_def nth_append

lemma depth_list: "[0..<DEPTH] = [0, 1, 2, 3]"
  by (simp add: DEPTH_def upt_rec)

lemma host_events:
  "events_ok small_file host_ops (host_target 100) host_landed short_reads (read_start 3 (host_target 100) (\<lambda>_. 0))"
  by (simp add: depth_list read_start_def) (simp add: load_defs host_target_def host_landed_def)

lemma device_events:
  "events_ok small_file gpu_ops (free_slot 100) (upload_chunk 100 3 3) short_reads (read_start 3 (free_slot 100) idle_gpu)"
  by (simp add: depth_list read_start_def) (simp add: load_defs free_slot_def event_sync_def event_run.simps cuda_def upload_chunk_def stream_upload_def stream_record_def within_buf_def)

theorem to_host_loads_witness:
  "\<exists>r m'. to_host small_file 3 100 3 short_reads (\<lambda>_. 0) = Some (Inr (), r, m') \<and> m' 101 = 8"
proof -
  obtain r m' where l: "to_host small_file 3 100 3 short_reads (\<lambda>_. 0) = Some (Inr (), r, m')"
    by (simp add: to_host_def read_region_def depth_list read_start_def) (simp add: load_defs host_target_def host_landed_def)
  have "\<forall>i < 3. m' (100 + i) = small_file ! (ALIGN + i)" using to_host_loads [OF host_events l] by simp
  from this [rule_format, of 1] have "m' 101 = small_file ! (ALIGN + 1)" by simp
  then show ?thesis using l by (simp add: small_file_def nth_append)
qed

theorem to_device_loads_witness:
  "\<exists>r g. to_device small_file 3 100 3 short_reads idle_gpu = Some (Inr (), r, g) \<and> gp_dev g 2 = 9"
proof -
  obtain r g where l: "to_device small_file 3 100 3 short_reads idle_gpu = Some (Inr (), r, g)"
    by (simp add: to_device_def read_region_def depth_list read_start_def)
      (simp add: load_defs free_slot_def event_sync_def event_run.simps cuda_def upload_chunk_def stream_upload_def stream_record_def within_buf_def stream_sync_def gpu_ops_def stream_step_def)
  have "gp_dev g 2 = small_file ! (ALIGN + 2)" using to_device_loads [OF device_events _ l] by (simp add: idle_gpu_def)
  then show ?thesis using l by (simp add: small_file_def nth_append)
qed

theorem loads_return_witness:
  "to_host small_file 3 100 3 short_reads (\<lambda>_. 0) \<noteq> None \<and> to_device small_file 3 100 3 short_reads idle_gpu \<noteq> None"
proof -
  have "3 \<le> finishes short_reads" by (simp add: finishes_def short_reads_def)
  from loads_return [OF this] show ?thesis using host_events device_events by (simp add: idle_gpu_def del: not_None_eq)
qed

end
