(* ===== verification/Inflate.thy ===== *)
theory Inflate
  imports Engine
begin

text \<open>
  zlib and deflate streams (\<open>media/inflate.rs\<close>): the bit reader, canonical Huffman codes with their table of short codes,
  the three kinds of block and the checksum. An index out of bounds is the fault \<open>Panicked\<close>; the loops over blocks and
  symbols are given as many turns as the stream has bits, and a loop that needs more is the fault \<open>Unfinished\<close>. Counts and
  codes are naturals (they stay far below their types' limits), the bit buffer a 64-bit word and the checksum's sums
  32-bit words that wrap.
\<close>

unbundle bit_operations_syntax

datatype fault = Failed error | Panicked | Unfinished

definition bad_media :: "string \<Rightarrow> fault" where
  "bad_media what = Failed (Media (lit what @ lit '': the file is damaged or not what it claims''))"

text \<open>Indexing a slice, and writing an element of one.\<close>

definition at_index :: "'a list \<Rightarrow> int \<Rightarrow> fault + 'a" where
  "at_index xs i = (if 0 \<le> i \<and> nat i < length xs then Inr (xs ! nat i) else Inl Panicked)"

definition put_index :: "'a list \<Rightarrow> nat \<Rightarrow> 'a \<Rightarrow> fault + 'a list" where
  "put_index xs i v = (if i < length xs then Inr (xs[i := v]) else Inl Panicked)"

fun each :: "('a \<Rightarrow> 's \<Rightarrow> fault + 's) \<Rightarrow> 'a list \<Rightarrow> 's \<Rightarrow> fault + 's" where
  "each f [] s = Inr s"
| "each f (x # xs) s = rbind (f x s) (each f xs)"

definition FAST :: nat where "FAST = 10"

definition BASES :: "nat list" where
  "BASES = [3, 4, 5, 6, 7, 8, 9, 10, 11, 13, 15, 17, 19, 23, 27, 31, 35, 43, 51, 59, 67, 83, 99, 115, 131, 163, 195, 227, 258]"

definition EXTRA :: "nat list" where
  "EXTRA = [0, 0, 0, 0, 0, 0, 0, 0, 1, 1, 1, 1, 2, 2, 2, 2, 3, 3, 3, 3, 4, 4, 4, 4, 5, 5, 5, 5, 0]"

definition ORDER :: "nat list" where
  "ORDER = [16, 17, 18, 0, 8, 7, 9, 6, 10, 5, 11, 4, 12, 3, 13, 2, 14, 1, 15]"

section \<open>Bits\<close>

record bits =
  bt_data :: bytes
  bt_at :: nat
  bt_buf :: u64
  bt_n :: nat

function bt_fill :: "bits \<Rightarrow> bits" where
  "bt_fill b =
     (if bt_n b \<le> 56 \<and> bt_at b < length (bt_data b)
      then bt_fill (b\<lparr>bt_buf := bt_buf b OR push_bit (bt_n b) (ucast (bt_data b ! bt_at b)), bt_at := bt_at b + 1, bt_n := bt_n b + 8\<rparr>)
      else b)"
  by pat_completeness auto
termination
  by (relation "measure (\<lambda>b. length (bt_data b) - bt_at b)") auto

declare bt_fill.simps [simp del]

definition peek :: "nat \<Rightarrow> bits \<Rightarrow> nat \<times> bits" where
  "peek k b = (let b = bt_fill b in (unat (ucast (bt_buf b AND (push_bit k 1 - 1)) :: u32), b))"

definition skip :: "nat \<Rightarrow> bits \<Rightarrow> fault + bits" where
  "skip k b =
     (if bt_n b < k then Inl (bad_media ''a deflate stream ends early'')
      else Inr (b\<lparr>bt_buf := drop_bit k (bt_buf b), bt_n := bt_n b - k\<rparr>))"

definition bt_take :: "nat \<Rightarrow> bits \<Rightarrow> fault + (nat \<times> bits)" where
  "bt_take k b = (case peek k b of (v, b) \<Rightarrow> rmap (\<lambda>b. (v, b)) (skip k b))"

section \<open>Huffman codes\<close>

record huffman =
  hf_fast :: "nat list"
  hf_counts :: "nat list"
  hf_symbols :: "nat list"

definition huff_counts :: "nat list \<Rightarrow> fault + nat list" where
  "huff_counts lengths =
     rmap (\<lambda>counts. counts[0 := 0]) (each (\<lambda>l counts. put_index counts l (counts ! l + 1)) lengths (replicate 16 0))"

definition huff_offs :: "nat list \<Rightarrow> nat list" where
  "huff_offs counts = fold (\<lambda>l offs. offs[l := offs ! (l - 1) + counts ! (l - 1)]) [1..<16] (replicate 16 0)"

definition huff_next :: "nat list \<Rightarrow> nat list" where
  "huff_next counts =
     snd (fold (\<lambda>l (code, nxt). let code = push_bit 1 (code + counts ! (l - 1)) in (code, nxt[l := code])) [1..<16] (0, replicate 16 0))"

text \<open>\<open>u32::reverse_bits\<close>.\<close>

definition reverse_bits :: "u32 \<Rightarrow> u32" where
  "reverse_bits c = horner_sum of_bool 2 (rev (map (bit c) [0..<32]))"

definition fill_fast :: "nat \<Rightarrow> nat \<Rightarrow> nat \<Rightarrow> nat list \<Rightarrow> fault + nat list" where
  "fill_fast r len e fast = each (\<lambda>k fast. put_index fast (r OR push_bit len k) e) [0..<2 ^ (FAST - len)] fast"

type_synonym building = "nat list \<times> nat list \<times> nat list \<times> nat list"

definition huff_symbol :: "nat \<times> nat \<Rightarrow> building \<Rightarrow> fault + building" where
  "huff_symbol = (\<lambda>(s, l) (symbols, offs, nxt, fast).
     rbind (put_index symbols (offs ! l) s) (\<lambda>symbols.
       let c = nxt ! l; offs = offs[l := offs ! l + 1]; nxt = nxt[l := c + 1]
       in rmap (\<lambda>fast. (symbols, offs, nxt, fast))
            (if l \<le> FAST
             then fill_fast (unat (drop_bit (32 - l) (reverse_bits (word_of_nat c)))) l (push_bit 4 s OR l) fast
             else Inr fast)))"

definition huffman_new :: "nat list \<Rightarrow> fault + huffman" where
  "huffman_new lengths =
     rbind (huff_counts lengths) (\<lambda>counts.
       rmap (\<lambda>(symbols, offs, nxt, fast). \<lparr>hf_fast = fast, hf_counts = counts, hf_symbols = symbols\<rparr>)
         (each huff_symbol (filter (\<lambda>(s, l). 0 < l) (enumerate 0 lengths))
            (replicate (length lengths) 0, huff_offs counts, huff_next counts, replicate (2 ^ FAST) 0)))"

fun huff_slow :: "huffman \<Rightarrow> nat list \<Rightarrow> int \<Rightarrow> int \<Rightarrow> int \<Rightarrow> bits \<Rightarrow> fault + (nat \<times> bits)" where
  "huff_slow h [] code first index b = Inl (bad_media ''a deflate stream has an invalid code'')"
| "huff_slow h (l # ls) code first index b =
     rbind (bt_take 1 b) (\<lambda>(v, b).
       let code = code OR int v; count = int (hf_counts h ! l) in
       if code - count < first then rmap (\<lambda>s. (s, b)) (at_index (hf_symbols h) (index + code - first))
       else huff_slow h ls (push_bit 1 code) (push_bit 1 (first + count)) (index + count) b)"

definition huff_decode :: "huffman \<Rightarrow> bits \<Rightarrow> fault + (nat \<times> bits)" where
  "huff_decode h b =
     (case peek FAST b of (v, b) \<Rightarrow>
        rbind (at_index (hf_fast h) (int v)) (\<lambda>e.
          if e \<noteq> 0 then rmap (\<lambda>b. (drop_bit 4 e, b)) (skip (e AND 15) b)
          else huff_slow h [1..<16] 0 0 0 b))"

section \<open>Blocks\<close>

fun stored_bytes :: "nat \<Rightarrow> bits \<times> bytes \<Rightarrow> fault + (bits \<times> bytes)" where
  "stored_bytes 0 st = Inr st"
| "stored_bytes (Suc k) st = rbind (bt_take 8 (fst st)) (\<lambda>(v, b). stored_bytes k (b, snd st @ [byte v]))"

definition stored_block :: "bits \<Rightarrow> bytes \<Rightarrow> fault + (bits \<times> bytes)" where
  "stored_block b out =
     rbind (skip (bt_n b mod 8) b) (\<lambda>b.
     rbind (bt_take 16 b) (\<lambda>(len, b).
     rbind (bt_take 16 b) (\<lambda>(nlen, b).
       if len \<noteq> 0xFFFF - nlen mod 0x10000 then Inl (bad_media ''a stored deflate block has a bad length'')
       else stored_bytes len (b, out))))"

definition length_run :: "nat \<Rightarrow> nat list \<Rightarrow> bits \<Rightarrow> fault + ((nat \<times> nat) \<times> bits)" where
  "length_run s before b =
     (if s \<le> 15 then Inr ((1, s), b)
      else if s = 16 then
        rbind (bt_take 2 b) (\<lambda>(v, b).
          if before = [] then Inl (bad_media ''a deflate length repeats nothing'') else Inr ((3 + v, last before), b))
      else if s = 17 then rbind (bt_take 3 b) (\<lambda>(v, b). Inr ((3 + v, 0), b))
      else rbind (bt_take 7 b) (\<lambda>(v, b). Inr ((11 + v, 0), b)))"

fun code_lengths :: "nat \<Rightarrow> huffman \<Rightarrow> nat \<Rightarrow> nat list \<Rightarrow> bits \<Rightarrow> fault + (nat list \<times> bits)" where
  "code_lengths fuel code all_of lengths b =
     (if all_of \<le> length lengths then Inr (lengths, b)
      else case fuel of
        0 \<Rightarrow> Inl Unfinished
      | Suc fuel \<Rightarrow>
          rbind (huff_decode code b) (\<lambda>(s, b).
          rbind (length_run s lengths b) (\<lambda>((repeat, value), b).
            code_lengths fuel code all_of (lengths @ replicate repeat value) b)))"

declare code_lengths.simps [simp del]

definition order_lengths :: "nat \<Rightarrow> bits \<Rightarrow> fault + (nat list \<times> bits)" where
  "order_lengths ncode b =
     each (\<lambda>i (cl, b). rbind (bt_take 3 b) (\<lambda>(v, b). rmap (\<lambda>cl. (cl, b)) (put_index cl i v))) (take ncode ORDER) (replicate 19 0, b)"

definition dynamic :: "bits \<Rightarrow> fault + (huffman \<times> huffman \<times> bits)" where
  "dynamic b =
     rbind (bt_take 5 b) (\<lambda>(v, b). let nlit = v + 257 in
     rbind (bt_take 5 b) (\<lambda>(v, b). let ndist = v + 1 in
     rbind (bt_take 4 b) (\<lambda>(v, b). let ncode = v + 4 in
     rbind (order_lengths ncode b) (\<lambda>(cl, b).
     rbind (huffman_new cl) (\<lambda>code.
     rbind (code_lengths (nlit + ndist) code (nlit + ndist) [] b) (\<lambda>(lengths, b).
       if nlit + ndist < length lengths then Inl (bad_media ''deflate code lengths overrun'')
       else rbind (huffman_new (take nlit lengths)) (\<lambda>lit_code.
         rbind (huffman_new (drop nlit lengths)) (\<lambda>dist. Inr (lit_code, dist, b)))))))))"

definition distance :: "huffman \<Rightarrow> bits \<Rightarrow> fault + (nat \<times> bits)" where
  "distance dist b =
     rbind (huff_decode dist b) (\<lambda>(d, b).
       if 30 \<le> d then Inl (bad_media ''a deflate distance code past 29'')
       else
         let extra = (if d < 2 then 0 else d div 2 - 1);
             base = (if d < 4 then d + 1 else push_bit extra (2 + (d AND 1)) + 1)
         in rmap (\<lambda>(v, b). (base + v, b)) (bt_take extra b))"

text \<open>The copy of a back-reference, byte by byte: it may read what it has just written.\<close>

fun copy_back :: "nat \<Rightarrow> nat \<Rightarrow> bytes \<Rightarrow> fault + bytes" where
  "copy_back 0 at out = Inr out"
| "copy_back (Suc k) at out = rbind (at_index out (int at)) (\<lambda>v. copy_back k (at + 1) (out @ [v]))"

fun codes :: "nat \<Rightarrow> huffman \<Rightarrow> huffman \<Rightarrow> bits \<Rightarrow> bytes \<Rightarrow> fault + (bits \<times> bytes)" where
  "codes 0 lit_code dist b out = Inl Unfinished"
| "codes (Suc fuel) lit_code dist b out =
     rbind (huff_decode lit_code b) (\<lambda>(s, b).
       if s < 256 then codes fuel lit_code dist b (out @ [byte s])
       else if s = 256 then Inr (b, out)
       else if s \<le> 285 then
         rbind (at_index BASES (int s - 257)) (\<lambda>base.
         rbind (at_index EXTRA (int s - 257)) (\<lambda>extra.
         rbind (bt_take extra b) (\<lambda>(v, b).
         rbind (distance dist b) (\<lambda>(offset, b).
           if length out < offset then Inl (bad_media ''a deflate distance reaches before the start'')
           else rbind (copy_back (base + v) (length out - offset) out) (\<lambda>out. codes fuel lit_code dist b out)))))
       else Inl (bad_media ''a deflate length code past 285''))"

definition fixed_lengths :: "nat list" where
  "fixed_lengths = replicate 144 8 @ replicate 112 9 @ replicate 24 7 @ replicate 8 8"

definition bits_left :: "bits \<Rightarrow> nat" where
  "bits_left b = bt_n b + 8 * (length (bt_data b) - bt_at b)"

definition inflate_block :: "bits \<Rightarrow> bytes \<Rightarrow> fault + (bool \<times> bits \<times> bytes)" where
  "inflate_block b out =
     rbind (bt_take 3 b) (\<lambda>(head, b).
       rmap (\<lambda>(b, out). (head AND 1 = 1, b, out))
         (let kind = drop_bit 1 head in
          if kind = 0 then stored_block b out
          else if kind = 1 then
            rbind (huffman_new fixed_lengths) (\<lambda>lit_code. rbind (huffman_new (replicate 30 5)) (\<lambda>dist.
              codes (bits_left b + 1) lit_code dist b out))
          else if kind = 2 then
            rbind (dynamic b) (\<lambda>(lit_code, dist, b). codes (bits_left b + 1) lit_code dist b out)
          else Inl (bad_media ''a deflate block of type 3'')))"

fun inflate_blocks :: "nat \<Rightarrow> bits \<Rightarrow> bytes \<Rightarrow> fault + (bits \<times> bytes)" where
  "inflate_blocks 0 b out = Inl Unfinished"
| "inflate_blocks (Suc fuel) b out =
     rbind (inflate_block b out) (\<lambda>(final, b, out). if final then Inr (b, out) else inflate_blocks fuel b out)"

section \<open>The stream\<close>

definition adler_step :: "u8 \<Rightarrow> u32 \<times> u32 \<Rightarrow> u32 \<times> u32" where
  "adler_step v = (\<lambda>(a, b). (a + ucast v, b + a + ucast v))"

fun adler :: "bytes \<Rightarrow> u32 \<times> u32 \<Rightarrow> u32 \<times> u32" where
  "adler out ab =
     (if out = [] then ab
      else case fold adler_step (take 5552 out) ab of (a, b) \<Rightarrow> adler (drop 5552 out) (a mod 65521, b mod 65521))"

declare adler.simps [simp del]

definition zlib :: "bytes \<Rightarrow> fault + bytes" where
  "zlib z =
     (if length z < 6 \<or> z ! 0 AND 15 \<noteq> 8 \<or> (unat (z ! 0) * 256 + unat (z ! 1)) mod 31 \<noteq> 0 \<or> z ! 1 AND 32 \<noteq> 0
      then Inl (bad_media ''not a zlib stream'')
      else
        let b = \<lparr>bt_data = drop 2 z, bt_at = 0, bt_buf = 0, bt_n = 0\<rparr> in
        rbind (inflate_blocks (bits_left b + 1) b []) (\<lambda>(b, out).
          let end = 2 + bt_at b - bt_n b div 8;
              wanted = map_option (\<lambda>bs. word_of_nat (be_val bs) :: u32) (slice z end 4)
          in case adler out (1, 0) of (x, y) \<Rightarrow>
               if wanted \<noteq> Some (push_bit 16 y OR x) then Inl (bad_media ''a zlib stream fails its checksum'')
               else Inr out))"

section \<open>The bits as a list\<close>

definition byte_bits :: "u8 \<Rightarrow> bool list" where
  "byte_bits v = map (bit v) [0..<8]"

definition bt_list :: "bits \<Rightarrow> bool list" where
  "bt_list b = map (bit (bt_buf b)) [0..<bt_n b] @ concat (map byte_bits (drop (bt_at b) (bt_data b)))"

definition bits_ok :: "bits \<Rightarrow> bool" where
  "bits_ok b \<longleftrightarrow> bt_n b \<le> 64 \<and> (\<forall>i \<ge> bt_n b. \<not> bit (bt_buf b) i) \<and> bt_at b \<le> length (bt_data b)"

definition bits_val :: "bool list \<Rightarrow> nat" where
  "bits_val bs = horner_sum of_bool 2 bs"

lemma length_byte_bits [simp]: "length (byte_bits v) = 8"
  by (simp add: byte_bits_def)

lemma length_concat_bits [simp]: "length (concat (map byte_bits bs)) = 8 * length bs"
  by (induction bs) simp_all

lemma length_bt_list: "bits_ok b \<Longrightarrow> length (bt_list b) = bits_left b"
  by (simp add: bt_list_def bits_left_def)

lemma fill_step:
  assumes "bits_ok b" "bt_n b \<le> 56" "bt_at b < length (bt_data b)"
  defines "b' \<equiv> b\<lparr>bt_buf := bt_buf b OR push_bit (bt_n b) (ucast (bt_data b ! bt_at b)), bt_at := bt_at b + 1, bt_n := bt_n b + 8\<rparr>"
  shows "bits_ok b'" "bt_list b' = bt_list b"
proof -
  let ?n = "bt_n b" and ?v = "bt_data b ! bt_at b"
  have bitv: "bit (bt_buf b OR push_bit ?n (ucast ?v)) i \<longleftrightarrow> (if i < ?n then bit (bt_buf b) i else i < ?n + 8 \<and> bit ?v (i - ?n))" for i
    using assms(1,2) by (auto simp: bits_ok_def bit_simps dest: bit_imp_le_length)
  then show "bits_ok b'" using assms by (simp add: bits_ok_def)
  have "map (bit (bt_buf b')) [0..<?n + 8] = map (bit (bt_buf b)) [0..<?n] @ byte_bits ?v"
    by (rule nth_equalityI) (auto simp: b'_def bitv nth_append byte_bits_def)
  moreover have "drop (bt_at b) (bt_data b) = ?v # drop (bt_at b + 1) (bt_data b)" using assms(3) by (simp add: Cons_nth_drop_Suc)
  ultimately show "bt_list b' = bt_list b" by (simp add: bt_list_def b'_def)
qed

lemma bt_fill_ok:
  "bits_ok b \<Longrightarrow> bits_ok (bt_fill b) \<and> bt_list (bt_fill b) = bt_list b \<and> bt_data (bt_fill b) = bt_data b \<and>
     (bt_at (bt_fill b) = length (bt_data b) \<or> 56 < bt_n (bt_fill b))"
proof (induction b rule: bt_fill.induct)
  case (1 b)
  show ?case
  proof (cases "bt_n b \<le> 56 \<and> bt_at b < length (bt_data b)")
    case True
    then show ?thesis using 1 fill_step [OF 1(2)] by (subst (1 2 3 4 5) bt_fill.simps) simp
  next
    case False
    then show ?thesis using 1(2) by (subst (1 2 3 4 5) bt_fill.simps) (auto simp: bits_ok_def)
  qed
qed

lemma skip_ok:
  assumes "bits_ok b" "k \<le> bt_n b"
  obtains b' where "skip k b = Inr b'" "bits_ok b'" "bt_list b' = drop k (bt_list b)" "bt_data b' = bt_data b"
proof
  show "skip k b = Inr (b\<lparr>bt_buf := drop_bit k (bt_buf b), bt_n := bt_n b - k\<rparr>)" using assms(2) by (simp add: skip_def)
  show "bits_ok (b\<lparr>bt_buf := drop_bit k (bt_buf b), bt_n := bt_n b - k\<rparr>)" using assms by (auto simp: bits_ok_def bit_simps)
  have "map (bit (drop_bit k (bt_buf b))) [0..<bt_n b - k] = drop k (map (bit (bt_buf b)) [0..<bt_n b])"
    by (rule nth_equalityI) (simp_all add: bit_simps)
  then show "bt_list (b\<lparr>bt_buf := drop_bit k (bt_buf b), bt_n := bt_n b - k\<rparr>) = drop k (bt_list b)"
    using assms(2) by (simp add: bt_list_def)
qed simp

lemma filled_enough:
  assumes "bits_ok b" "k \<le> 57"
  shows "k \<le> bt_n (bt_fill b) \<longleftrightarrow> k \<le> length (bt_list b)"
  using bt_fill_ok [OF assms(1)] assms(2) by (auto simp: bt_list_def dest!: arg_cong [of _ _ length])

lemma horner_bit: "bit (horner_sum of_bool (2 :: nat) (map f [0..<k])) n \<longleftrightarrow> n < k \<and> f n"
  by (auto simp: bit_horner_sum_bit_iff)

lemma horner_pad:
  assumes "\<forall>i \<ge> m. i < k \<longrightarrow> \<not> f i" "m \<le> k"
  shows "horner_sum of_bool (2 :: nat) (map f [0..<k]) = horner_sum of_bool 2 (map f [0..<m])"
proof (rule bit_eqI)
  fix n
  have "n < k \<and> f n \<longleftrightarrow> n < m \<and> f n" using assms by (meson leI less_le_trans)
  then show "bit (horner_sum of_bool (2 :: nat) (map f [0..<k])) n \<longleftrightarrow> bit (horner_sum of_bool (2 :: nat) (map f [0..<m])) n"
    by (simp add: horner_bit)
qed

lemma peek_val:
  assumes "bits_ok b" "k \<le> 32"
  shows "peek k b = (bits_val (take k (bt_list b)), bt_fill b)"
proof -
  let ?b = "bt_fill b"
  note f = bt_fill_ok [OF assms(1)]
  have "(push_bit k 1 - 1 :: u64) = mask k" by (simp add: mask_eq_exp_minus_1)
  then have "unat (ucast (bt_buf ?b AND (push_bit k 1 - 1)) :: u32) = unat (ucast (take_bit k (bt_buf ?b)) :: u32)" by (simp add: take_bit_eq_mask)
  also have "\<dots> = horner_sum of_bool 2 (map (bit (bt_buf ?b)) [0..<k])"
    using assms(2) by (intro bit_eqI) (auto simp: bit_simps bit_horner_sum_bit_iff)
  also have "\<dots> = bits_val (take k (bt_list b))"
  proof (cases "k \<le> bt_n ?b")
    case True
    then have "take k (bt_list ?b) = map (bit (bt_buf ?b)) [0..<k]" by (simp add: bt_list_def take_map)
    then show ?thesis using f by (simp add: bits_val_def)
  next
    case False
    then have "bt_at ?b = length (bt_data b)" using f assms(2) by auto
    then have "bt_list ?b = map (bit (bt_buf ?b)) [0..<bt_n ?b]" using f by (simp add: bt_list_def)
    then show ?thesis using f False horner_pad [of "bt_n ?b" k "bit (bt_buf ?b)"] by (simp add: bits_val_def bits_ok_def)
  qed
  finally show ?thesis by (simp add: peek_def Let_def)
qed

lemma take_ok:
  assumes "bits_ok b" "k \<le> 32" "k \<le> length (bt_list b)"
  obtains b' where "bt_take k b = Inr (bits_val (take k (bt_list b)), b')" "bits_ok b'" "bt_list b' = drop k (bt_list b)" "bt_data b' = bt_data b"
proof -
  note f = bt_fill_ok [OF assms(1)]
  have "k \<le> bt_n (bt_fill b)" using filled_enough [OF assms(1), of k] assms(2,3) by simp
  then obtain b' where "skip k (bt_fill b) = Inr b'" "bits_ok b'" "bt_list b' = drop k (bt_list b)" "bt_data b' = bt_data b"
    using skip_ok [of "bt_fill b" k] f by metis
  then show thesis using that peek_val [OF assms(1,2)] by (simp add: bt_take_def)
qed

lemma take_short:
  assumes "bits_ok b" "k \<le> 32" "length (bt_list b) < k"
  shows "bt_take k b = Inl (bad_media ''a deflate stream ends early'')"
  using filled_enough [OF assms(1), of k] assms(2,3) peek_val [OF assms(1,2)] by (simp add: bt_take_def skip_def not_le)

section \<open>Canonical codes\<close>

text \<open>The codes of RFC 1951 (3.2.2): the symbols of a length get consecutive values, in order, after those of the shorter
  lengths. A code is read from its most significant bit on.\<close>

definition len_count :: "nat list \<Rightarrow> nat \<Rightarrow> nat" where
  "len_count lengths l = (if l = 0 then 0 else count_list lengths l)"

fun first_code :: "nat list \<Rightarrow> nat \<Rightarrow> nat" where
  "first_code lengths 0 = 0"
| "first_code lengths (Suc l) = 2 * (first_code lengths l + len_count lengths l)"

fun first_index :: "nat list \<Rightarrow> nat \<Rightarrow> nat" where
  "first_index lengths 0 = 0"
| "first_index lengths (Suc l) = first_index lengths l + len_count lengths l"

definition rank_of :: "nat list \<Rightarrow> nat \<Rightarrow> nat" where
  "rank_of lengths s = count_list (take s lengths) (lengths ! s)"

definition code_of :: "nat list \<Rightarrow> nat \<Rightarrow> nat" where
  "code_of lengths s = first_code lengths (lengths ! s) + rank_of lengths s"

definition msb_val :: "bool list \<Rightarrow> nat" where
  "msb_val bs = bits_val (rev bs)"

definition code_matches :: "nat list \<Rightarrow> bool list \<Rightarrow> nat \<Rightarrow> bool" where
  "code_matches lengths bs s \<longleftrightarrow>
     s < length lengths \<and> 0 < lengths ! s \<and> lengths ! s \<le> length bs \<and> msb_val (take (lengths ! s) bs) = code_of lengths s"

text \<open>The lengths of a code: at most 15, and no more codes than there is room for.\<close>

definition lengths_ok :: "nat list \<Rightarrow> bool" where
  "lengths_ok lengths \<longleftrightarrow> list_all (\<lambda>l. l \<le> 15) lengths \<and> sum_list (map (\<lambda>l. if l = 0 then 0 else 2 ^ (15 - l)) lengths) \<le> (2 :: nat) ^ 15"

lemma first_later:
  assumes "k < l"
  shows "(first_code lengths k + len_count lengths k) * 2 ^ (l - k) \<le> first_code lengths l"
  using assms
proof (induction l)
  case (Suc l)
  show ?case
  proof (cases "k = l")
    case False
    then have "(first_code lengths k + len_count lengths k) * 2 ^ (l - k) * 2 \<le> first_code lengths l * 2" using Suc by simp
    then show ?thesis using False Suc.prems by (simp add: Suc_diff_le algebra_simps)
  qed simp
qed simp

lemma index_later: "k < l \<Longrightarrow> first_index lengths k + len_count lengths k \<le> first_index lengths l"
  by (induction l) (auto simp: less_Suc_eq)

lemma count_take_less: "s < length xs \<Longrightarrow> count_list (take s xs) (xs ! s) < count_list xs (xs ! s)"
  by (subst (2) id_take_nth_drop [of s xs]) simp_all

lemma rank_less: "s < length lengths \<Longrightarrow> 0 < lengths ! s \<Longrightarrow> rank_of lengths s < len_count lengths (lengths ! s)"
  by (simp add: rank_of_def len_count_def count_take_less)

lemma count_take_mono: "s < t \<Longrightarrow> t \<le> length xs \<Longrightarrow> count_list (take s xs) (xs ! s) < count_list (take t xs) (xs ! s)"
  using count_take_less [of s "take t xs"] by (simp add: min_def)

lemma rank_inj: "s < length lengths \<Longrightarrow> t < length lengths \<Longrightarrow> lengths ! s = lengths ! t \<Longrightarrow> rank_of lengths s = rank_of lengths t \<Longrightarrow> s = t"
  using count_take_mono [of s t lengths] count_take_mono [of t s lengths] by (cases s t rule: linorder_cases) (simp_all add: rank_of_def)

lemma rank_onto:
  assumes "v < count_list lengths l"
  obtains s where "s < length lengths" "lengths ! s = l" "rank_of lengths s = v"
proof -
  have "\<exists>s < length lengths. lengths ! s = l \<and> rank_of lengths s = v" using assms
  proof (induction lengths rule: rev_induct)
    case (snoc x xs)
    show ?case
    proof (cases "v < count_list xs l")
      case True
      then obtain s where "s < length xs" "xs ! s = l" "rank_of xs s = v" using snoc.IH by blast
      then show ?thesis by (intro exI [of _ s]) (simp add: rank_of_def nth_append)
    next
      case False
      then have "x = l" "v = count_list xs l" using snoc.prems by (auto split: if_splits)
      then show ?thesis by (intro exI [of _ "length xs"]) (simp add: rank_of_def)
    qed
  qed simp
  then show thesis using that by blast
qed

lemma msb_take:
  assumes "k \<le> l" "l \<le> length bs"
  shows "msb_val (take k bs) = msb_val (take l bs) div 2 ^ (l - k)"
proof -
  have "rev (take l bs) = rev (take (l - k) (drop k bs)) @ rev (take k bs)" using assms by (metis le_add_diff_inverse rev_append take_add)
  moreover have "bits_val (xs @ ys) div 2 ^ length xs = bits_val ys" for xs ys
    using horner_sum_of_bool_2_less [of xs, where 'a = nat] by (simp add: bits_val_def horner_sum_append)
  ultimately show ?thesis using assms by (metis length_rev length_take length_drop min.absorb2 diff_le_mono msb_val_def)
qed

lemma code_bounds:
  assumes "s < length lengths" "0 < lengths ! s"
  shows "first_code lengths (lengths ! s) \<le> code_of lengths s" "code_of lengths s < first_code lengths (lengths ! s) + len_count lengths (lengths ! s)"
  using rank_less [OF assms] by (simp_all add: code_of_def)

lemma longer_differs:
  assumes "code_matches lengths bs s" "k < lengths ! s" "k \<le> length bs"
  shows "first_code lengths k + len_count lengths k \<le> msb_val (take k bs)"
proof -
  let ?l = "lengths ! s"
  have "(first_code lengths k + len_count lengths k) * 2 ^ (?l - k) \<le> msb_val (take ?l bs)"
    using first_later [OF assms(2), of lengths] code_bounds [of s lengths] assms(1) by (auto simp: code_matches_def)
  then have "first_code lengths k + len_count lengths k \<le> msb_val (take ?l bs) div 2 ^ (?l - k)"
    by (simp add: less_eq_div_iff_mult_less_eq)
  then show ?thesis using msb_take [of k ?l bs] assms(1,2) by (simp add: code_matches_def)
qed

lemma matches_unique:
  assumes "code_matches lengths bs s" "code_matches lengths bs t"
  shows "s = t"
proof -
  have le: "lengths ! x \<le> lengths ! y" if "code_matches lengths bs x" "code_matches lengths bs y" for x y
    using longer_differs [OF that(1), of "lengths ! y"] that code_bounds [of y lengths] by (force simp: code_matches_def)
  have "lengths ! s = lengths ! t" using le assms by (simp add: le_antisym)
  then show ?thesis using assms rank_inj [of s lengths t] by (simp add: code_matches_def code_of_def)
qed

definition room_taken :: "nat list \<Rightarrow> nat \<Rightarrow> nat" where
  "room_taken lengths l = sum_list (map (\<lambda>x. if x = 0 \<or> l \<le> x then 0 else 2 ^ (15 - x)) lengths)"

lemma room_taken_Suc: "room_taken lengths (Suc l) = room_taken lengths l + len_count lengths l * 2 ^ (15 - l)"
proof (induction lengths)
  case (Cons x xs)
  have one: "(if x = 0 \<or> Suc l \<le> x then 0 else 2 ^ (15 - x)) =
      (if x = 0 \<or> l \<le> x then 0 else 2 ^ (15 - x)) + (if l \<noteq> 0 \<and> x = l then 2 ^ (15 - l) else (0 :: nat))" by auto
  have two: "len_count (x # xs) l * 2 ^ (15 - l) = (if l \<noteq> 0 \<and> x = l then 2 ^ (15 - l) else (0 :: nat)) + len_count xs l * 2 ^ (15 - l)"
    by (simp add: len_count_def)
  have tail: "room_taken (x # xs) k = (if x = 0 \<or> k \<le> x then 0 else 2 ^ (15 - x)) + room_taken xs k" for k by (simp add: room_taken_def)
  show ?case unfolding tail one two Cons.IH by simp
qed (simp add: room_taken_def len_count_def)

lemma first_code_room: "l \<le> 15 \<Longrightarrow> first_code lengths l * 2 ^ (15 - l) = room_taken lengths l"
proof (induction l)
  case 0
  then show ?case by (simp add: room_taken_def)
next
  case (Suc l)
  have "15 - l = Suc (15 - Suc l)" using Suc.prems by simp
  then show ?case using Suc by (simp add: room_taken_Suc algebra_simps)
qed

lemma code_fits:
  assumes "lengths_ok lengths" "l \<le> 15"
  shows "first_code lengths l + len_count lengths l \<le> 2 ^ l"
proof -
  have "room_taken lengths (Suc l) \<le> sum_list (map (\<lambda>l. if l = 0 then 0 else 2 ^ (15 - l)) lengths)"
    unfolding room_taken_def by (rule sum_list_mono) auto
  then have "(first_code lengths l + len_count lengths l) * 2 ^ (15 - l) \<le> 2 ^ 15"
    using assms first_code_room [OF assms(2)] by (simp add: lengths_ok_def room_taken_Suc algebra_simps)
  also have "(2 :: nat) ^ 15 = 2 ^ l * 2 ^ (15 - l)" using assms(2) by (simp flip: power_add)
  finally show ?thesis by simp
qed

lemma lengths_le: "lengths_ok lengths \<Longrightarrow> s < length lengths \<Longrightarrow> lengths ! s \<le> 15"
  by (simp add: lengths_ok_def list_all_length)

lemma code_of_less:
  assumes "lengths_ok lengths" "s < length lengths" "0 < lengths ! s"
  shows "code_of lengths s < 2 ^ (lengths ! s)"
  using code_bounds(2) [OF assms(2,3)] code_fits [OF assms(1) lengths_le [OF assms(1,2)]] by linarith

section \<open>The tables\<close>

lemma put_index_ok: "i < length xs \<Longrightarrow> put_index xs i v = Inr (xs[i := v])"
  by (simp add: put_index_def)

lemma counts_each:
  "list_all (\<lambda>l. l \<le> 15) lengths \<Longrightarrow> length cs = 16 \<Longrightarrow>
     \<exists>cs'. each (\<lambda>l counts. put_index counts l (counts ! l + 1)) lengths cs = Inr cs' \<and> length cs' = 16 \<and>
       (\<forall>l < 16. cs' ! l = cs ! l + count_list lengths l)"
proof (induction lengths arbitrary: cs)
  case (Cons x xs)
  then have "x < length cs" by simp
  moreover obtain cs' where "each (\<lambda>l counts. put_index counts l (counts ! l + 1)) xs (cs[x := cs ! x + 1]) = Inr cs'"
      "length cs' = 16" "\<forall>l < 16. cs' ! l = cs[x := cs ! x + 1] ! l + count_list xs l"
    using Cons.IH [of "cs[x := cs ! x + 1]"] Cons.prems by auto
  ultimately show ?case by (auto simp: put_index_def nth_list_update)
qed simp

lemma huff_counts_ok:
  assumes "list_all (\<lambda>l. l \<le> 15) lengths"
  obtains cs where "huff_counts lengths = Inr cs" "length cs = 16" "\<forall>l < 16. cs ! l = len_count lengths l"
proof -
  obtain cs where "each (\<lambda>l counts. put_index counts l (counts ! l + 1)) lengths (replicate 16 0) = Inr cs" "length cs = 16"
      "\<forall>l < 16. cs ! l = count_list lengths l"
    using counts_each [OF assms, of "replicate 16 0"] by auto
  then show thesis using that [of "cs[0 := 0]"] by (auto simp: huff_counts_def len_count_def nth_list_update)
qed

lemma huff_offs_ok:
  assumes "\<forall>l < 16. cs ! l = len_count lengths l"
  shows "length (huff_offs cs) = 16 \<and> (\<forall>l < 16. huff_offs cs ! l = first_index lengths l)"
proof -
  have "length (fold (\<lambda>l offs. offs[l := offs ! (l - 1) + cs ! (l - 1)]) [1..<Suc m] (replicate 16 0)) = 16 \<and>
      (\<forall>l \<le> m. fold (\<lambda>l offs. offs[l := offs ! (l - 1) + cs ! (l - 1)]) [1..<Suc m] (replicate 16 0) ! l = first_index lengths l)" if "m < 16" for m
    using that
  proof (induction m)
    case (Suc m)
    then show ?case using assms by (auto simp: nth_list_update le_Suc_eq)
  qed simp
  from this [of 15] show ?thesis by (auto simp: huff_offs_def less_Suc_eq_le [of _ 15, simplified])
qed

lemma huff_next_ok:
  assumes "\<forall>l < 16. cs ! l = len_count lengths l"
  shows "length (huff_next cs) = 16 \<and> (\<forall>l < 16. huff_next cs ! l = first_code lengths l)"
proof -
  let ?f = "\<lambda>l (code, nxt). let code = push_bit 1 (code + cs ! (l - 1)) in (code, nxt[l := code])"
  have "fst (fold ?f [1..<Suc m] (0, replicate 16 0)) = first_code lengths m \<and> length (snd (fold ?f [1..<Suc m] (0, replicate 16 0))) = 16 \<and>
      (\<forall>l \<le> m. snd (fold ?f [1..<Suc m] (0, replicate 16 0)) ! l = first_code lengths l)" if "m < 16" for m
    using that
  proof (induction m)
    case (Suc m)
    then show ?case using assms by (auto simp: nth_list_update le_Suc_eq Let_def split: prod.splits)
  qed simp
  from this [of 15] show ?thesis by (auto simp: huff_next_def less_Suc_eq_le [of _ 15, simplified])
qed

lemma rbind_assoc: "rbind (rbind r f) g = rbind r (\<lambda>x. rbind (f x) g)"
  by (cases r) simp_all

lemma high_clear:
  assumes "c < 2 ^ l" "l \<le> i"
  shows "\<not> bit (c :: nat) i"
proof -
  have "c < 2 ^ i" using assms power_increasing [of l i "2 :: nat"] by linarith
  then show ?thesis by (simp add: bit_iff_odd)
qed

lemma each_append: "each f (xs @ ys) st = rbind (each f xs st) (each f ys)"
  by (induction xs arbitrary: st) (simp_all add: rbind_assoc fun_eq_iff [symmetric] cong: rbind_cong)

lemma low_high:
  assumes "r < 2 ^ l"
  shows "r OR push_bit l m = r + m * 2 ^ l" "x = r OR push_bit l m \<longleftrightarrow> take_bit l x = r \<and> drop_bit l x = (m :: nat)"
proof -
  have "r AND push_bit l m = 0"
    using high_clear [OF assms] by (intro bit_eqI) (auto simp: bit_simps)
  then show e: "r OR push_bit l m = r + m * 2 ^ l" by (simp add: disjunctive_add_eq_or [symmetric] push_bit_eq_mult)
  have "take_bit l (r + m * 2 ^ l) = r" "drop_bit l (r + m * 2 ^ l) = m" using assms by (simp_all add: take_bit_eq_mod drop_bit_eq_div)
  moreover have "x = take_bit l x + drop_bit l x * 2 ^ l" by (metis add.commute bits_ident push_bit_eq_mult)
  ultimately show "x = r OR push_bit l m \<longleftrightarrow> take_bit l x = r \<and> drop_bit l x = m" unfolding e by metis
qed

lemma fill_fast_ok:
  assumes "r < 2 ^ l" "l \<le> FAST" "length fast = 2 ^ FAST"
  obtains fast' where "fill_fast r l e fast = Inr fast'" "length fast' = 2 ^ FAST" "\<forall>x < 2 ^ FAST. fast' ! x = (if take_bit l x = r then e else fast ! x)"
proof -
  let ?f = "\<lambda>k fast. put_index fast (r OR push_bit l k) e"
  have "\<exists>fm. each ?f [0..<m] fast = Inr fm \<and> length fm = 2 ^ FAST \<and>
      (\<forall>x < 2 ^ FAST. fm ! x = (if take_bit l x = r \<and> drop_bit l x < m then e else fast ! x))" if "m \<le> 2 ^ (FAST - l)" for m
    using that
  proof (induction m)
    case (Suc m)
    then obtain fm where fm: "each ?f [0..<m] fast = Inr fm" "length fm = 2 ^ FAST"
        "\<forall>x < 2 ^ FAST. fm ! x = (if take_bit l x = r \<and> drop_bit l x < m then e else fast ! x)" by auto
    have "r + m * 2 ^ l < (m + 1) * 2 ^ l" using assms(1) by simp
    also have "\<dots> \<le> 2 ^ (FAST - l) * 2 ^ l" using Suc.prems by (intro mult_le_mono1) simp
    also have "(2 :: nat) ^ (FAST - l) * 2 ^ l = 2 ^ FAST" using assms(2) by (simp flip: power_add)
    finally have i: "r OR push_bit l m < 2 ^ FAST" using low_high(1) [OF assms(1)] by simp
    have "each ?f [0..<Suc m] fast = Inr (fm[r OR push_bit l m := e])" using fm(1,2) i by (simp add: each_append put_index_def)
    moreover have "\<forall>x < 2 ^ FAST. fm[r OR push_bit l m := e] ! x = (if take_bit l x = r \<and> drop_bit l x < Suc m then e else fast ! x)"
    proof (intro allI impI)
      fix x :: nat assume x: "x < 2 ^ FAST"
      have "fm[r OR push_bit l m := e] ! x = (if x = r OR push_bit l m then e else fm ! x)" using fm(2) i by (auto simp: nth_list_update)
      then show "fm[r OR push_bit l m := e] ! x = (if take_bit l x = r \<and> drop_bit l x < Suc m then e else fast ! x)"
        using fm(3) x unfolding low_high(2) [OF assms(1)] by auto
    qed
    ultimately show ?case using fm(2) by auto
  qed (use assms(3) in simp)
  from this [of "2 ^ (FAST - l)"] obtain fm where fm: "each ?f [0..<2 ^ (FAST - l)] fast = Inr fm" "length fm = 2 ^ FAST"
      "\<forall>x < 2 ^ FAST. fm ! x = (if take_bit l x = r \<and> drop_bit l x < 2 ^ (FAST - l) then e else fast ! x)" by auto
  have "drop_bit l x < 2 ^ (FAST - l)" if "x < 2 ^ FAST" for x :: nat
    using that assms(2) by (simp add: drop_bit_eq_div less_mult_imp_div_less flip: power_add)
  then show thesis using that [of fm] fm by (simp add: fill_fast_def)
qed

lemma reversed_bits:
  assumes "0 < l" "l \<le> 32"
  shows "bit (unat (drop_bit (32 - l) (reverse_bits (word_of_nat c)))) j \<longleftrightarrow> j < l \<and> bit c (l - 1 - j)"
proof -
  have "bit (reverse_bits w) i \<longleftrightarrow> i < 32 \<and> bit w (31 - i)" for w i
    by (auto simp: reverse_bits_def bit_horner_sum_bit_iff rev_nth)
  then show ?thesis using assms by (auto simp: bit_simps)
qed

lemma msb_bit: "bit (msb_val (map (bit x) [0..<l])) i \<longleftrightarrow> i < l \<and> bit x (l - 1 - i)"
  by (auto simp: msb_val_def bits_val_def bit_horner_sum_bit_iff rev_nth)

lemma reversed_code:
  assumes "0 < l" "l \<le> 32"
  shows "unat (drop_bit (32 - l) (reverse_bits (word_of_nat c))) < 2 ^ l"
    "c < 2 ^ l \<Longrightarrow> take_bit l x = unat (drop_bit (32 - l) (reverse_bits (word_of_nat c))) \<longleftrightarrow> msb_val (map (bit x) [0..<l]) = c"
proof -
  show "unat (drop_bit (32 - l) (reverse_bits (word_of_nat c))) < 2 ^ l"
    unfolding take_bit_nat_eq_self_iff [symmetric] using reversed_bits [OF assms] by (intro bit_eqI) (auto simp: bit_simps)
  assume c: "c < 2 ^ l"
  have high: "\<not> bit c i" if "l \<le> i" for i using high_clear [OF c that] .
  have "take_bit l x = unat (drop_bit (32 - l) (reverse_bits (word_of_nat c))) \<longleftrightarrow> (\<forall>j < l. bit x j = bit c (l - 1 - j))"
  proof -
    have "take_bit l x = y \<longleftrightarrow> (\<forall>j. (j < l \<and> bit x j) = bit y j)" for y :: nat by (simp add: bit_eq_iff bit_take_bit_iff)
    then show ?thesis using reversed_bits [OF assms, of c] by blast
  qed
  also have "\<dots> \<longleftrightarrow> (\<forall>i < l. bit x (l - 1 - i) = bit c i)"
  proof
    assume a: "\<forall>j < l. bit x j = bit c (l - 1 - j)"
    have "bit x (l - 1 - i) = bit c i" if "i < l" for i
    proof -
      have "l - 1 - i < l" "l - 1 - (l - 1 - i) = i" using that by auto
      then show ?thesis using a by metis
    qed
    then show "\<forall>i < l. bit x (l - 1 - i) = bit c i" by blast
  next
    assume a: "\<forall>i < l. bit x (l - 1 - i) = bit c i"
    have "bit x j = bit c (l - 1 - j)" if "j < l" for j
    proof -
      have "l - 1 - j < l" "l - 1 - (l - 1 - j) = j" using that by auto
      then show ?thesis using a by metis
    qed
    then show "\<forall>j < l. bit x j = bit c (l - 1 - j)" by blast
  qed
  also have "\<dots> \<longleftrightarrow> msb_val (map (bit x) [0..<l]) = c"
  proof -
    have "msb_val (map (bit x) [0..<l]) = c \<longleftrightarrow> (\<forall>n. (n < l \<and> bit x (l - 1 - n)) = bit c n)" by (simp add: bit_eq_iff msb_bit)
    then show ?thesis using high by (metis leI)
  qed
  finally show "take_bit l x = unat (drop_bit (32 - l) (reverse_bits (word_of_nat c))) \<longleftrightarrow> msb_val (map (bit x) [0..<l]) = c" .
qed

text \<open>The tables after the symbols below \<open>t\<close>: positions and codes used up, and the entries of the short codes (the last
  only when the codes fit).\<close>

definition short_match :: "nat list \<Rightarrow> nat \<Rightarrow> nat \<Rightarrow> bool" where
  "short_match lengths x s \<longleftrightarrow> lengths ! s \<le> FAST \<and> code_matches lengths (map (bit x) [0..<FAST]) s"

definition entry :: "nat list \<Rightarrow> nat \<Rightarrow> nat" where
  "entry lengths s = push_bit 4 s OR lengths ! s"

definition built :: "nat list \<Rightarrow> nat \<Rightarrow> building \<Rightarrow> bool" where
  "built lengths t = (\<lambda>(symbols, offs, nxt, fast).
     length symbols = length lengths \<and> length offs = 16 \<and> length nxt = 16 \<and> length fast = 2 ^ FAST \<and>
     (\<forall>l < 16. 0 < l \<longrightarrow> offs ! l = first_index lengths l + count_list (take t lengths) l \<and> nxt ! l = first_code lengths l + count_list (take t lengths) l) \<and>
     (\<forall>s < t. 0 < lengths ! s \<longrightarrow> symbols ! (first_index lengths (lengths ! s) + rank_of lengths s) = s) \<and>
     (\<forall>x < 2 ^ FAST. fast ! x = 0 \<or> (\<exists>s < t. 0 < lengths ! s \<and> lengths ! s \<le> FAST \<and> fast ! x = entry lengths s)) \<and>
     (lengths_ok lengths \<longrightarrow> (\<forall>x < 2 ^ FAST. (\<forall>s < t. short_match lengths x s \<longrightarrow> fast ! x = entry lengths s) \<and>
        ((\<forall>s < t. \<not> short_match lengths x s) \<longrightarrow> fast ! x = 0))))"

lemma index_total: "first_index lengths l \<le> length (filter (\<lambda>x. 0 < x \<and> x < l) lengths)"
proof (induction l)
  case (Suc l)
  have "length (filter (\<lambda>x. 0 < x \<and> x < l) xs) + len_count xs l \<le> length (filter (\<lambda>x. 0 < x \<and> x < Suc l) xs)" for xs
    by (induction xs) (auto simp: len_count_def less_Suc_eq)
  from this [of lengths] show ?case using Suc unfolding first_index.simps by linarith
qed simp

lemma index_bound: "first_index lengths l + len_count lengths l \<le> length lengths"
  using index_total [of lengths "Suc l"] length_filter_le [of "\<lambda>x. 0 < x \<and> x < Suc l" lengths]
  unfolding first_index.simps by linarith

lemma position_differs:
  assumes "s < length lengths" "t < length lengths" "0 < lengths ! s" "0 < lengths ! t" "s \<noteq> t"
  shows "first_index lengths (lengths ! s) + rank_of lengths s \<noteq> first_index lengths (lengths ! t) + rank_of lengths t"
proof (cases "lengths ! s = lengths ! t")
  case True
  then show ?thesis using rank_inj [OF assms(1,2)] assms(5) by auto
next
  case False
  then show ?thesis
    using index_later [of "lengths ! s" "lengths ! t" lengths] index_later [of "lengths ! t" "lengths ! s" lengths]
      rank_less [OF assms(1,3)] rank_less [OF assms(2,4)] by linarith
qed

lemma short_match_reversed:
  assumes "lengths_ok lengths" "s < length lengths" "0 < lengths ! s" "lengths ! s \<le> FAST"
  shows "short_match lengths x s \<longleftrightarrow> take_bit (lengths ! s) x = unat (drop_bit (32 - lengths ! s) (reverse_bits (word_of_nat (code_of lengths s))))"
proof -
  have "take (lengths ! s) (map (bit x) [0..<FAST]) = map (bit x) [0..<lengths ! s]" using assms(4) by (simp add: take_map)
  then show ?thesis
    using reversed_code(2) [of "lengths ! s" "code_of lengths s" x] code_of_less [OF assms(1-3)] assms
    by (auto simp: short_match_def code_matches_def FAST_def)
qed

lemma built_skip:
  assumes "built lengths t st" "t < length lengths" "lengths ! t = 0"
  shows "built lengths (Suc t) st"
proof -
  have "count_list (take (Suc t) lengths) l = count_list (take t lengths) l" if "0 < l" for l
    using assms(2,3) that by (simp add: take_Suc_conv_app_nth)
  moreover have "\<not> short_match lengths x t" for x using assms(3) by (simp add: short_match_def code_matches_def)
  ultimately show ?thesis using assms(1,3) by (cases st) (fastforce simp: built_def less_Suc_eq)
qed

lemma fast_step:
  assumes fast: "\<forall>x < 2 ^ FAST. fast ! x = 0 \<or> (\<exists>s < t. 0 < lengths ! s \<and> lengths ! s \<le> FAST \<and> fast ! x = entry lengths s)"
    "lengths_ok lengths \<longrightarrow> (\<forall>x < 2 ^ FAST. (\<forall>s < t. short_match lengths x s \<longrightarrow> fast ! x = entry lengths s) \<and>
        ((\<forall>s < t. \<not> short_match lengths x s) \<longrightarrow> fast ! x = 0))"
    and t: "t < length lengths" "0 < lengths ! t" "lengths ! t \<le> FAST"
    and fast': "\<forall>x < 2 ^ FAST. fast' ! x = (if take_bit (lengths ! t) x = unat (drop_bit (32 - lengths ! t) (reverse_bits (word_of_nat (code_of lengths t))))
      then entry lengths t else fast ! x)"
  shows "\<forall>x < 2 ^ FAST. fast' ! x = 0 \<or> (\<exists>s < Suc t. 0 < lengths ! s \<and> lengths ! s \<le> FAST \<and> fast' ! x = entry lengths s)"
    "lengths_ok lengths \<longrightarrow> (\<forall>x < 2 ^ FAST. (\<forall>s < Suc t. short_match lengths x s \<longrightarrow> fast' ! x = entry lengths s) \<and>
        ((\<forall>s < Suc t. \<not> short_match lengths x s) \<longrightarrow> fast' ! x = 0))"
proof -
  show "\<forall>x < 2 ^ FAST. fast' ! x = 0 \<or> (\<exists>s < Suc t. 0 < lengths ! s \<and> lengths ! s \<le> FAST \<and> fast' ! x = entry lengths s)"
    using fast(1) fast' t by (metis less_Suc_eq)
  show "lengths_ok lengths \<longrightarrow> (\<forall>x < 2 ^ FAST. (\<forall>s < Suc t. short_match lengths x s \<longrightarrow> fast' ! x = entry lengths s) \<and>
        ((\<forall>s < Suc t. \<not> short_match lengths x s) \<longrightarrow> fast' ! x = 0))"
  proof (intro impI)
    assume ok: "lengths_ok lengths"
    have "fast' ! x = (if short_match lengths x t then entry lengths t else fast ! x)" if "x < 2 ^ FAST" for x
      using fast' that short_match_reversed [OF ok t] by simp
    moreover have "short_match lengths x s \<Longrightarrow> short_match lengths x t \<Longrightarrow> s = t" for x s
      using matches_unique by (auto simp: short_match_def)
    ultimately show "\<forall>x < 2 ^ FAST. (\<forall>s < Suc t. short_match lengths x s \<longrightarrow> fast' ! x = entry lengths s) \<and>
        ((\<forall>s < Suc t. \<not> short_match lengths x s) \<longrightarrow> fast' ! x = 0)"
      using fast(2) ok by (metis less_Suc_eq)
  qed
qed

lemma built_step:
  assumes b: "built lengths t st" and t: "t < length lengths" "0 < lengths ! t" "lengths ! t \<le> 15"
  obtains st' where "huff_symbol (t, lengths ! t) st = Inr st'" "built lengths (Suc t) st'"
proof -
  obtain symbols offs nxt fast where st: "st = (symbols, offs, nxt, fast)" by (metis prod_cases4)
  let ?l = "lengths ! t" and ?i = "first_index lengths (lengths ! t) + rank_of lengths t"
  have l16: "?l < 16" using t(3) by simp
  have shape: "length symbols = length lengths" "length offs = 16" "length nxt = 16" "length fast = 2 ^ FAST" using b st by (auto simp: built_def)
  have at: "offs ! ?l = ?i" "nxt ! ?l = code_of lengths t" using b st t(2) l16 by (simp_all add: built_def rank_of_def code_of_def)
  have i: "?i < length symbols" using index_bound [of lengths ?l] rank_less [OF t(1,2)] shape(1) by linarith
  let ?r = "unat (drop_bit (32 - ?l) (reverse_bits (word_of_nat (code_of lengths t))))"
  have r: "?r < 2 ^ ?l" using reversed_code(1) [of ?l "code_of lengths t"] t(2) l16 by simp
  have "\<exists>fast'. fill_fast ?r ?l (entry lengths t) fast = Inr fast' \<and> length fast' = 2 ^ FAST \<and>
      (\<forall>x < 2 ^ FAST. fast' ! x = (if take_bit ?l x = ?r then entry lengths t else fast ! x))" if "?l \<le> FAST"
    using fill_fast_ok [OF r that shape(4), where e = "entry lengths t"] by blast
  then obtain fast' where f: "(if ?l \<le> FAST then fill_fast ?r ?l (entry lengths t) fast else Inr fast) = Inr fast'" "length fast' = 2 ^ FAST"
      "\<forall>x < 2 ^ FAST. fast' ! x = (if ?l \<le> FAST \<and> take_bit ?l x = ?r then entry lengths t else fast ! x)"
    using shape(4) by (cases "?l \<le> FAST") auto
  let ?st = "(symbols[?i := t], offs[?l := offs ! ?l + 1], nxt[?l := nxt ! ?l + 1], fast')"
  have "huff_symbol (t, ?l) st = Inr ?st" using f(1) i
    by (cases "?l \<le> FAST") (simp_all add: st huff_symbol_def at put_index_def Let_def entry_def)
  moreover have "built lengths (Suc t) ?st"
  proof -
    have cnt: "count_list (take (Suc t) lengths) l = count_list (take t lengths) l + (if l = ?l then 1 else 0)" for l
      using t(1) by (simp add: take_Suc_conv_app_nth)
    have "\<forall>l < 16. 0 < l \<longrightarrow> offs[?l := offs ! ?l + 1] ! l = first_index lengths l + count_list (take (Suc t) lengths) l \<and>
        nxt[?l := nxt ! ?l + 1] ! l = first_code lengths l + count_list (take (Suc t) lengths) l"
      using b st shape l16 by (auto simp: built_def cnt nth_list_update)
    moreover have "\<forall>s < Suc t. 0 < lengths ! s \<longrightarrow> symbols[?i := t] ! (first_index lengths (lengths ! s) + rank_of lengths s) = s"
    proof (intro allI impI)
      fix s assume s: "s < Suc t" "0 < lengths ! s"
      show "symbols[?i := t] ! (first_index lengths (lengths ! s) + rank_of lengths s) = s"
        using s b st i position_differs [of s lengths t] t by (cases "s = t") (auto simp: built_def)
    qed
    moreover have "(\<forall>x < 2 ^ FAST. fast' ! x = 0 \<or> (\<exists>s < Suc t. 0 < lengths ! s \<and> lengths ! s \<le> FAST \<and> fast' ! x = entry lengths s)) \<and>
        (lengths_ok lengths \<longrightarrow> (\<forall>x < 2 ^ FAST. (\<forall>s < Suc t. short_match lengths x s \<longrightarrow> fast' ! x = entry lengths s) \<and>
          ((\<forall>s < Suc t. \<not> short_match lengths x s) \<longrightarrow> fast' ! x = 0)))"
    proof (cases "?l \<le> FAST")
      note old = b [unfolded st built_def prod.case, THEN conjunct2, THEN conjunct2, THEN conjunct2, THEN conjunct2, THEN conjunct2, THEN conjunct2]
      note old = conjunct1 [OF old] conjunct2 [OF old]
      case True
      have "\<forall>x < 2 ^ FAST. fast' ! x = (if take_bit ?l x = ?r then entry lengths t else fast ! x)" using f(3) True by simp
      from fast_step [OF old t(1,2) True this] show ?thesis by (rule conjI)
    next
      case False
      then have "\<not> short_match lengths x t" for x by (simp add: short_match_def)
      then show ?thesis using b st f(3) False by (auto simp: built_def less_Suc_eq)
    qed
    ultimately show ?thesis using shape f(2) unfolding built_def by simp
  qed
  ultimately show thesis using that by blast
qed

lemma built_start:
  assumes "length cs = 16" "\<forall>l < 16. cs ! l = len_count lengths l"
  shows "built lengths 0 (replicate (length lengths) 0, huff_offs cs, huff_next cs, replicate (2 ^ FAST) 0)"
  using huff_offs_ok [OF assms(2)] huff_next_ok [OF assms(2)] by (simp add: built_def)

lemma built_all:
  assumes "built lengths 0 st" "list_all (\<lambda>l. l \<le> 15) lengths" "t \<le> length lengths"
  shows "\<exists>st'. each huff_symbol (filter (\<lambda>(s, l). 0 < l) (enumerate 0 (take t lengths))) st = Inr st' \<and> built lengths t st'"
  using assms(3)
proof (induction t)
  case (Suc t)
  then obtain st' where st': "each huff_symbol (filter (\<lambda>(s, l). 0 < l) (enumerate 0 (take t lengths))) st = Inr st'" "built lengths t st'" by auto
  have e: "enumerate 0 (take (Suc t) lengths) = enumerate 0 (take t lengths) @ [(t, lengths ! t)]"
    using Suc.prems by (simp add: take_Suc_conv_app_nth enumerate_append_eq)
  have t: "t < length lengths" "lengths ! t \<le> 15" using Suc.prems assms(2) by (auto simp: list_all_length)
  show ?case
  proof (cases "lengths ! t = 0")
    case True
    then show ?thesis using st' built_skip [OF st'(2) t(1)] by (simp add: e)
  next
    case False
    then have "0 < lengths ! t" by simp
    then obtain st2 where "huff_symbol (t, lengths ! t) st' = Inr st2" "built lengths (Suc t) st2" by (rule built_step [OF st'(2) t(1) _ t(2)])
    then show ?thesis using st' False by (simp add: e each_append)
  qed
qed (use assms(1) in simp)

text \<open>The tables of a code, for any lengths of at most 15 and, when the codes fit, with every short code in the fast one.\<close>

definition tables_ok :: "nat list \<Rightarrow> huffman \<Rightarrow> bool" where
  "tables_ok lengths h \<longleftrightarrow>
     (\<forall>l < 16. hf_counts h ! l = len_count lengths l) \<and> length (hf_symbols h) = length lengths \<and> length (hf_fast h) = 2 ^ FAST \<and>
     (\<forall>s < length lengths. 0 < lengths ! s \<longrightarrow> hf_symbols h ! (first_index lengths (lengths ! s) + rank_of lengths s) = s) \<and>
     (\<forall>x < 2 ^ FAST. hf_fast h ! x = 0 \<or> (\<exists>s < length lengths. 0 < lengths ! s \<and> lengths ! s \<le> FAST \<and> hf_fast h ! x = entry lengths s)) \<and>
     (lengths_ok lengths \<longrightarrow> (\<forall>x < 2 ^ FAST. (\<forall>s < length lengths. short_match lengths x s \<longrightarrow> hf_fast h ! x = entry lengths s) \<and>
        ((\<forall>s < length lengths. \<not> short_match lengths x s) \<longrightarrow> hf_fast h ! x = 0)))"

lemma huffman_new_ok:
  assumes "list_all (\<lambda>l. l \<le> 15) lengths"
  obtains h where "huffman_new lengths = Inr h" "tables_ok lengths h"
proof -
  obtain cs where cs: "huff_counts lengths = Inr cs" "length cs = 16" "\<forall>l < 16. cs ! l = len_count lengths l" using huff_counts_ok [OF assms] .
  let ?st = "(replicate (length lengths) 0, huff_offs cs, huff_next cs, replicate (2 ^ FAST) 0)"
  obtain symbols offs nxt fast where b: "each huff_symbol (filter (\<lambda>(s, l). 0 < l) (enumerate 0 lengths)) ?st = Inr (symbols, offs, nxt, fast)"
      "built lengths (length lengths) (symbols, offs, nxt, fast)"
    using built_all [OF built_start [OF cs(2,3)] assms, of "length lengths"] by auto
  show thesis
  proof
    show "huffman_new lengths = Inr \<lparr>hf_fast = fast, hf_counts = cs, hf_symbols = symbols\<rparr>" using cs(1) b(1) by (simp add: huffman_new_def)
    show "tables_ok lengths \<lparr>hf_fast = fast, hf_counts = cs, hf_symbols = symbols\<rparr>"
      using b(2) cs(3) unfolding built_def tables_ok_def by simp
  qed
qed

section \<open>Decoding\<close>

text \<open>What decoding a symbol comes to on the bits \<open>L\<close>: the symbol whose code they start with, or an error if there is none.\<close>

definition decoded :: "nat list \<Rightarrow> bits \<Rightarrow> bool list \<Rightarrow> fault + (nat \<times> bits) \<Rightarrow> bool" where
  "decoded lengths b L r \<longleftrightarrow>
     (\<exists>s b'. r = Inr (s, b') \<and> code_matches lengths L s \<and> bits_ok b' \<and> bt_list b' = drop (lengths ! s) L \<and> bt_data b' = bt_data b) \<or>
     (\<forall>s. \<not> code_matches lengths L s) \<and>
       r = Inl (bad_media (if length L < 15 then ''a deflate stream ends early'' else ''a deflate stream has an invalid code''))"

lemma msb_Suc: "l < length L \<Longrightarrow> msb_val (take (Suc l) L) = 2 * msb_val (take l L) + of_bool (L ! l)"
  by (simp add: msb_val_def bits_val_def take_Suc_conv_app_nth)

lemma or_bit: "2 * int m OR int (of_bool x) = int (2 * m + of_bool x)"
  by (cases x) (simp_all add: or_one_eq)

lemma at_index_nat: "n < length xs \<Longrightarrow> at_index xs (int n) = Inr (xs ! n)"
  by (simp add: at_index_def)

lemma slow_decodes:
  assumes h: "tables_ok lengths h" "list_all (\<lambda>l. l \<le> 15) lengths"
  shows "bits_ok b \<Longrightarrow> k < 16 \<Longrightarrow> k \<le> length L \<Longrightarrow> bt_list b = drop k L \<Longrightarrow> first_code lengths (Suc k) \<le> 2 * msb_val (take k L) \<Longrightarrow>
     (\<forall>s. code_matches lengths L s \<longrightarrow> k < lengths ! s) \<Longrightarrow>
     decoded lengths b L (huff_slow h [Suc k..<16] (2 * int (msb_val (take k L))) (int (first_code lengths (Suc k))) (int (first_index lengths (Suc k))) b)"
proof (induction "16 - k" arbitrary: k b)
  case (Suc n)
  let ?m = "msb_val (take (Suc k) L)" and ?f = "first_code lengths (Suc k)" and ?c = "len_count lengths (Suc k)"
  show ?case
  proof (cases "k = 15")
    case True
    then have "\<not> code_matches lengths L s" for s using Suc.prems(6) h(2) by (force simp: code_matches_def list_all_length)
    then show ?thesis using True Suc.prems(3) by (auto simp: decoded_def)
  next
    case False
    then have up: "[Suc k..<16] = Suc k # [Suc (Suc k)..<16]" using Suc.prems(2) by (simp add: upt_conv_Cons)
    show ?thesis
    proof (cases "k < length L")
      case False
      then have "\<not> code_matches lengths L s" for s using Suc.prems(3,6) by (force simp: code_matches_def)
      moreover have "bt_take 1 b = Inl (bad_media ''a deflate stream ends early'')" using take_short [of b 1] Suc.prems(1,4) False by simp
      ultimately show ?thesis using False \<open>k \<noteq> 15\<close> Suc.prems(2,3) up by (auto simp: decoded_def)
    next
      case True
      have v: "bits_val (take 1 (bt_list b)) = of_bool (L ! k)" using True Suc.prems(4) by (simp add: bits_val_def take_Suc_conv_app_nth [of 0])
      have "1 \<le> length (bt_list b)" using True Suc.prems(4) by simp
      then obtain b' where "bt_take 1 b = Inr (bits_val (take 1 (bt_list b)), b')" "bits_ok b'" "bt_list b' = drop 1 (bt_list b)" "bt_data b' = bt_data b"
        using take_ok [OF Suc.prems(1)] by (metis one_le_numeral)
      then have b': "bt_take 1 b = Inr (of_bool (L ! k), b')" "bits_ok b'" "bt_list b' = drop (Suc k) L" "bt_data b' = bt_data b"
        using v Suc.prems(4) by simp_all
      have m: "?m = 2 * msb_val (take k L) + of_bool (L ! k)" using msb_Suc [OF True] .
      have code: "2 * int (msb_val (take k L)) OR int (of_bool (L ! k)) = int ?m" unfolding m by (rule or_bit)
      have cnt: "hf_counts h ! Suc k = ?c" using h(1) Suc.prems(2) \<open>k \<noteq> 15\<close> by (simp add: tables_ok_def)
      have unroll: "huff_slow h [Suc k..<16] (2 * int (msb_val (take k L))) (int ?f) (int (first_index lengths (Suc k))) b =
          (if ?m < ?f + ?c then rmap (\<lambda>s. (s, b')) (at_index (hf_symbols h) (int (first_index lengths (Suc k)) + int ?m - int ?f))
           else huff_slow h [Suc (Suc k)..<16] (2 * int ?m) (int (first_code lengths (Suc (Suc k)))) (int (first_index lengths (Suc (Suc k)))) b')"
      proof -
        have "int ?m - int ?c < int ?f \<longleftrightarrow> ?m < ?f + ?c" by linarith
        moreover have "push_bit 1 (int ?m) = 2 * int ?m" "push_bit 1 (int ?f + int ?c) = int (first_code lengths (Suc (Suc k)))"
          "int (first_index lengths (Suc k)) + int ?c = int (first_index lengths (Suc (Suc k)))" by (simp_all add: push_bit_eq_mult)
        ultimately show ?thesis unfolding up huff_slow.simps b'(1) rbind.simps prod.case Let_def code cnt by (simp only:)
      qed
      show ?thesis
      proof (cases "?m < ?f + ?c")
        case less: True
        have "?f \<le> ?m" using Suc.prems(5) m by linarith
        then have "?m - ?f < count_list lengths (Suc k)" using less by (simp add: len_count_def)
        then obtain s where s: "s < length lengths" "lengths ! s = Suc k" "rank_of lengths s = ?m - ?f" by (rule rank_onto)
        have at: "at_index (hf_symbols h) (int (first_index lengths (Suc k)) + int ?m - int ?f) = Inr s"
        proof -
          have "int (first_index lengths (Suc k)) + int ?m - int ?f = int (first_index lengths (Suc k) + (?m - ?f))" using \<open>?f \<le> ?m\<close> by linarith
          moreover have "first_index lengths (Suc k) + (?m - ?f) < length (hf_symbols h)"
            using index_bound [of lengths "Suc k"] less h(1) \<open>?f \<le> ?m\<close> by (simp add: tables_ok_def)
          moreover have "hf_symbols h ! (first_index lengths (Suc k) + (?m - ?f)) = s" using h(1) s by (auto simp: tables_ok_def)
          ultimately show ?thesis by (simp only: at_index_nat)
        qed
        have "code_matches lengths L s" using s \<open>?f \<le> ?m\<close> True by (simp add: code_matches_def code_of_def)
        then show ?thesis unfolding unroll decoded_def using less at b'(2-4) s(2) by auto
      next
        case more: False
        have "\<not> (lengths ! s = Suc k \<and> code_matches lengths L s)" for s
          using more code_bounds(2) [of s lengths] by (auto simp: code_matches_def)
        then have "\<forall>s. code_matches lengths L s \<longrightarrow> Suc k < lengths ! s" using Suc.prems(6) by (metis Suc_lessI)
        then have "decoded lengths b' L (huff_slow h [Suc (Suc k)..<16] (2 * int ?m) (int (first_code lengths (Suc (Suc k)))) (int (first_index lengths (Suc (Suc k)))) b')"
          using Suc.hyps(2) Suc.prems(2) \<open>k \<noteq> 15\<close> True b'(2,3) more by (intro Suc.hyps(1)) auto
        then show ?thesis unfolding unroll using more b'(4) by (auto simp: decoded_def)
      qed
    qed
  qed
qed simp

lemma entry_parts:
  assumes "lengths ! s \<le> 15"
  shows "entry lengths s AND 15 = lengths ! s" "drop_bit 4 (entry lengths s) = s" "0 < lengths ! s \<Longrightarrow> entry lengths s \<noteq> 0"
proof -
  have e: "entry lengths s = lengths ! s + s * 16"
    using low_high(1) [of "lengths ! s" 4 s] assms by (simp add: entry_def or.commute)
  have "entry lengths s AND 15 = take_bit 4 (entry lengths s)" by (simp add: take_bit_eq_mask mask_eq_exp_minus_1)
  then show "entry lengths s AND 15 = lengths ! s" using assms by (simp add: e take_bit_eq_mod)
  show "drop_bit 4 (entry lengths s) = s" using assms by (simp add: e drop_bit_eq_div)
  show "0 < lengths ! s \<Longrightarrow> entry lengths s \<noteq> 0" by (simp add: e)
qed

lemma peeked_bits:
  assumes "x = bits_val (take FAST L)"
  shows "x < 2 ^ FAST" "take (length L) (map (bit x) [0..<FAST]) = take FAST L"
proof -
  have bit: "bit x i \<longleftrightarrow> i < min FAST (length L) \<and> L ! i" for i
    by (auto simp: assms bits_val_def bit_horner_sum_bit_iff)
  show "take (length L) (map (bit x) [0..<FAST]) = take FAST L" by (rule nth_equalityI) (auto simp: bit)
  have "x < 2 ^ length (take FAST L)" unfolding assms bits_val_def by (rule horner_sum_of_bool_2_less)
  also have "\<dots> \<le> 2 ^ FAST" by (intro power_increasing) simp_all
  finally show "x < 2 ^ FAST" .
qed

lemma short_match_list:
  assumes "x = bits_val (take FAST L)" "lengths ! s \<le> FAST" "lengths ! s \<le> length L"
  shows "short_match lengths x s \<longleftrightarrow> code_matches lengths L s"
proof -
  have "take (lengths ! s) (map (bit x) [0..<FAST]) = take (lengths ! s) (take (length L) (map (bit x) [0..<FAST]))" using assms(3) by (simp add: min_def)
  also have "\<dots> = take (lengths ! s) L" unfolding peeked_bits(2) [OF assms(1)] using assms(2) by (simp add: min_def)
  finally show ?thesis using assms(2,3) by (simp add: short_match_def code_matches_def)
qed

lemma decode_steps:
  assumes "bits_ok b" "length (hf_fast h) = 2 ^ FAST" "x = bits_val (take FAST (bt_list b))"
  shows "huff_decode h b = (if hf_fast h ! x \<noteq> 0 then rmap (\<lambda>b. (drop_bit 4 (hf_fast h ! x), b)) (skip (hf_fast h ! x AND 15) (bt_fill b))
     else huff_slow h [1..<16] 0 0 0 (bt_fill b))"
  using peek_val [OF assms(1), of FAST] assms(2,3) peeked_bits(1) [OF assms(3)] at_index_nat [of x "hf_fast h"] by (simp add: huff_decode_def FAST_def)

lemma slow_from_start:
  assumes "tables_ok lengths h" "list_all (\<lambda>l. l \<le> 15) lengths" "bits_ok b"
  shows "decoded lengths b (bt_list b) (huff_slow h [1..<16] 0 0 0 (bt_fill b))"
proof -
  note f = bt_fill_ok [OF assms(3)]
  have "decoded lengths (bt_fill b) (bt_list b) (huff_slow h [Suc 0..<16] (2 * int (msb_val (take 0 (bt_list b))))
      (int (first_code lengths (Suc 0))) (int (first_index lengths (Suc 0))) (bt_fill b))"
    using f by (intro slow_decodes assms) (auto simp: code_matches_def len_count_def msb_val_def bits_val_def)
  then show ?thesis using f by (simp add: decoded_def len_count_def msb_val_def bits_val_def)
qed

lemma huffman_decodes_list:
  assumes h: "tables_ok lengths h" and ok: "lengths_ok lengths" and b: "bits_ok b"
  shows "decoded lengths b (bt_list b) (huff_decode h b)"
proof -
  let ?L = "bt_list b"
  define x where "x = bits_val (take FAST ?L)"
  have fast: "length (hf_fast h) = 2 ^ FAST" using h by (simp add: tables_ok_def)
  note steps = decode_steps [OF b fast x_def] and f = bt_fill_ok [OF b] and x = peeked_bits(1) [OF x_def]
  have all15: "list_all (\<lambda>l. l \<le> 15) lengths" using ok by (simp add: lengths_ok_def)
  show ?thesis
  proof (cases "\<exists>s < length lengths. short_match lengths x s")
    case False
    then have "hf_fast h ! x = 0" using h ok x by (auto simp: tables_ok_def)
    then show ?thesis using steps slow_from_start [OF h all15 b] by simp
  next
    case True
    then obtain s where s: "s < length lengths" "short_match lengths x s" by blast
    have e: "hf_fast h ! x = entry lengths s" using h ok x s by (auto simp: tables_ok_def)
    have l: "0 < lengths ! s" "lengths ! s \<le> FAST" using s(2) by (auto simp: short_match_def code_matches_def)
    have steps': "huff_decode h b = rmap (\<lambda>b. (s, b)) (skip (lengths ! s) (bt_fill b))"
      using steps e entry_parts [of lengths s] l by (simp add: FAST_def)
    show ?thesis
    proof (cases "lengths ! s \<le> length ?L")
      case True
      then have "lengths ! s \<le> bt_n (bt_fill b)" using filled_enough [OF b, of "lengths ! s"] l(2) by (simp add: FAST_def)
      then obtain b' where "skip (lengths ! s) (bt_fill b) = Inr b'" "bits_ok b'" "bt_list b' = drop (lengths ! s) ?L" "bt_data b' = bt_data b"
        using skip_ok [of "bt_fill b" "lengths ! s"] f by metis
      then show ?thesis using steps' short_match_list [OF x_def l(2) True] s(2) by (auto simp: decoded_def)
    next
      case False
      then have "skip (lengths ! s) (bt_fill b) = Inl (bad_media ''a deflate stream ends early'')"
        using filled_enough [OF b, of "lengths ! s"] l(2) by (simp add: FAST_def skip_def)
      moreover have "\<not> code_matches lengths ?L t" for t
      proof
        assume t: "code_matches lengths ?L t"
        then have "lengths ! t \<le> length ?L" by (simp add: code_matches_def)
        moreover have "lengths ! t \<le> FAST" using calculation False l(2) by linarith
        ultimately have "short_match lengths x t" using short_match_list [OF x_def] t by blast
        then have "t = s" using s(2) matches_unique by (auto simp: short_match_def)
        then show False using False \<open>lengths ! t \<le> length ?L\<close> by simp
      qed
      ultimately show ?thesis using steps' False l(2) by (simp add: decoded_def FAST_def)
    qed
  qed
qed

section \<open>Every stream is read or refused\<close>

text \<open>A run that ends with an error, or with a value of which \<open>P\<close> holds and at least \<open>k\<close> bits read.\<close>

definition safe :: "bits \<Rightarrow> nat \<Rightarrow> ('a \<Rightarrow> bits) \<Rightarrow> ('a \<Rightarrow> bool) \<Rightarrow> fault + 'a \<Rightarrow> bool" where
  "safe b k st P r \<longleftrightarrow> (\<exists>what. r = Inl (bad_media what)) \<or>
     (\<exists>v. r = Inr v \<and> P v \<and> bits_ok (st v) \<and> length (bt_list (st v)) + k \<le> length (bt_list b))"

lemma safe_bad [simp]: "safe b k st P (Inl (bad_media what))"
  by (auto simp: safe_def)

lemma safe_Inr: "safe b k st P (Inr v) \<longleftrightarrow> P v \<and> bits_ok (st v) \<and> length (bt_list (st v)) + k \<le> length (bt_list b)"
  by (auto simp: safe_def bad_media_def)

lemma safe_bind:
  assumes "safe b k st P r" "\<And>v. P v \<Longrightarrow> bits_ok (st v) \<Longrightarrow> length (bt_list (st v)) + k \<le> length (bt_list b) \<Longrightarrow> safe (st v) 0 st' Q (f v)" "m \<le> k"
  shows "safe b m st' Q (rbind r f)"
  using assms unfolding safe_def by fastforce

lemma safe_rmap: "safe b k (\<lambda>v. st (g v)) (\<lambda>v. P (g v)) r \<Longrightarrow> safe b k st P (rmap g r)"
  by (auto simp: safe_def)

lemma safe_mono: "safe b k st P r \<Longrightarrow> (\<And>v. P v \<Longrightarrow> Q v) \<Longrightarrow> m \<le> k \<Longrightarrow> safe b m st Q r"
  by (fastforce simp: safe_def)

lemma take_safe:
  assumes "bits_ok b" "k \<le> 32"
  shows "safe b k snd (\<lambda>(v, _). v < 2 ^ k) (bt_take k b)"
proof (cases "k \<le> length (bt_list b)")
  case True
  then obtain b' where "bt_take k b = Inr (bits_val (take k (bt_list b)), b')" "bits_ok b'" "bt_list b' = drop k (bt_list b)"
    using take_ok [OF assms] by metis
  moreover have "bits_val (take k (bt_list b)) < 2 ^ k" using True horner_sum_of_bool_2_less [of "take k (bt_list b)", where 'a = nat] by (simp add: bits_val_def)
  ultimately show ?thesis using True by (simp add: safe_Inr)
next
  case False
  then show ?thesis using take_short [OF assms] by simp
qed

text \<open>A code built from lengths of at most 15, perhaps too many of them.\<close>

definition has_tables :: "huffman \<Rightarrow> bool" where
  "has_tables h \<longleftrightarrow> (\<exists>lengths. tables_ok lengths h \<and> list_all (\<lambda>l. l \<le> 15) lengths)"

lemma new_tables:
  assumes "list_all (\<lambda>l. l \<le> 15) lengths"
  obtains h where "huffman_new lengths = Inr h" "has_tables h"
  using huffman_new_ok [OF assms] assms by (metis has_tables_def)

lemma decode_safe:
  assumes "has_tables h" "bits_ok b"
  shows "safe b 1 snd (\<lambda>_. True) (huff_decode h b)"
proof -
  obtain lengths where h: "tables_ok lengths h" and l15: "list_all (\<lambda>l. l \<le> 15) lengths" using assms(1) by (auto simp: has_tables_def)
  define x where "x = bits_val (take FAST (bt_list b))"
  have fast: "length (hf_fast h) = 2 ^ FAST" using h by (simp add: tables_ok_def)
  note steps = decode_steps [OF assms(2) fast x_def] and x = peeked_bits(1) [OF x_def] and f = bt_fill_ok [OF assms(2)]
  consider "hf_fast h ! x = 0" | s where "s < length lengths" "0 < lengths ! s" "lengths ! s \<le> FAST" "hf_fast h ! x = entry lengths s"
    using h x by (auto simp: tables_ok_def)
  then show ?thesis
  proof cases
    case 1
    then show ?thesis using steps slow_from_start [OF h l15 assms(2)] by (auto simp: decoded_def safe_Inr code_matches_def)
  next
    case 2
    then have "huff_decode h b = rmap (\<lambda>b. (s, b)) (skip (lengths ! s) (bt_fill b))" using steps entry_parts [of lengths s] by (simp add: FAST_def)
    moreover have "safe b 1 (\<lambda>b. b) (\<lambda>_. True) (skip (lengths ! s) (bt_fill b))"
    proof (cases "lengths ! s \<le> bt_n (bt_fill b)")
      case True
      then obtain b' where "skip (lengths ! s) (bt_fill b) = Inr b'" "bits_ok b'" "bt_list b' = drop (lengths ! s) (bt_list b)"
        using skip_ok [of "bt_fill b" "lengths ! s"] f by metis
      moreover have "lengths ! s \<le> length (bt_list b)" using True filled_enough [OF assms(2), of "lengths ! s"] 2(3) by (simp add: FAST_def)
      ultimately show ?thesis using 2(2) by (simp add: safe_Inr)
    qed (simp add: skip_def)
    ultimately show ?thesis by (simp add: safe_rmap)
  qed
qed

lemma stored_bytes_safe: "bits_ok b \<Longrightarrow> safe b 0 fst (\<lambda>_. True) (stored_bytes n (b, out))"
proof (induction n arbitrary: b out)
  case (Suc n)
  show ?case by (auto intro!: safe_bind [OF take_safe] Suc split: prod.splits simp: Suc.prems)
qed (simp add: safe_Inr)

lemma stored_safe:
  assumes "bits_ok b"
  shows "safe b 0 fst (\<lambda>_. True) (stored_block b out)"
proof -
  obtain b' where b': "skip (bt_n b mod 8) b = Inr b'" "bits_ok b'" "bt_list b' = drop (bt_n b mod 8) (bt_list b)" using skip_ok [OF assms, of "bt_n b mod 8"] by auto
  have "safe b 0 (\<lambda>b. b) (\<lambda>_. True) (skip (bt_n b mod 8) b)" using b' by (simp add: safe_Inr)
  then show ?thesis unfolding stored_block_def
    by (rule safe_bind) (auto intro!: safe_bind [OF take_safe] stored_bytes_safe)
qed

lemma length_run_safe:
  assumes "bits_ok b" "list_all (\<lambda>l. l \<le> 15) before"
  shows "safe b 0 snd (\<lambda>((n, v), _). 0 < n \<and> v \<le> 15) (length_run s before b)"
  using assms by (auto simp: length_run_def safe_Inr list_all_iff intro!: safe_bind [OF take_safe])

lemma code_lengths_safe:
  assumes "has_tables code"
  shows "bits_ok b \<Longrightarrow> list_all (\<lambda>l. l \<le> 15) lengths \<Longrightarrow> wanted \<le> length lengths + fuel \<Longrightarrow>
     safe b 0 snd (\<lambda>(ls, _). list_all (\<lambda>l. l \<le> 15) ls) (code_lengths fuel code wanted lengths b)"
proof (induction fuel arbitrary: lengths b)
  case 0
  then show ?case by (simp add: code_lengths.simps safe_Inr)
next
  case (Suc fuel)
  have run: "safe b2 0 snd (\<lambda>(ls, _). list_all (\<lambda>l. l \<le> 15) ls) (code_lengths fuel code wanted (lengths @ replicate n v) b2)"
    if "0 < n" "v \<le> 15" "bits_ok b2" for n v b2
    using that Suc.prems(2,3) by (intro Suc.IH) (auto simp: list_all_iff)
  have step: "safe b' 0 snd (\<lambda>(ls, _). list_all (\<lambda>l. l \<le> 15) ls)
      (rbind (length_run s lengths b') (\<lambda>((n, v), b). code_lengths fuel code wanted (lengths @ replicate n v) b))" if b': "bits_ok b'" for s b'
    by (rule safe_bind [OF length_run_safe [OF b' Suc.prems(2)]]) (auto intro: run)
  show ?case
  proof (cases "wanted \<le> length lengths")
    case True
    then show ?thesis using Suc.prems by (simp add: code_lengths.simps [of "Suc fuel"] safe_Inr)
  next
    case False
    have "safe b 0 snd (\<lambda>(ls, _). list_all (\<lambda>l. l \<le> 15) ls)
        (rbind (huff_decode code b) (\<lambda>(s, b). rbind (length_run s lengths b) (\<lambda>((n, v), b). code_lengths fuel code wanted (lengths @ replicate n v) b)))"
      by (rule safe_bind [OF decode_safe [OF assms Suc.prems(1)]]) (auto intro: step)
    then show ?thesis using False by (simp add: code_lengths.simps [of "Suc fuel"])
  qed
qed

lemma order_each_safe:
  "bits_ok b \<Longrightarrow> length cl = 19 \<Longrightarrow> list_all (\<lambda>l. l \<le> 15) cl \<Longrightarrow> list_all (\<lambda>i. i < 19) is \<Longrightarrow>
     safe b 0 snd (\<lambda>(cl, _). list_all (\<lambda>l. l \<le> 15) cl)
       (each (\<lambda>i (cl, b). rbind (bt_take 3 b) (\<lambda>(v, b). rmap (\<lambda>cl. (cl, b)) (put_index cl i v))) is (cl, b))"
proof (induction "is" arbitrary: cl b)
  case (Cons i "is")
  have "safe b 0 snd (\<lambda>(cl, _). length cl = 19 \<and> list_all (\<lambda>l. l \<le> 15) cl) (rbind (bt_take 3 b) (\<lambda>(v, b). rmap (\<lambda>cl. (cl, b)) (put_index cl i v)))"
    by (rule safe_bind [OF take_safe [OF Cons.prems(1)]])
      (use Cons.prems in \<open>auto simp: put_index_def safe_Inr list_all_iff dest!: set_update_subset_insert [THEN subsetD]\<close>)
  then show ?case unfolding each.simps prod.case
  proof (rule safe_bind)
    fix v assume v: "case v of (cl, _) \<Rightarrow> length cl = 19 \<and> list_all (\<lambda>l. l \<le> (15 :: nat)) cl" "bits_ok (snd v)"
    obtain cl' b' where "v = (cl', b')" by (metis prod.exhaust)
    then show "safe (snd v) 0 snd (\<lambda>(cl, _). list_all (\<lambda>l. l \<le> 15) cl)
        (each (\<lambda>i (cl, b). rbind (bt_take 3 b) (\<lambda>(v, b). rmap (\<lambda>cl. (cl, b)) (put_index cl i v))) is v)"
      using Cons.IH [of b' cl'] Cons.prems(4) v by simp
  qed simp
qed (simp add: safe_Inr)

definition both_tables :: "huffman \<times> huffman \<times> bits \<Rightarrow> bool" where
  "both_tables x \<longleftrightarrow> has_tables (fst x) \<and> has_tables (fst (snd x))"

lemma dynamic_safe:
  assumes "bits_ok b"
  shows "safe b 0 (\<lambda>(_, _, b). b) both_tables (dynamic b)"
proof -
  have order: "safe b 0 snd (\<lambda>(cl, _). list_all (\<lambda>l. l \<le> 15) cl) (order_lengths n b)" if "bits_ok b" for n b
    unfolding order_lengths_def by (rule order_each_safe [OF that]) (auto simp: list_all_iff ORDER_def dest!: in_set_takeD)
  have rest: "safe b 0 (\<lambda>(_, _, b). b) both_tables
      (rbind (huffman_new cl) (\<lambda>code. rbind (code_lengths n code n [] b) (\<lambda>(lengths, b).
         if n < length lengths then Inl (bad_media ''deflate code lengths overrun'')
         else rbind (huffman_new (take nlit lengths)) (\<lambda>lit_code.
           rbind (huffman_new (drop nlit lengths)) (\<lambda>dist. Inr (lit_code, dist, b))))))" if ok: "bits_ok b" "list_all (\<lambda>l. l \<le> 15) cl" for cl n nlit b
  proof -
    obtain code where code: "huffman_new cl = Inr code" "has_tables code" using new_tables [OF ok(2)] .
    have "safe b 0 snd (\<lambda>(ls, _). list_all (\<lambda>l. l \<le> 15) ls) (code_lengths n code n [] b)"
      by (rule code_lengths_safe [OF code(2) ok(1)]) simp_all
    then show ?thesis unfolding code(1) rbind.simps
    proof (rule safe_bind)
      fix x :: "nat list \<times> bits"
      assume x: "case x of (ls, _) \<Rightarrow> list_all (\<lambda>l. l \<le> 15) ls" "bits_ok (snd x)"
      obtain ls b2 where e: "x = (ls, b2)" by (metis prod.exhaust)
      have "list_all (\<lambda>l. l \<le> 15) (take nlit ls)" "list_all (\<lambda>l. l \<le> 15) (drop nlit ls)"
        using x(1) e by (auto simp: list_all_iff dest: in_set_takeD in_set_dropD)
      then obtain h d where "huffman_new (take nlit ls) = Inr h" "has_tables h" "huffman_new (drop nlit ls) = Inr d" "has_tables d"
        by (metis new_tables)
      then show "safe (snd x) 0 (\<lambda>(_, _, b). b) both_tables (case x of (lengths, b) \<Rightarrow>
          if n < length lengths then Inl (bad_media ''deflate code lengths overrun'')
          else rbind (huffman_new (take nlit lengths)) (\<lambda>lit_code. rbind (huffman_new (drop nlit lengths)) (\<lambda>dist. Inr (lit_code, dist, b))))"
        using x(2) by (simp add: e safe_Inr both_tables_def)
    qed simp
  qed
  show ?thesis unfolding dynamic_def Let_def
    by (rule safe_bind [OF take_safe [OF assms]]; (clarsimp, rule safe_bind [OF take_safe]; (clarsimp, rule safe_bind [OF take_safe]; (clarsimp, rule safe_bind [OF order]; clarsimp simp: rest)?)?)?) simp_all
qed

lemma distance_safe:
  assumes "has_tables dist" "bits_ok b"
  shows "safe b 0 snd (\<lambda>(d, _). 0 < d) (distance dist b)"
proof -
  have small: "d div 2 - 1 \<le> 32" if "\<not> 30 \<le> d" for d :: nat using that by auto
  have "safe b 0 snd (\<lambda>(d, _). 0 < d) (rmap (\<lambda>(v, y). (Suc (n + v), y)) (bt_take k b))" if "bits_ok b" "k \<le> 32" for n k b
    using take_safe [OF that] by (auto simp: safe_def)
  then show ?thesis unfolding distance_def Let_def
    by (intro safe_bind [OF decode_safe [OF assms]]) (auto simp: small [simplified] split: prod.splits)
qed

lemma copy_back_ok: "at < length out \<Longrightarrow> \<exists>out'. copy_back k at out = Inr out'"
  by (induction k arbitrary: at out) (auto simp: at_index_nat)

lemma codes_safe:
  assumes "has_tables l" "has_tables d"
  shows "bits_ok b \<Longrightarrow> length (bt_list b) < fuel \<Longrightarrow> safe b 0 fst (\<lambda>_. True) (codes fuel l d b out)"
proof (induction fuel arbitrary: b out)
  case (Suc fuel)
  have rec: "safe b' 0 fst (\<lambda>_. True) (codes fuel l d b' out)" if "bits_ok b'" "length (bt_list b') < length (bt_list b)" for b' out
    using that Suc.prems(2) by (intro Suc.IH) auto
  have ref: "safe b' 0 fst (\<lambda>_. True) (rbind (at_index BASES (int s - 257)) (\<lambda>base. rbind (at_index EXTRA (int s - 257)) (\<lambda>extra.
      rbind (bt_take extra b') (\<lambda>(v, b). rbind (distance d b) (\<lambda>(offset, b).
        if length out < offset then Inl (bad_media ''a deflate distance reaches before the start'')
        else rbind (copy_back (base + v) (length out - offset) out) (\<lambda>out. codes fuel l d b out))))))"
    if s: "257 \<le> s" "s \<le> 285" and b': "bits_ok b'" "length (bt_list b') < length (bt_list b)" for s b'
  proof -
    have i: "int s - 257 = int (s - 257)" "s - 257 < 29" using s by auto
    have at: "at_index BASES (int s - 257) = Inr (BASES ! (s - 257))" "at_index EXTRA (int s - 257) = Inr (EXTRA ! (s - 257))"
      unfolding i(1) by (rule at_index_nat, use i(2) in \<open>simp add: BASES_def EXTRA_def\<close>)+
    have "list_all (\<lambda>e. e \<le> 32) EXTRA" "length EXTRA = 29" by (simp_all add: EXTRA_def)
    then have e: "EXTRA ! (s - 257) \<le> 32" using i(2) by (metis list_all_length)
    have copy: "safe b2 0 fst (\<lambda>_. True) (rbind (copy_back n (length out - offset) out) (\<lambda>out. codes fuel l d b2 out))"
      if off: "0 < offset" "\<not> length out < offset" and b2: "bits_ok b2" "length (bt_list b2) \<le> length (bt_list b')" for offset n b2
    proof -
      have "length out - offset < length out" using off by linarith
      then obtain out' where "copy_back n (length out - offset) out = Inr out'" using copy_back_ok by blast
      then show ?thesis using rec b2 b'(2) by simp
    qed
    have backward: "safe b2 0 fst (\<lambda>_. True) (rbind (distance d b2) (\<lambda>(offset, b).
        if length out < offset then Inl (bad_media ''a deflate distance reaches before the start'')
        else rbind (copy_back n (length out - offset) out) (\<lambda>out. codes fuel l d b out)))"
      if "bits_ok b2" "length (bt_list b2) \<le> length (bt_list b')" for n b2
      by (rule safe_bind [OF distance_safe [OF assms(2) that(1)]]) (use that(2) in \<open>auto intro!: copy\<close>)
    show ?thesis unfolding at rbind.simps by (rule safe_bind [OF take_safe [OF b'(1) e]]) (auto intro!: backward)
  qed
  show ?case unfolding codes.simps
    by (rule safe_bind [OF decode_safe [OF assms(1) Suc.prems(1)]]) (auto intro!: rec ref simp: safe_Inr)
qed simp

lemma block_safe:
  assumes "bits_ok b"
  shows "safe b 1 (\<lambda>(_, b, _). b) (\<lambda>_. True) (inflate_block b out)"
proof -
  have "list_all (\<lambda>l. l \<le> 15) fixed_lengths" "list_all (\<lambda>l. l \<le> 15) (replicate 30 (5 :: nat))" by (auto simp: fixed_lengths_def list_all_iff)
  then obtain l d where fixed: "huffman_new fixed_lengths = Inr l" "has_tables l" "huffman_new (replicate 30 5) = Inr d" "has_tables d"
    by (metis new_tables)
  have run: "safe b 0 fst (\<lambda>_. True) (codes (bits_left b + 1) l d b out)" if "has_tables l" "has_tables d" "bits_ok b" for l d b
    using that by (intro codes_safe) (auto simp: length_bt_list)
  have dyn: "safe b 0 fst (\<lambda>_. True) (rbind (dynamic b) (\<lambda>(l, d, b). codes (bits_left b + 1) l d b out))" if "bits_ok b" for b
    by (rule safe_bind [OF dynamic_safe [OF that]]) (auto simp: both_tables_def simp del: codes.simps intro!: run [simplified] split: prod.splits)
  have kinds: "safe b 0 fst (\<lambda>_. True) (let kind = drop_bit 1 head in
      if kind = 0 then stored_block b out
      else if kind = 1 then rbind (huffman_new fixed_lengths) (\<lambda>lit_code. rbind (huffman_new (replicate 30 5)) (\<lambda>dist. codes (bits_left b + 1) lit_code dist b out))
      else if kind = 2 then rbind (dynamic b) (\<lambda>(lit_code, dist, b). codes (bits_left b + 1) lit_code dist b out)
      else Inl (bad_media ''a deflate block of type 3''))" if "bits_ok b" for head :: nat and b
    using stored_safe [OF that] run [OF fixed(2,4) that] dyn [OF that] unfolding Let_def fixed(1,3) rbind.simps by simp
  show ?thesis unfolding inflate_block_def
  proof (rule safe_bind [OF take_safe [OF assms]])
    fix x :: "nat \<times> bits" assume "bits_ok (snd x)"
    then have "safe (snd x) 0 (\<lambda>v. fst v) (\<lambda>_. True) (let kind = drop_bit 1 (fst x) in
      if kind = 0 then stored_block (snd x) out
      else if kind = 1 then rbind (huffman_new fixed_lengths) (\<lambda>lit_code. rbind (huffman_new (replicate 30 5)) (\<lambda>dist. codes (bits_left (snd x) + 1) lit_code dist (snd x) out))
      else if kind = 2 then rbind (dynamic (snd x)) (\<lambda>(lit_code, dist, b). codes (bits_left b + 1) lit_code dist b out)
      else Inl (bad_media ''a deflate block of type 3''))" by (rule kinds)
    then show "safe (snd x) 0 (\<lambda>(_, b, _). b) (\<lambda>_. True) (case x of (head, b) \<Rightarrow> rmap (\<lambda>(b, out). (head AND 1 = 1, b, out))
        (let kind = drop_bit 1 head in
          if kind = 0 then stored_block b out
          else if kind = 1 then rbind (huffman_new fixed_lengths) (\<lambda>lit_code. rbind (huffman_new (replicate 30 5)) (\<lambda>dist. codes (bits_left b + 1) lit_code dist b out))
          else if kind = 2 then rbind (dynamic b) (\<lambda>(lit_code, dist, b). codes (bits_left b + 1) lit_code dist b out)
          else Inl (bad_media ''a deflate block of type 3'')))"
      by (cases x) (auto intro!: safe_rmap simp: case_prod_unfold)
  qed simp_all
qed

lemma blocks_safe: "bits_ok b \<Longrightarrow> length (bt_list b) < fuel \<Longrightarrow> safe b 0 fst (\<lambda>_. True) (inflate_blocks fuel b out)"
proof (induction fuel arbitrary: b out)
  case (Suc fuel)
  show ?case unfolding inflate_blocks.simps
    by (rule safe_bind [OF block_safe [OF Suc.prems(1)]]) (use Suc in \<open>auto simp: safe_Inr split: prod.splits intro!: Suc.IH\<close>)
qed simp

section \<open>The checksum\<close>

text \<open>Adler-32 as RFC 1950 gives it: both sums modulo 65521 at every byte.\<close>

definition rfc_step :: "u8 \<Rightarrow> nat \<times> nat \<Rightarrow> nat \<times> nat" where
  "rfc_step v = (\<lambda>(a, b). ((a + unat v) mod 65521, (b + (a + unat v) mod 65521) mod 65521))"

definition rfc_adler :: "bytes \<Rightarrow> nat \<times> nat" where
  "rfc_adler bs = fold rfc_step bs (1, 0)"

definition plain_step :: "u8 \<Rightarrow> nat \<times> nat \<Rightarrow> nat \<times> nat" where
  "plain_step v = (\<lambda>(a, b). (a + unat v, b + a + unat v))"

lemma plain_step_pair [simp]: "plain_step v (a, b) = (a + unat v, b + a + unat v)"
  by (simp add: plain_step_def)

lemma plain_bound:
  "fst (fold plain_step bs (a, b)) \<le> a + 255 * length bs \<and>
     2 * snd (fold plain_step bs (a, b)) \<le> 2 * b + 2 * length bs * a + 255 * (length bs * (length bs + 1))"
proof (induction bs arbitrary: a b)
  case (Cons v bs)
  let ?n = "length bs"
  have v: "unat v \<le> 255" using unat_u8_less [of v] by linarith
  have "2 * snd (fold plain_step (v # bs) (a, b)) \<le> 2 * (b + a + unat v) + 2 * ?n * (a + unat v) + 255 * (?n * (?n + 1))"
    using Cons.IH [of "a + unat v" "b + a + unat v"] by simp
  also have "\<dots> = 2 * b + 2 * (?n + 1) * a + 2 * (?n + 1) * unat v + 255 * (?n * (?n + 1))" by (simp add: algebra_simps)
  also have "\<dots> \<le> 2 * b + 2 * (?n + 1) * a + 2 * (?n + 1) * 255 + 255 * (?n * (?n + 1))"
    using v by (intro add_le_mono mult_le_mono2) simp_all
  also have "\<dots> = 2 * b + 2 * length (v # bs) * a + 255 * (length (v # bs) * (length (v # bs) + 1))" by (simp add: algebra_simps)
  finally show ?case using Cons.IH [of "a + unat v" "b + a + unat v"] v by simp
qed simp

lemma plain_less:
  assumes "length bs \<le> 5552" "a \<le> 65520" "b \<le> 65520"
  shows "fst (fold plain_step bs (a, b)) < 2 ^ 32" "snd (fold plain_step bs (a, b)) < 2 ^ 32"
proof -
  have "length bs * (length bs + 1) \<le> 5552 * 5553" "length bs * a \<le> 5552 * 65520" using assms by (intro mult_le_mono; simp)+
  then show "fst (fold plain_step bs (a, b)) < 2 ^ 32" "snd (fold plain_step bs (a, b)) < 2 ^ 32"
    using plain_bound [of bs a b] assms by simp_all
qed

lemma plain_grows: "a \<le> fst (fold plain_step bs (a, b)) \<and> b \<le> snd (fold plain_step bs (a, b))"
proof (induction bs arbitrary: a b)
  case (Cons v bs)
  show ?case using Cons [of "a + unat v" "b + a + unat v"] by simp
qed simp

lemma words_plain:
  assumes "fst (fold plain_step bs (unat a, unat b)) < 2 ^ 32" "snd (fold plain_step bs (unat a, unat b)) < 2 ^ 32"
  shows "map_prod unat unat (fold adler_step bs (a, b)) = fold plain_step bs (unat a, unat b)"
  using assms
proof (induction bs arbitrary: a b)
  case (Cons v bs)
  have step: "fold plain_step (v # bs) (unat a, unat b) = fold plain_step bs (unat a + unat v, unat b + unat a + unat v)" by simp
  have small: "unat a + unat v < 2 ^ 32" "unat b + unat a + unat v < 2 ^ 32"
    using plain_grows [of "unat a + unat v" bs "unat b + unat a + unat v"] Cons.prems unfolding step by linarith+
  have v: "unat (ucast v :: u32) = unat v" using less_trans [OF unat_u8_less [of v], of "2 ^ 32"] by (simp add: unsigned_ucast_eq take_bit_nat_eq_self)
  have a: "unat (a + ucast v) = unat a + unat v" using small(1) v by (simp add: unat_word_ariths)
  have b: "unat (b + a + ucast v) = unat b + unat a + unat v" using small(2) v by (simp add: unat_word_ariths mod_simps)
  show ?case using Cons.IH [of "a + ucast v" "b + a + ucast v"] Cons.prems unfolding step by (simp add: adler_step_def a b)
qed simp

lemma plain_mod: "map_prod (\<lambda>x. x mod 65521) (\<lambda>x. x mod 65521) (fold plain_step bs (a, b)) = fold rfc_step bs (a mod 65521, b mod 65521)"
proof (induction bs arbitrary: a b)
  case (Cons v bs)
  have "(b mod 65521 + (a + unat v) mod 65521) mod 65521 = (b + a + unat v) mod 65521" by (simp add: mod_simps add.assoc)
  then have "rfc_step v (a mod 65521, b mod 65521) = ((a + unat v) mod 65521, (b + a + unat v) mod 65521)"
    by (simp only: rfc_step_def prod.case mod_add_left_eq)
  then show ?case using Cons [of "a + unat v" "b + a + unat v"] by simp
qed simp

lemma adler_rfc:
  "unat a \<le> 65520 \<Longrightarrow> unat b \<le> 65520 \<Longrightarrow> map_prod unat unat (adler out (a, b)) = fold rfc_step out (unat a, unat b)"
proof (induction "length out" arbitrary: out a b rule: less_induct)
  case less
  show ?case
  proof (cases "out = []")
    case True
    then show ?thesis by (simp add: adler.simps)
  next
    case False
    let ?now = "take 5552 out"
    obtain x y where xy: "fold adler_step ?now (a, b) = (x, y)" by (meson surj_pair)
    have plain: "fold plain_step ?now (unat a, unat b) = (unat x, unat y)"
      using words_plain [of ?now a b] plain_less [of ?now "unat a" "unat b"] less.prems xy by simp
    have sums: "fold rfc_step ?now (unat a, unat b) = (unat x mod 65521, unat y mod 65521)"
      using plain_mod [of ?now "unat a" "unat b"] plain less.prems by simp
    have m: "unat (x mod 65521) = unat x mod 65521" "unat (y mod 65521) = unat y mod 65521" by (simp_all add: unat_mod)
    have r: "adler out (a, b) = adler (drop 5552 out) (x mod 65521, y mod 65521)" using False xy by (subst adler.simps) simp
    have small: "unat x mod 65521 \<le> 65520" "unat y mod 65521 \<le> 65520" using mod_less_divisor [of 65521 "unat x"] mod_less_divisor [of 65521 "unat y"] by simp_all
    have "map_prod unat unat (adler out (a, b)) = fold rfc_step (drop 5552 out) (unat x mod 65521, unat y mod 65521)"
      unfolding r using less.hyps [of "drop 5552 out" "x mod 65521" "y mod 65521"] False small unfolding m by simp
    also have "\<dots> = fold rfc_step out (unat a, unat b)" unfolding sums [symmetric] by (metis append_take_drop_id comp_apply fold_append)
    finally show ?thesis .
  qed
qed

section \<open>Stored blocks\<close>

text \<open>A zlib stream that stores its data, as RFC 1950 and 1951 lay it out: blocks of at most 65,535 bytes, each its header
  byte, its length, the complement and the bytes, and the checksum at the end.\<close>

function store_blocks :: "bytes \<Rightarrow> bytes" where
  "store_blocks bs =
     (if length bs \<le> 65535 then 1 # le_bytes 2 (length bs) @ le_bytes 2 (65535 - length bs) @ bs
      else 0 # le_bytes 2 65535 @ le_bytes 2 0 @ take 65535 bs @ store_blocks (drop 65535 bs))"
  by pat_completeness auto
termination
  by (relation "measure length") auto

declare store_blocks.simps [simp del]

definition zlib_store :: "bytes \<Rightarrow> bytes" where
  "zlib_store bs = [0x78, 0x01] @ store_blocks bs @ (case rfc_adler bs of (a, b) \<Rightarrow> be_bytes 4 (b * 65536 + a))"

definition aligned :: "bits \<Rightarrow> bytes \<Rightarrow> bool" where
  "aligned b bs \<longleftrightarrow> bits_ok b \<and> bt_list b = concat (map byte_bits bs)"

lemma bits_val_append: "bits_val (xs @ ys) = bits_val xs + 2 ^ length xs * bits_val ys"
  by (simp add: bits_val_def horner_sum_append)

lemma bits_val_byte [simp]: "bits_val (byte_bits v) = unat v"
proof -
  have "map (bit v) [0..<8] = map (bit (unat v)) [0..<8]" by (simp add: bit_unsigned_iff)
  then have "bits_val (byte_bits v) = take_bit 8 (unat v)" unfolding bits_val_def byte_bits_def by (simp only: horner_sum_bit_eq_take_bit)
  then show ?thesis using unat_u8_less [of v] by (simp add: take_bit_nat_eq_self)
qed

lemma bits_val_bytes: "bits_val (concat (map byte_bits bs)) = le_val bs"
  by (induction bs) (simp_all add: bits_val_append, simp add: bits_val_def)

lemma take_bytes:
  assumes "aligned b (xs @ ys)" "length xs \<le> 4" "k = 8 * length xs"
  obtains b' where "bt_take k b = Inr (le_val xs, b')" "aligned b' ys" "bt_data b' = bt_data b"
proof -
  have l: "bt_list b = concat (map byte_bits xs) @ concat (map byte_bits ys)" "bits_ok b" using assms(1) by (simp_all add: aligned_def)
  have "k \<le> 32" "k \<le> length (bt_list b)" using assms(2,3) l(1) by simp_all
  then obtain b' where "bt_take k b = Inr (bits_val (take k (bt_list b)), b')" "bits_ok b'" "bt_list b' = drop k (bt_list b)" "bt_data b' = bt_data b"
    using take_ok [OF l(2)] by metis
  then show thesis using that l(1) assms(3) by (simp add: aligned_def bits_val_bytes)
qed

lemma stored_bytes_back:
  "aligned b (xs @ ys) \<Longrightarrow> \<exists>b'. stored_bytes (length xs) (b, out) = Inr (b', out @ xs) \<and> aligned b' ys \<and> bt_data b' = bt_data b"
proof (induction xs arbitrary: b out)
  case (Cons x xs)
  obtain b1 where b1: "bt_take 8 b = Inr (le_val [x], b1)" "aligned b1 (xs @ ys)" "bt_data b1 = bt_data b"
    using take_bytes [of b "[x]" "xs @ ys" 8] Cons.prems by auto
  then show ?case using Cons.IH [OF b1(2), of "out @ [x]"] by auto
qed simp

lemma aligned_mod: "bits_ok b \<Longrightarrow> bt_n b mod 8 = length (bt_list b) mod 8"
  by (simp add: length_bt_list bits_left_def)

lemma stored_block_back:
  assumes "bits_ok b" "bt_list b = drop 3 (byte_bits h) @ concat (map byte_bits (le_bytes 2 (length xs) @ le_bytes 2 (65535 - length xs) @ xs @ ys))"
    "length xs \<le> 65535"
  shows "\<exists>b'. stored_block b out = Inr (b', out @ xs) \<and> aligned b' ys \<and> bt_data b' = bt_data b"
proof -
  have "length (bt_list b) = 5 + 8 * (4 + length xs + length ys)" using assms(2) by simp
  then have n: "bt_n b mod 8 = 5" using aligned_mod [OF assms(1)] by presburger
  then have "5 \<le> bt_n b" by (metis mod_less_eq_dividend)
  then obtain b0 where b0: "skip 5 b = Inr b0" "bits_ok b0" "bt_list b0 = drop 5 (bt_list b)" "bt_data b0 = bt_data b" by (rule skip_ok [OF assms(1)])
  have "aligned b0 (le_bytes 2 (length xs) @ (le_bytes 2 (65535 - length xs) @ xs @ ys))" using b0(2,3) assms(2) by (simp add: aligned_def)
  then obtain b1 where b1: "bt_take 16 b0 = Inr (le_val (le_bytes 2 (length xs)), b1)" "aligned b1 (le_bytes 2 (65535 - length xs) @ xs @ ys)" "bt_data b1 = bt_data b0"
    by (rule take_bytes) simp_all
  obtain b2 where b2: "bt_take 16 b1 = Inr (le_val (le_bytes 2 (65535 - length xs)), b2)" "aligned b2 (xs @ ys)" "bt_data b2 = bt_data b1"
    by (rule take_bytes [OF b1(2)]) simp_all
  obtain b' where "stored_bytes (length xs) (b2, out) = Inr (b', out @ xs)" "aligned b' ys" "bt_data b' = bt_data b2" using stored_bytes_back [OF b2(2)] by blast
  moreover have "le_val (le_bytes 2 (length xs)) = length xs" "le_val (le_bytes 2 (65535 - length xs)) = 65535 - length xs" using assms(3) by simp_all
  ultimately show ?thesis using b0(1,4) b1(1,3) b2(1,3) n assms(3) by (simp add: stored_block_def)
qed

lemma block_back:
  assumes "aligned b (h # le_bytes 2 (length xs) @ le_bytes 2 (65535 - length xs) @ xs @ ys)" "h = 0 \<or> h = 1" "length xs \<le> 65535"
  shows "\<exists>b'. inflate_block b out = Inr (h = 1, b', out @ xs) \<and> aligned b' ys \<and> bt_data b' = bt_data b"
proof -
  let ?rest = "concat (map byte_bits (le_bytes 2 (length xs) @ le_bytes 2 (65535 - length xs) @ xs @ ys))"
  have l: "bits_ok b" "bt_list b = byte_bits h @ ?rest" using assms(1) by (simp_all add: aligned_def)
  then obtain b1 where b1: "bt_take 3 b = Inr (bits_val (take 3 (bt_list b)), b1)" "bits_ok b1" "bt_list b1 = drop 3 (bt_list b)" "bt_data b1 = bt_data b"
    using take_ok [OF l(1), of 3] by auto
  have three: "take 3 (byte_bits h) = [bit h 0, bit h 1, bit h 2]" by (simp add: byte_bits_def take_map upt_rec numeral_2_eq_2)
  have v: "bits_val (take 3 (bt_list b)) = unat h" using assms(2) unfolding l(2) by (auto simp: three bits_val_def bit_0)
  have "bt_list b1 = drop 3 (byte_bits h) @ ?rest" using b1(3) l(2) by simp
  then obtain b' where b': "stored_block b1 out = Inr (b', out @ xs)" "aligned b' ys" "bt_data b' = bt_data b1"
    using stored_block_back [OF b1(2) _ assms(3)] by blast
  have "drop_bit 1 (unat h) = 0" "unat h AND 1 = 1 \<longleftrightarrow> h = 1" using assms(2) by auto
  then show ?thesis using b1(1,4) b' unfolding v by (simp add: inflate_block_def Let_def)
qed

lemma blocks_back:
  "aligned b (store_blocks bs @ ys) \<Longrightarrow> length (store_blocks bs) \<le> fuel \<Longrightarrow>
     \<exists>b'. inflate_blocks fuel b out = Inr (b', out @ bs) \<and> aligned b' ys \<and> bt_data b' = bt_data b"
proof (induction bs arbitrary: b out fuel rule: store_blocks.induct)
  case (1 bs)
  obtain n where fuel: "fuel = Suc n" using 1(3) by (cases fuel) (auto simp: store_blocks.simps [of bs] split: if_splits)
  show ?case
  proof (cases "length bs \<le> 65535")
    case True
    then show ?thesis using block_back [of b 1 bs ys out] 1(2) fuel by (auto simp: store_blocks.simps [of bs])
  next
    case False
    let ?now = "take 65535 bs" and ?later = "drop 65535 bs"
    have s: "store_blocks bs = 0 # le_bytes 2 (length ?now) @ le_bytes 2 (65535 - length ?now) @ ?now @ store_blocks ?later"
      using False by (subst store_blocks.simps) (simp add: min_def)
    obtain b1 where b1: "inflate_block b out = Inr (False, b1, out @ ?now)" "aligned b1 (store_blocks ?later @ ys)" "bt_data b1 = bt_data b"
      using block_back [of b 0 ?now "store_blocks ?later @ ys" out] 1(2) unfolding s by auto
    have "length (store_blocks ?later) \<le> n" using 1(3) unfolding s fuel by simp
    then obtain b' where "inflate_blocks n b1 (out @ ?now) = Inr (b', (out @ ?now) @ ?later)" "aligned b' ys" "bt_data b' = bt_data b1"
      using 1(1) [OF False b1(2)] by blast
    then show ?thesis using b1(1,3) fuel by simp
  qed
qed

lemma rfc_small: "a < 65521 \<Longrightarrow> b < 65521 \<Longrightarrow> fst (fold rfc_step bs (a, b)) < 65521 \<and> snd (fold rfc_step bs (a, b)) < 65521"
  by (induction bs arbitrary: a b) (simp_all add: rfc_step_def case_prod_unfold)

lemma checksum_word:
  assumes "adler out (1, 0) = (x, y)" "rfc_adler out = (a, b)"
  shows "word_of_nat (b * 65536 + a) = push_bit 16 y OR x" "b * 65536 + a < 256 ^ 4"
proof -
  have ab: "unat x = a" "unat y = b" using adler_rfc [of 1 0 out] assms by (simp_all add: rfc_adler_def)
  have small: "a < 65521" "b < 65521" using rfc_small [of 1 0 out] assms(2) by (simp_all add: rfc_adler_def)
  then show "b * 65536 + a < 256 ^ 4" by simp
  have "unat (push_bit 16 y OR x) = take_bit 32 (push_bit 16 b) OR a" by (simp add: unsigned_or_eq unsigned_push_bit_eq ab)
  also have "\<dots> = a OR push_bit 16 b" using small by (simp add: or.commute push_bit_eq_mult take_bit_nat_eq_self)
  also have "\<dots> = b * 65536 + a" using low_high(1) [of a 16 b] small by simp
  finally have sum: "unat (push_bit 16 y OR x) = b * 65536 + a" .
  show "word_of_nat (b * 65536 + a) = push_bit 16 y OR x" unfolding sum [symmetric] by simp
qed

section \<open>Claims\<close>

text \<open>C12. Decoding a symbol through the table of short codes reads what the canonical code of RFC 1951 says: for any code
  lengths that fit, the tables are built, and decoding gives the one symbol whose code the bits ahead begin with and moves past
  it; if they begin with no code it is an error, that the stream ends if fewer than 15 bits are left.\<close>

theorem huffman_decodes:
  assumes "lengths_ok lengths" "bits_ok b"
  shows "\<exists>h. huffman_new lengths = Inr h \<and>
    (\<forall>s. code_matches lengths (bt_list b) s \<longrightarrow>
       (\<exists>b'. huff_decode h b = Inr (s, b') \<and> bits_ok b' \<and> bt_list b' = drop (lengths ! s) (bt_list b))) \<and>
    ((\<forall>s. \<not> code_matches lengths (bt_list b) s) \<longrightarrow>
       huff_decode h b = Inl (bad_media (if length (bt_list b) < 15 then ''a deflate stream ends early'' else ''a deflate stream has an invalid code'')))"
proof -
  have "list_all (\<lambda>l. l \<le> 15) lengths" using assms(1) by (simp add: lengths_ok_def)
  then obtain h where h: "huffman_new lengths = Inr h" "tables_ok lengths h" by (rule huffman_new_ok)
  have d: "decoded lengths b (bt_list b) (huff_decode h b)" using huffman_decodes_list [OF h(2) assms] .
  have "\<exists>b'. huff_decode h b = Inr (s, b') \<and> bits_ok b' \<and> bt_list b' = drop (lengths ! s) (bt_list b)" if "code_matches lengths (bt_list b) s" for s
    using d that matches_unique unfolding decoded_def by blast
  then show ?thesis using h(1) d by (auto simp: decoded_def)
qed

theorem huffman_decodes_witness:
  "\<exists>h. huffman_new [1, 2, 2] = Inr h \<and>
     (\<exists>b'. huff_decode h \<lparr>bt_data = [0x3D], bt_at = 0, bt_buf = 0, bt_n = 0\<rparr> = Inr (1, b') \<and>
        bt_list b' = [True, True, True, True, False, False])"
proof -
  let ?b = "\<lparr>bt_data = [0x3D], bt_at = 0, bt_buf = 0, bt_n = 0\<rparr>"
  have "lengths_ok [1, 2, 2]" by (simp add: lengths_ok_def)
  moreover have "bits_ok ?b" by (simp add: bits_ok_def)
  moreover have bits: "bt_list ?b = [True, False, True, True, True, True, False, False]"
    by (simp add: bt_list_def byte_bits_def upt_rec)
  moreover have "code_matches [1, 2, 2] (bt_list ?b) 1" unfolding bits by code_simp
  ultimately show ?thesis using huffman_decodes [of "[1, 2, 2]" ?b] by (fastforce simp: bits)
qed

lemma zlib_safe:
  "(\<exists>out. zlib z = Inr out) \<or> (\<exists>what. zlib z = Inl (bad_media what))"
proof -
  let ?b = "\<lparr>bt_data = drop 2 z, bt_at = 0, bt_buf = 0, bt_n = 0\<rparr>"
  have "bits_ok ?b" by (simp add: bits_ok_def)
  then have "safe ?b 0 fst (\<lambda>_. True) (inflate_blocks (bits_left ?b + 1) ?b [])" by (intro blocks_safe) (simp_all add: length_bt_list)
  then show ?thesis by (auto simp: zlib_def safe_def Let_def split: prod.splits) blast+
qed

lemma zlib_store_back: "zlib (zlib_store bs) = Inr bs"
proof -
  let ?z = "zlib_store bs"
  obtain a b where ab: "rfc_adler bs = (a, b)" by (meson surj_pair)
  let ?sum = "be_bytes 4 (b * 65536 + a)"
  let ?b = "\<lparr>bt_data = drop 2 ?z, bt_at = 0, bt_buf = 0, bt_n = 0\<rparr>"
  have z: "?z = [0x78, 0x01] @ store_blocks bs @ ?sum" by (simp add: zlib_store_def ab)
  have d: "drop 2 ?z = store_blocks bs @ ?sum" by (simp add: z)
  have "aligned ?b (store_blocks bs @ ?sum)" by (simp add: aligned_def bits_ok_def bt_list_def d)
  moreover have "length (store_blocks bs) \<le> bits_left ?b + 1" by (simp add: bits_left_def d)
  ultimately obtain b' where b': "inflate_blocks (bits_left ?b + 1) ?b [] = Inr (b', bs)" "aligned b' ?sum" "bt_data b' = drop 2 ?z"
    using blocks_back [of ?b bs ?sum "bits_left ?b + 1" "[]"] by auto
  obtain x y where xy: "adler bs (1, 0) = (x, y)" by (meson surj_pair)
  have "bt_n b' + 8 * (length (drop 2 ?z) - bt_at b') = 32" "bt_at b' \<le> length (drop 2 ?z)"
    using b'(2) length_bt_list [of b'] by (simp_all add: aligned_def bits_left_def b'(3) bits_ok_def)
  then have fin: "2 + bt_at b' - bt_n b' div 8 = length ([0x78, 0x01] @ store_blocks bs)" unfolding d by simp
  have "slice ?z (2 + bt_at b' - bt_n b' div 8) 4 = Some ?sum"
    unfolding fin z append_assoc [symmetric] slice_append by (simp add: slice_def)
  moreover have "word_of_nat (be_val ?sum) = push_bit 16 y OR x" using checksum_word [OF xy ab] by simp
  moreover have "\<not> (length ?z < 6 \<or> ?z ! 0 AND 15 \<noteq> 8 \<or> (unat (?z ! 0) * 256 + unat (?z ! 1)) mod 31 \<noteq> 0 \<or> ?z ! 1 AND 32 \<noteq> 0)"
    by (simp add: z)
  ultimately show ?thesis unfolding zlib_def Let_def using b'(1) xy by simp
qed

text \<open>C15. Whatever bytes it is given, \<open>zlib\<close> returns: data, or an error of its own. No index is out of bounds and no loop
  goes on past the stream's bits, also for code lengths that no code has.\<close>

theorem zlib_returns:
  "(\<exists>out. zlib z = Inr out) \<or> (\<exists>what. zlib z = Inl (bad_media what))"
  by (rule zlib_safe)

text \<open>C38. A stream of stored blocks that ends with the Adler-32 of its data, as RFC 1950 defines it, gives that data, of
  whatever length: the bits are read from the lowest, blocks end on bytes, and the sums that are reduced only every 5,552 bytes
  never overflow.\<close>

theorem zlib_stored: "zlib (zlib_store bs) = Inr bs"
  by (rule zlib_store_back)

end
