(* ===== verification/Http.thy ===== *)
theory Http
  imports Chat Daemon Wpk "HOL-Library.Sublist"
begin

text \<open>
  The HTTP client (\<open>net/http.rs\<close>): URLs, responses, a kept-alive connection with the three ways a body ends, and
  redirects. What the network does is an input: a connection carries the outcomes of its reads and writes, and \<open>net\<close> those
  of opening connections and a log of what was written to whom. The sink of a body is a function on a state of its own.
  The loops end by the bytes that are left to read.
\<close>

section \<open>Strings\<close>

text \<open>The first place where \<open>p\<close> occurs: \<open>windows(n).position\<close>, \<open>str::find\<close>.\<close>

fun find_sub :: "'a list \<Rightarrow> 'a list \<Rightarrow> nat option" where
  "find_sub p [] = (if p = [] then Some 0 else None)"
| "find_sub p (x # xs) = (if take (length p) (x # xs) = p then Some 0 else map_option Suc (find_sub p xs))"

definition split_at_first :: "'a list \<Rightarrow> 'a list \<Rightarrow> ('a list \<times> 'a list) option" where
  "split_at_first p s = map_option (\<lambda>i. (take i s, drop (i + length p) s)) (find_sub p s)"

definition rsplit_once :: "scalar \<Rightarrow> str \<Rightarrow> (str \<times> str) option" where
  "rsplit_once c s = map_option (\<lambda>(a, b). (rev b, rev a)) (split_at_first [c] (rev s))"

text \<open>\<open>str::split\<close> at \<open>c # p\<close>.\<close>

function split_str :: "'a \<Rightarrow> 'a list \<Rightarrow> 'a list \<Rightarrow> 'a list list" where
  "split_str c p s = (case split_at_first (c # p) s of None \<Rightarrow> [s] | Some (a, b) \<Rightarrow> a # split_str c p b)"
  by pat_completeness auto

lemma find_sub_bound: "find_sub p s = Some i \<Longrightarrow> i + length p \<le> length s"
proof (induction s arbitrary: i)
  case (Cons x xs)
  then show ?case by (auto split: if_splits) (metis length_Cons length_take min.absorb_iff2 min_def nle_le)+
qed (simp split: if_splits)

termination split_str
  by (relation "measure (\<lambda>(c, p, s). length s)") (auto simp: split_at_first_def dest: find_sub_bound)

declare split_str.simps [simp del]

definition ascii_lower :: "scalar \<Rightarrow> scalar" where
  "ascii_lower c = (if 65 \<le> c \<and> c \<le> 90 then c + 32 else c)"

definition eq_ignore_ascii_case :: "str \<Rightarrow> str \<Rightarrow> bool" where
  "eq_ignore_ascii_case a b \<longleftrightarrow> map ascii_lower a = map ascii_lower b"

text \<open>\<open>u16::from_str\<close> and \<open>u64::from_str_radix(s, 16)\<close>.\<close>

definition parse_u16 :: "str \<Rightarrow> nat option" where
  "parse_u16 s = Option.bind (parse_usize s) (\<lambda>n. if n < 2 ^ 16 then Some n else None)"

definition hex_digit :: "scalar \<Rightarrow> nat option" where
  "hex_digit c =
     (if 48 \<le> c \<and> c \<le> 57 then Some (c - 48)
      else if 97 \<le> c \<and> c \<le> 102 then Some (c - 87)
      else if 65 \<le> c \<and> c \<le> 70 then Some (c - 55)
      else None)"

fun hex_value_of :: "nat \<Rightarrow> str \<Rightarrow> nat option" where
  "hex_value_of v [] = Some v"
| "hex_value_of v (c # cs) =
     Option.bind (hex_digit c) (\<lambda>d. if 16 * v + d < 2 ^ 64 then hex_value_of (16 * v + d) cs else None)"

definition parse_hex :: "str \<Rightarrow> nat option" where
  "parse_hex s =
     (let digits = (case s of c # cs \<Rightarrow> if c = 43 then cs else s | [] \<Rightarrow> s) in
      if digits = [] then None else hex_value_of 0 digits)"

section \<open>URLs and responses\<close>

definition MAX_HEAD :: nat where "MAX_HEAD = 64 * 2 ^ 10"

definition MAX_REDIRECTS :: nat where "MAX_REDIRECTS = 8"

datatype io_error = Invalid_data str | Unexpected_eof str | Other str | Os int

definition invalid :: "string \<Rightarrow> io_error" where
  "invalid why = Invalid_data (lit ''HTTP: '' @ lit why)"

record url =
  url_https :: bool
  url_host :: str
  url_port :: nat
  url_path :: str

definition url_parse :: "str \<Rightarrow> url option" where
  "url_parse s =
     Option.bind (split_at_first (lit ''://'') s) (\<lambda>(scheme, rest).
       if scheme \<noteq> lit ''https'' \<and> scheme \<noteq> lit ''http'' then None
       else
         let https = (scheme = lit ''https'');
             authority = takeWhile (\<lambda>c. c \<noteq> 47 \<and> c \<noteq> 63) rest;
             path = (if authority = rest then lit ''/'' else drop (length authority) rest)
         in Option.bind
              (case rsplit_once 58 authority of
                 Some (host, port) \<Rightarrow> map_option (Pair host) (parse_u16 port)
               | None \<Rightarrow> Some (authority, if https then 443 else 80))
              (\<lambda>(host, port).
                 let path = (if hd path = 63 then 47 # path else path) in
                 if host = [] then None else Some \<lparr>url_https = https, url_host = host, url_port = port, url_path = path\<rparr>))"

definition url_join :: "url \<Rightarrow> str \<Rightarrow> url option" where
  "url_join u location = (if take 1 location = [47] then Some (u\<lparr>url_path := location\<rparr>) else url_parse location)"

record response =
  rs_status :: nat
  rs_headers :: "(str \<times> str) list"

definition rs_header :: "response \<Rightarrow> string \<Rightarrow> str option" where
  "rs_header r name = map_option snd (find (\<lambda>(k, _). k = lit name) (rs_headers r))"

definition rs_length :: "response \<Rightarrow> nat option" where
  "rs_length r = Option.bind (rs_header r ''content-length'') (\<lambda>v. parse_usize (trim v))"

definition is_redirect :: "nat \<Rightarrow> bool" where
  "is_redirect status \<longleftrightarrow> status \<in> {301, 302, 303, 307, 308}"

section \<open>Connections\<close>

text \<open>
  What the reads of a connection give, in order, the end of the connection after them; and for each \<open>write_all\<close> whether all
  was written, or how many bytes before which error.
\<close>

datatype incoming = Got bytes | Read_failed io_error

record connection =
  cn_url :: url
  cn_reads :: "incoming list"
  cn_writes :: "(nat \<times> io_error) option list"
  cn_buf :: bytes
  cn_closing :: bool

record net =
  nt_opens :: "(io_error + (incoming list \<times> (nat \<times> io_error) option list)) list"
  nt_log :: "(url \<times> bytes) list"

text \<open>\<open>Connection::open\<close>: a list that has ended stands for a host that cannot be reached.\<close>

definition conn_open :: "url \<Rightarrow> net \<Rightarrow> (io_error + connection) \<times> net" where
  "conn_open u n =
     (case nt_opens n of
        [] \<Rightarrow> (Inl (Other (lit ''unreachable'')), n)
      | o1 # os \<Rightarrow>
          (rmap (\<lambda>(reads, writes). \<lparr>cn_url = u, cn_reads = reads, cn_writes = writes, cn_buf = [], cn_closing = False\<rparr>) o1,
           n\<lparr>nt_opens := os\<rparr>))"

definition serves :: "connection \<Rightarrow> url \<Rightarrow> bool" where
  "serves c u \<longleftrightarrow>
     \<not> cn_closing c \<and> (url_https (cn_url c), url_host (cn_url c), url_port (cn_url c)) = (url_https u, url_host u, url_port u)"

definition write_all :: "bytes \<Rightarrow> connection \<Rightarrow> net \<Rightarrow> (io_error + unit) \<times> connection \<times> net" where
  "write_all bs c n =
     (case cn_writes c of
        Some (k, e) # ws \<Rightarrow> (Inl e, c\<lparr>cn_writes := ws\<rparr>, n\<lparr>nt_log := nt_log n @ [(cn_url c, take k bs)]\<rparr>)
      | ws \<Rightarrow> (Inr (), c\<lparr>cn_writes := drop 1 ws\<rparr>, n\<lparr>nt_log := nt_log n @ [(cn_url c, bs)]\<rparr>))"

text \<open>A read takes at most the 64 KiB there is room for; the rest of a longer piece is read later.\<close>

definition fill :: "connection \<Rightarrow> (io_error + nat) \<times> connection" where
  "fill c =
     (case cn_reads c of
        [] \<Rightarrow> (Inr 0, c)
      | Read_failed e # rs \<Rightarrow> (Inl e, c\<lparr>cn_reads := rs\<rparr>)
      | Got bs # rs \<Rightarrow>
          (Inr (min (length bs) MAX_HEAD),
           c\<lparr>cn_buf := cn_buf c @ take MAX_HEAD bs,
             cn_reads := (if length bs \<le> MAX_HEAD then rs else Got (drop MAX_HEAD bs) # rs)\<rparr>))"

text \<open>What is still to be read.\<close>

fun in_size :: "incoming \<Rightarrow> nat" where
  "in_size (Got bs) = length bs + 1"
| "in_size (Read_failed e) = 1"

definition pending :: "connection \<Rightarrow> nat" where
  "pending c = sum_list (map in_size (cn_reads c))"

definition ahead :: "connection \<Rightarrow> nat" where
  "ahead c = length (cn_buf c) + pending c"

lemma fill_progress:
  assumes "fill c = (Inr n, c')"
  shows "length (cn_buf c') = length (cn_buf c) + n" "0 < n \<Longrightarrow> pending c' < pending c" "ahead c' \<le> ahead c"
  using assms by (auto simp: fill_def pending_def ahead_def MAX_HEAD_def split: list.splits incoming.splits)

text \<open>The loop of \<open>head\<close> and of \<open>line\<close>: reading until the buffer has \<open>pat\<close>.\<close>

function until_found :: "bytes \<Rightarrow> string \<Rightarrow> connection \<Rightarrow> (io_error + nat) \<times> connection" where
  "until_found pat why c =
     (case find_sub pat (cn_buf c) of
        Some i \<Rightarrow> (Inr i, c)
      | None \<Rightarrow>
          if MAX_HEAD < length (cn_buf c) then (Inl (invalid why), c)
          else (case fill c of
                  (Inl e, c) \<Rightarrow> (Inl e, c)
                | (Inr n, c) \<Rightarrow> if n = 0 then (Inl (invalid why), c) else until_found pat why c))"
  by pat_completeness auto
termination
  by (relation "measure (\<lambda>(pat, why, c). pending c)") (auto dest: fill_progress(2) [OF sym])

declare until_found.simps [simp del]

definition parse_head :: "str \<Rightarrow> io_error + response" where
  "parse_head txt =
     (let lines = split_str 13 [10] txt;
          status = Option.bind (let ws = split_str 32 [] (hd lines) in if 1 < length ws then Some (ws ! 1) else None) parse_u16
      in rmap (\<lambda>status.
           \<lparr>rs_status = status,
            rs_headers = map (\<lambda>(k, v). (map ascii_lower (trim k), trim v)) (List.map_filter (split_at_first [58]) (tl lines))\<rparr>)
           (ok_or (invalid ''a malformed status line'') status))"

definition conn_head :: "connection \<Rightarrow> (io_error + response) \<times> connection" where
  "conn_head c =
     (case until_found [13, 10, 13, 10] ''the server sent no complete response head'' c of
        (Inl e, c) \<Rightarrow> (Inl e, c)
      | (Inr i, c) \<Rightarrow> (parse_head (lossy (take i (cn_buf c))), c\<lparr>cn_buf := drop (i + 4) (cn_buf c)\<rparr>))"

definition conn_line :: "connection \<Rightarrow> (io_error + str) \<times> connection" where
  "conn_line c =
     (case until_found [13, 10] ''a chunked body ended early'' c of
        (Inl e, c) \<Rightarrow> (Inl e, c)
      | (Inr i, c) \<Rightarrow> (Inr (lossy (take i (cn_buf c))), c\<lparr>cn_buf := drop (i + 2) (cn_buf c)\<rparr>))"

section \<open>Bodies\<close>

type_synonym 's sink = "bytes \<Rightarrow> 's \<Rightarrow> (io_error + unit) \<times> 's"

text \<open>\<open>self.buf.is_empty() && self.fill()? == 0\<close>, negated: whether the buffer has a byte.\<close>

definition has_more :: "connection \<Rightarrow> (io_error + bool) \<times> connection" where
  "has_more c = (if cn_buf c \<noteq> [] then (Inr True, c) else case fill c of (r, c) \<Rightarrow> (rmap (\<lambda>n. n \<noteq> 0) r, c))"

lemma has_more_progress:
  assumes "has_more c = (Inr b, c')"
  shows "b \<Longrightarrow> cn_buf c' \<noteq> []" "ahead c' \<le> ahead c"
  using assms fill_progress [of c _ c'] by (auto simp: has_more_def rmap_Inr_iff split: if_splits prod.splits)

function exact :: "'s sink \<Rightarrow> nat \<Rightarrow> connection \<times> 's \<Rightarrow> (io_error + unit) \<times> connection \<times> 's" where
  "exact sink len (c, s) =
     (if len = 0 then (Inr (), c, s)
      else case has_more c of
        (Inl e, c) \<Rightarrow> (Inl e, c, s)
      | (Inr False, c) \<Rightarrow> (Inl (Unexpected_eof (lit ''the connection ended inside a body'')), c, s)
      | (Inr True, c) \<Rightarrow>
          let n = min (length (cn_buf c)) len in
          (case sink (take n (cn_buf c)) s of
             (Inl e, s) \<Rightarrow> (Inl e, c, s)
           | (Inr _, s) \<Rightarrow> exact sink (len - n) (c\<lparr>cn_buf := drop n (cn_buf c)\<rparr>, s)))"
  by pat_completeness auto
termination
  by (relation "measure (\<lambda>(sink, len, c, s). len)") (auto dest!: has_more_progress(1) [OF sym])

declare exact.simps [simp del]

function until_closed :: "'s sink \<Rightarrow> connection \<times> 's \<Rightarrow> (io_error + unit) \<times> connection \<times> 's" where
  "until_closed sink (c, s) =
     (case (if cn_buf c \<noteq> [] then sink (cn_buf c) s else (Inr (), s)) of
        (Inl e, s) \<Rightarrow> (Inl e, c\<lparr>cn_closing := True\<rparr>, s)
      | (Inr _, s) \<Rightarrow>
          (case fill (c\<lparr>cn_closing := True, cn_buf := []\<rparr>) of
             (Inl e, c) \<Rightarrow> (Inl e, c, s)
           | (Inr n, c) \<Rightarrow> if n = 0 then (Inr (), c, s) else until_closed sink (c, s)))"
  by pat_completeness auto
termination
proof (relation "measure (\<lambda>(sink, c, s). pending c)", goal_cases)
  case (2 sink c s x s' y b c' n)
  then show ?case using fill_progress(2) [of "c\<lparr>cn_closing := True, cn_buf := []\<rparr>" n c'] by (simp add: pending_def)
qed simp

declare until_closed.simps [simp del]

lemma until_found_ahead: "until_found pat why c = (r, c') \<Longrightarrow> ahead c' \<le> ahead c \<and> (\<forall>i. r = Inr i \<longrightarrow> find_sub pat (cn_buf c') = Some i)"
proof (induction pat why c rule: until_found.induct)
  case (1 pat why c)
  show ?case
  proof (cases "find_sub pat (cn_buf c) = None \<and> \<not> MAX_HEAD < length (cn_buf c)")
    case True
    obtain q c1 where f: "fill c = (q, c1)" by (meson surj_pair)
    have "ahead c1 \<le> ahead c" using f by (auto simp: fill_def pending_def ahead_def MAX_HEAD_def split: list.splits incoming.splits)
    moreover have "until_found pat why c =
        (case q of Inl e \<Rightarrow> (Inl e, c1) | Inr n \<Rightarrow> if n = 0 then (Inl (invalid why), c1) else until_found pat why c1)"
      using True f by (subst until_found.simps) simp
    ultimately show ?thesis using 1(1) [OF _ _ f [symmetric]] 1(2) True by (cases q) (auto split: if_splits)
  next
    case False
    then show ?thesis using 1(2) by (subst (asm) until_found.simps) (auto split: option.splits if_splits)
  qed
qed

lemma conn_line_progress: "conn_line c = (Inr l, c') \<Longrightarrow> ahead c' + 2 \<le> ahead c"
  using until_found_ahead find_sub_bound by (fastforce simp: conn_line_def ahead_def pending_def split: prod.splits sum.splits)

lemma exact_ahead: "exact sink len cs = (r, c', s') \<Longrightarrow> ahead c' \<le> ahead (fst cs)"
proof (induction sink len cs arbitrary: r rule: exact.induct)
  case (1 sink len c s)
  obtain b c1 where m: "has_more c = (b, c1)" by (meson surj_pair)
  have a1: "ahead c1 \<le> ahead c" using m
    by (auto simp: has_more_def fill_def pending_def ahead_def MAX_HEAD_def split: if_splits prod.splits list.splits incoming.splits)
  show ?case
  proof (cases "len = 0 \<or> b \<noteq> Inr True")
    case True
    then show ?thesis using 1(2) m a1 by (subst (asm) exact.simps) (auto split: sum.splits bool.splits if_splits)
  next
    case False
    let ?n = "min (length (cn_buf c1)) len"
    obtain q s1 where k: "sink (take ?n (cn_buf c1)) s = (q, s1)" by (meson surj_pair)
    have "ahead (c1\<lparr>cn_buf := drop ?n (cn_buf c1)\<rparr>) \<le> ahead c1" by (simp add: ahead_def pending_def)
    then show ?thesis using 1(1) [OF _ m [symmetric], of True] 1(2) False k m a1
      by (subst (asm) exact.simps) (fastforce simp: Let_def split: sum.splits)
  qed
qed

function trailers :: "connection \<Rightarrow> (io_error + unit) \<times> connection" where
  "trailers c =
     (case conn_line c of
        (Inl e, c) \<Rightarrow> (Inl e, c)
      | (Inr l, c) \<Rightarrow> if l = [] then (Inr (), c) else trailers c)"
  by pat_completeness auto
termination
  by (relation "measure ahead") (auto dest!: conn_line_progress [OF sym])

declare trailers.simps [simp del]

function chunked :: "'s sink \<Rightarrow> connection \<times> 's \<Rightarrow> (io_error + unit) \<times> connection \<times> 's" where
  "chunked sink (c, s) =
     (case conn_line c of
        (Inl e, c) \<Rightarrow> (Inl e, c, s)
      | (Inr l, c) \<Rightarrow>
          (case parse_hex (trim (hd (split_str 59 [] l))) of
             None \<Rightarrow> (Inl (invalid ''a malformed chunk size''), c, s)
           | Some len \<Rightarrow>
               if len = 0 then (case trailers c of (r, c) \<Rightarrow> (r, c, s))
               else (case exact sink len (c, s) of
                       (Inl e, c, s) \<Rightarrow> (Inl e, c, s)
                     | (Inr _, c, s) \<Rightarrow>
                         (case conn_line c of
                            (Inl e, c) \<Rightarrow> (Inl e, c, s)
                          | (Inr _, c) \<Rightarrow> chunked sink (c, s)))))"
  by pat_completeness auto
termination
proof (relation "measure (\<lambda>(sink, c, s). ahead c)", goal_cases)
  case 2
  then show ?case by (auto dest!: conn_line_progress [OF sym] exact_ahead [OF sym])
qed simp

declare chunked.simps [simp del]

definition conn_body :: "response \<Rightarrow> 's sink \<Rightarrow> connection \<times> 's \<Rightarrow> (io_error + unit) \<times> connection \<times> 's" where
  "conn_body r sink cs =
     (case (rs_header r ''transfer-encoding'', rs_length r) of
        (te, len) \<Rightarrow>
          if (case te of Some te \<Rightarrow> eq_ignore_ascii_case te (lit ''chunked'') | None \<Rightarrow> False) then chunked sink cs
          else (case len of Some len \<Rightarrow> exact sink len cs | None \<Rightarrow> until_closed sink cs))"

section \<open>Requests\<close>

definition request_head :: "url \<Rightarrow> str \<Rightarrow> (str \<times> str) list \<Rightarrow> str" where
  "request_head u path headers =
     lit ''GET '' @ path @ lit '' HTTP/1.1'' @ [13, 10] @ lit ''Host: '' @ url_host u @ [13, 10] @
     lit ''User-Agent: tachyon/0.1.0'' @ [13, 10] @ lit ''Accept-Encoding: identity'' @ [13, 10] @
     concat (map (\<lambda>(k, v). k @ lit '': '' @ v @ [13, 10]) headers) @ [13, 10]"

definition drop_body :: "'s sink" where
  "drop_body bs s = (Inr (), s)"

definition no_body :: "nat \<Rightarrow> bool" where
  "no_body status \<longleftrightarrow> 100 \<le> status \<and> status \<le> 199 \<or> status = 204 \<or> status = 304"

definition says_close :: "response \<Rightarrow> bool" where
  "says_close r = (case rs_header r ''connection'' of Some v \<Rightarrow> eq_ignore_ascii_case v (lit ''close'') | None \<Rightarrow> False)"

definition conn_get :: "str \<Rightarrow> (str \<times> str) list \<Rightarrow> 's sink \<Rightarrow> connection \<Rightarrow> net \<Rightarrow> 's \<Rightarrow> (io_error + response) \<times> connection \<times> net \<times> 's" where
  "conn_get path headers sink c n s =
     (case write_all (to_utf8 (request_head (cn_url c) path headers)) c n of
        (Inl e, c, n) \<Rightarrow> (Inl e, c, n, s)
      | (Inr _, c, n) \<Rightarrow>
          (case conn_head c of
             (Inl e, c) \<Rightarrow> (Inl e, c, n, s)
           | (Inr r, c) \<Rightarrow>
               let c = c\<lparr>cn_closing := says_close r\<rparr> in
               if no_body (rs_status r) then (Inr r, c, n, s)
               else (case conn_body r (if is_redirect (rs_status r) then drop_body else sink) (c, s) of
                       (res, c, s) \<Rightarrow> (rmap (\<lambda>_. r) res, c, n, s))))"

definition may_carry :: "str \<Rightarrow> url \<Rightarrow> (str \<times> str) list \<Rightarrow> (str \<times> str) list" where
  "may_carry origin u headers = filter (\<lambda>(k, _). url_host u = origin \<or> \<not> eq_ignore_ascii_case k (lit ''authorization'')) headers"

text \<open>The connection for a URL: the one at hand if it serves it, otherwise a new one.\<close>

definition conn_for :: "url \<Rightarrow> connection option \<Rightarrow> net \<Rightarrow> (io_error + connection) \<times> net" where
  "conn_for u conn n = (case conn of Some c \<Rightarrow> if serves c u then (Inr c, n) else conn_open u n | None \<Rightarrow> conn_open u n)"

fun fetch_loop ::
  "nat \<Rightarrow> str \<Rightarrow> url \<Rightarrow> (str \<times> str) list \<Rightarrow> 's sink \<Rightarrow> connection option \<Rightarrow> net \<Rightarrow> 's \<Rightarrow>
     (io_error + (response \<times> url)) \<times> connection option \<times> net \<times> 's" where
  "fetch_loop 0 origin u headers sink conn n s = (Inl (invalid ''too many redirects''), conn, n, s)"
| "fetch_loop (Suc k) origin u headers sink conn n s =
     (case conn_for u conn n of
        (Inl e, n) \<Rightarrow> (Inl e, conn, n, s)
      | (Inr c, n) \<Rightarrow>
          (case conn_get (url_path u) (may_carry origin u headers) sink c n s of
             (Inl e, c, n, s) \<Rightarrow> (Inl e, Some c, n, s)
           | (Inr r, c, n, s) \<Rightarrow>
               if \<not> is_redirect (rs_status r) then (Inr (r, u), Some c, n, s)
               else (case Option.bind (rs_header r ''location'') (url_join u) of
                       None \<Rightarrow> (Inl (invalid ''a redirect without a usable Location''), Some c, n, s)
                     | Some u \<Rightarrow> fetch_loop k origin u headers sink (Some c) n s)))"

definition fetch ::
  "connection option \<Rightarrow> url \<Rightarrow> (str \<times> str) list \<Rightarrow> 's sink \<Rightarrow> net \<Rightarrow> 's \<Rightarrow>
     (io_error + (response \<times> url)) \<times> connection option \<times> net \<times> 's" where
  "fetch conn u headers sink n s = fetch_loop (MAX_REDIRECTS + 1) (url_host u) u headers sink conn n s"

definition collect :: "bytes sink" where
  "collect bs body = (Inr (), body @ bs)"

definition http_get :: "str \<Rightarrow> (str \<times> str) list \<Rightarrow> net \<Rightarrow> (io_error + bytes) \<times> net" where
  "http_get s headers n =
     (case url_parse s of
        None \<Rightarrow> (Inl (invalid ''not an http or https URL''), n)
      | Some u \<Rightarrow>
          (case fetch None u headers collect n [] of
             (Inl e, _, n, _) \<Rightarrow> (Inl e, n)
           | (Inr (r, _), _, n, body) \<Rightarrow>
               (if rs_status r = 200 then Inr body
                else Inl (Other (url_host u @ lit '' answered '' @ decimal (rs_status r) @ lit '' for '' @ url_path u)), n)))"

section \<open>Where the token goes\<close>

lemma write_all_log:
  assumes "write_all bs c n = (r, c', n')"
  shows "\<exists>sent. nt_log n' = nt_log n @ [(cn_url c, sent)] \<and> prefix sent bs" "nt_opens n' = nt_opens n" "cn_url c' = cn_url c"
  using assms by (auto simp: write_all_def take_is_prefix split: list.splits option.splits)

lemma conn_get_log:
  assumes "conn_get path headers sink c n s = (r, c', n', s')"
  shows "\<exists>sent. nt_log n' = nt_log n @ [(cn_url c, sent)] \<and> prefix sent (to_utf8 (request_head (cn_url c) path headers))"
proof -
  obtain q c1 n1 where w: "write_all (to_utf8 (request_head (cn_url c) path headers)) c n = (q, c1, n1)" by (metis prod_cases3)
  then have "n' = n1" using assms by (auto simp: conn_get_def Let_def split: sum.splits prod.splits if_splits)
  then show ?thesis using write_all_log(1) [OF w] by simp
qed

lemma conn_for_host:
  assumes "conn_for u conn n = (Inr c, n')"
  shows "url_host (cn_url c) = url_host u" "nt_log n' = nt_log n"
  using assms by (auto simp: conn_for_def conn_open_def serves_def rmap_Inr_iff split: option.splits if_splits list.splits prod.splits)

text \<open>What may be written to \<open>v\<close> on behalf of a fetch from the host \<open>origin\<close>.\<close>

definition request_to :: "str \<Rightarrow> (str \<times> str) list \<Rightarrow> url \<times> bytes \<Rightarrow> bool" where
  "request_to origin headers = (\<lambda>(v, bs).
     \<exists>path. prefix bs (to_utf8 (request_head v path
       (if url_host v = origin then headers else filter (\<lambda>(k, _). \<not> eq_ignore_ascii_case k (lit ''authorization'')) headers))))"

lemma fetch_loop_log:
  "fetch_loop k origin u headers sink conn n s = (r, conn', n', s') \<Longrightarrow>
     \<exists>sent. nt_log n' = nt_log n @ sent \<and> length sent \<le> k \<and> list_all (request_to origin headers) sent"
proof (induction k arbitrary: u conn n s)
  case (Suc k)
  obtain q n1 where f: "conn_for u conn n = (q, n1)" by (meson surj_pair)
  have log1: "nt_log n1 = nt_log n"
    using f by (auto simp: conn_for_def conn_open_def split: option.splits if_splits list.splits)
  show ?case
  proof (cases q)
    case (Inl e)
    then show ?thesis using Suc.prems f log1 by (intro exI [of _ "[]"]) simp
  next
    case (Inr c)
    obtain g c2 n2 s2 where g: "conn_get (url_path u) (may_carry origin u headers) sink c n1 s = (g, c2, n2, s2)" by (metis prod_cases4)
    have "may_carry origin u headers =
        (if url_host (cn_url c) = origin then headers else filter (\<lambda>(k, _). \<not> eq_ignore_ascii_case k (lit ''authorization'')) headers)"
      using conn_for_host(1) f Inr by (auto simp: may_carry_def)
    then obtain x where x: "nt_log n2 = nt_log n @ [x]" "request_to origin headers x"
      using conn_get_log [OF g] log1 by (auto simp: request_to_def)
    consider "n' = n2" | u' where "fetch_loop k origin u' headers sink (Some c2) n2 s2 = (r, conn', n', s')"
      using Suc.prems f Inr g by (auto split: sum.splits if_splits option.splits)
    then show ?thesis
    proof cases
      case 1
      then show ?thesis using x by (intro exI [of _ "[x]"]) simp
    next
      case 2
      from Suc.IH [OF this] x show ?thesis by (metis append.assoc append_Cons append_Nil length_Cons list.pred_inject(2) Suc_le_mono)
    qed
  qed
qed (auto intro: exI [of _ "[]"])


section \<open>Searching\<close>

lemma find_sub_skip: "x \<notin> set l \<Longrightarrow> find_sub (x # p) (l @ s) = map_option (\<lambda>i. i + length l) (find_sub (x # p) s)"
  by (induction l) (auto simp: option.map_comp comp_def option.map_ident)

lemma find_sub_here: "find_sub p (p @ s) = Some 0"
proof (cases "p @ s")
  case (Cons x xs)
  then have "take (length p) (x # xs) = p" by (metis append_eq_conv_conj)
  then show ?thesis using Cons by simp
qed simp

lemma find_sub_append: "find_sub p xs = Some i \<Longrightarrow> find_sub p (xs @ ys) = Some i"
proof (induction xs arbitrary: i)
  case Nil
  then show ?case by (cases ys) (auto split: if_splits)
next
  case (Cons x xs)
  show ?case
  proof (cases "take (length p) (x # xs) = p")
    case True
    then have "length p \<le> length (x # xs)" by (metis length_take min.cobounded1)
    then have "take (length p) (x # xs @ ys) = p" using True take_append [of "length p" "x # xs" ys] by simp
    then show ?thesis using True Cons.prems by simp
  next
    case False
    then obtain j where j: "find_sub p xs = Some j" "i = Suc j" using Cons.prems by auto
    have "take (length p) (x # xs @ ys) \<noteq> p"
      using False find_sub_bound [OF j(1)] take_append [of "length p" "x # xs" ys] by simp
    then show ?thesis using Cons.IH [OF j(1)] j(2) by simp
  qed
qed

lemma find_sub_before: "find_sub p (xs @ ys) = Some i \<Longrightarrow> i + length p \<le> length xs \<Longrightarrow> find_sub p xs = Some i"
proof (induction xs arbitrary: i)
  case Nil
  then show ?case by (cases ys) auto
next
  case (Cons x xs)
  have "take (length p) (x # xs @ ys) = take (length p) (x # xs)" if "i = 0 \<or> length p \<le> length xs"
    using that Cons.prems(2) take_append [of "length p" "x # xs" ys] by auto
  then show ?case using Cons by (auto split: if_splits)
qed

lemma find_sub_absent: "x \<notin> set l \<Longrightarrow> find_sub (x # p) l = None"
  using find_sub_skip [of x l p "[]"] by simp

lemma split_at_first_at: "c \<notin> set l \<Longrightarrow> split_at_first (c # p) (l @ (c # p) @ r) = Some (l, r)"
  unfolding split_at_first_def find_sub_skip [of c l] find_sub_here by simp

lemma split_str_absent: "c \<notin> set l \<Longrightarrow> split_str c p l = [l]"
  by (subst split_str.simps) (simp add: split_at_first_def find_sub_absent)

lemma split_str_at: "c \<notin> set l \<Longrightarrow> split_str c p (l @ (c # p) @ r) = l # split_str c p r"
  unfolding split_str.simps [of c p "l @ (c # p) @ r"] using split_at_first_at [of c l p r] by simp

section \<open>Reading in pieces\<close>

definition got :: "incoming \<Rightarrow> bytes" where
  "got i = (case i of Got bs \<Rightarrow> bs | Read_failed e \<Rightarrow> [])"

definition unread :: "connection \<Rightarrow> bytes" where
  "unread c = cn_buf c @ concat (map got (cn_reads c))"

text \<open>A connection on which no read fails, and none gives nothing before the end.\<close>

definition quiet :: "connection \<Rightarrow> bool" where
  "quiet c = list_all (\<lambda>i. case i of Got bs \<Rightarrow> bs \<noteq> [] | Read_failed e \<Rightarrow> False) (cn_reads c)"

lemma quiet_upd [simp]: "quiet (c\<lparr>cn_buf := b\<rparr>) = quiet c" "quiet (c\<lparr>cn_closing := x\<rparr>) = quiet c" "quiet (c\<lparr>cn_writes := w\<rparr>) = quiet c"
  by (simp_all add: quiet_def)

lemma unread_upd [simp]: "unread (c\<lparr>cn_closing := x\<rparr>) = unread c" "unread (c\<lparr>cn_writes := w\<rparr>) = unread c"
  by (simp_all add: unread_def)

lemma fill_quiet:
  assumes "quiet c"
  obtains n c' where "fill c = (Inr n, c')" "quiet c'" "unread c' = unread c" "n = 0 \<longleftrightarrow> unread c = cn_buf c"
    "cn_closing c' = cn_closing c" "prefix (cn_buf c) (cn_buf c')" "length (cn_buf c') = length (cn_buf c) + n"
proof (cases "cn_reads c")
  case Nil
  then show ?thesis using that [of 0 c] assms by (simp add: fill_def unread_def)
next
  case (Cons i rs)
  then obtain bs where bs: "i = Got bs" "bs \<noteq> []" using assms by (cases i) (auto simp: quiet_def)
  show ?thesis
  proof (cases "length bs \<le> MAX_HEAD")
    case True
    then show ?thesis using that assms Cons bs by (auto simp: fill_def unread_def quiet_def got_def)
  next
    case False
    then have "drop MAX_HEAD bs \<noteq> []" "0 < MAX_HEAD" by (simp_all add: MAX_HEAD_def)
    then show ?thesis using that assms Cons bs False by (auto simp: fill_def unread_def quiet_def got_def min_def)
  qed
qed

lemma until_found_quiet:
  assumes "quiet c" "find_sub pat (unread c) = Some i" "i + length pat \<le> MAX_HEAD"
  shows "\<exists>c'. until_found pat why c = (Inr i, c') \<and> quiet c' \<and> unread c' = unread c \<and> cn_closing c' = cn_closing c \<and> find_sub pat (cn_buf c') = Some i"
  using assms
proof (induction pat why c rule: until_found.induct)
  case (1 pat why c)
  show ?case
  proof (cases "find_sub pat (cn_buf c)")
    case (Some j)
    then have "j = i" using find_sub_append [OF Some] 1(3) by (simp add: unread_def)
    then show ?thesis using Some 1 by (subst until_found.simps) simp
  next
    case None
    have short: "length (cn_buf c) < i + length pat"
      using None find_sub_before [of pat "cn_buf c" _ i] 1(3) by (fastforce simp: unread_def)
    then have small: "\<not> MAX_HEAD < length (cn_buf c)" using 1(4) by simp
    obtain n c' where f: "fill c = (Inr n, c')" "quiet c'" "unread c' = unread c" "n = 0 \<longleftrightarrow> unread c = cn_buf c" "cn_closing c' = cn_closing c"
      using fill_quiet [OF 1(2)] by metis
    have "n \<noteq> 0" using f(4) find_sub_bound [OF 1(3)] short by auto
    moreover have "until_found pat why c = until_found pat why c'" using None small f(1) \<open>n \<noteq> 0\<close> by (subst until_found.simps) simp
    ultimately show ?thesis using 1(1) [OF None small f(1) [symmetric] refl] f 1 by simp
  qed
qed

lemma byte_eq: "a < 256 \<Longrightarrow> b < 256 \<Longrightarrow> byte a = byte b \<longleftrightarrow> a = b"
  by (metis unat_byte_small)

lemma utf8_ascii: "is_scalar c \<Longrightarrow> byte d \<in> set (encode_utf8 c) \<Longrightarrow> d < 128 \<Longrightarrow> c = d"
proof -
  assume c: "is_scalar c" and b: "byte d \<in> set (encode_utf8 c)" and d: "d < 128"
  have 2: "0xC0 + c div 64 < 256" if "c < 0x800" using that by simp
  have 3: "0xE0 + c div 4096 < 256" if "c < 0x10000" using that by simp
  have 4: "0xF0 + c div 262144 < 256" using c by (auto simp: is_scalar_def)
  have low: "0x80 + x mod 64 < 256" for x :: nat using mod_less_divisor [of 64 x] by linarith
  show "c = d" using b d by (auto simp: encode_utf8_def byte_eq 2 3 4 low split: if_splits)
qed

lemma utf8_no_cr: "str_ok l \<Longrightarrow> 13 \<notin> set l \<Longrightarrow> 13 \<notin> set (to_utf8 l)"
  using utf8_ascii [of _ 13] by (fastforce simp: to_utf8_def str_ok_def list_all_iff byte_def)

lemma unread_cut:
  assumes "unread c = x @ rest" "length x \<le> length (cn_buf c)"
  shows "take (length x) (cn_buf c) = x" "unread (c\<lparr>cn_buf := drop (length x) (cn_buf c)\<rparr>) = rest"
proof -
  have "take (length x) (unread c) = x" "drop (length x) (unread c) = rest" using assms(1) by simp_all
  then show "take (length x) (cn_buf c) = x" "unread (c\<lparr>cn_buf := drop (length x) (cn_buf c)\<rparr>) = rest"
    using assms(2) by (simp_all add: unread_def)
qed

lemma conn_line_quiet:
  assumes "quiet c" "unread c = to_utf8 l @ [13, 10] @ rest" "str_ok l" "13 \<notin> set l" "length (to_utf8 l) + 2 \<le> MAX_HEAD"
  obtains c' where "conn_line c = (Inr l, c')" "quiet c'" "unread c' = rest" "cn_closing c' = cn_closing c"
proof -
  let ?n = "length (to_utf8 l)"
  have "find_sub [13, 10] (unread c) = Some ?n"
    unfolding assms(2) find_sub_skip [OF utf8_no_cr [OF assms(3,4)]] by simp
  then obtain c' where c': "until_found [13, 10] ''a chunked body ended early'' c = (Inr ?n, c')" "quiet c'"
      "unread c' = unread c" "cn_closing c' = cn_closing c" "find_sub [13, 10] (cn_buf c') = Some ?n"
    using until_found_quiet [OF assms(1), of "[13, 10]"] assms(5) by auto
  have long: "?n + 2 \<le> length (cn_buf c')" using find_sub_bound [OF c'(5)] by simp
  then have "take ?n (cn_buf c') = to_utf8 l" using unread_cut(1) [of c' "to_utf8 l"] c'(3) assms(2) by simp
  moreover have "unread (c'\<lparr>cn_buf := drop (?n + 2) (cn_buf c')\<rparr>) = rest"
    using unread_cut(2) [of c' "to_utf8 l @ [13, 10]" rest] c'(3) assms(2) long by simp
  ultimately show ?thesis
    using that [of "c'\<lparr>cn_buf := drop (?n + 2) (cn_buf c')\<rparr>"] c' by (simp add: conn_line_def lossy_to_utf8 [OF assms(3)])
qed

section \<open>Bodies in pieces\<close>

text \<open>A sink that takes every piece, and for which it does not matter where a piece ends.\<close>

locale body_sink =
  fixes put :: "bytes \<Rightarrow> 's \<Rightarrow> 's" and sink :: "'s sink"
  assumes sink_put: "bs \<noteq> [] \<Longrightarrow> sink bs s = (Inr (), put bs s)"
    and put_Nil: "put [] s = s"
    and put_append: "put (a @ b) s = put b (put a s)"
begin

lemma exact_quiet:
  assumes "quiet c" "unread c = body @ rest"
  shows "\<exists>c'. exact sink (length body) (c, s) = (Inr (), c', put body s) \<and> quiet c' \<and> unread c' = rest \<and> cn_closing c' = cn_closing c"
  using assms
proof (induction "length body" arbitrary: body c s rule: less_induct)
  case less
  show ?case
  proof (cases "body = []")
    case True
    then show ?thesis using less.prems by (simp add: exact.simps put_Nil)
  next
    case False
    obtain c1 where c1: "has_more c = (Inr True, c1)" "quiet c1" "unread c1 = body @ rest" "cn_closing c1 = cn_closing c" "cn_buf c1 \<noteq> []"
    proof (cases "cn_buf c = []")
      case True
      obtain n c1 where "fill c = (Inr n, c1)" "quiet c1" "unread c1 = unread c" "n = 0 \<longleftrightarrow> unread c = cn_buf c"
          "cn_closing c1 = cn_closing c" "length (cn_buf c1) = length (cn_buf c) + n"
        using fill_quiet [OF less.prems(1)] by metis
      then show ?thesis using that [of c1] True False less.prems(2) by (auto simp: has_more_def)
    qed (use that [of c] less.prems in \<open>simp add: has_more_def\<close>)
    let ?n = "min (length (cn_buf c1)) (length body)"
    let ?c = "c1\<lparr>cn_buf := drop ?n (cn_buf c1)\<rparr>"
    have cut: "take ?n (cn_buf c1) = take ?n body" "unread ?c = drop ?n body @ rest"
      using unread_cut [of c1 "take ?n body" "drop ?n body @ rest"] c1(3) unfolding append_assoc [symmetric] by simp_all
    have "0 < ?n" using c1(5) False by simp
    then obtain c2 where "exact sink (length (drop ?n body)) (?c, put (take ?n body) s) = (Inr (), c2, put (drop ?n body) (put (take ?n body) s))"
        "quiet c2" "unread c2 = rest" "cn_closing c2 = cn_closing ?c"
      using less.hyps [of "drop ?n body" ?c "put (take ?n body) s"] c1(2) cut(2) False by auto
    moreover have "put (drop ?n body) (put (take ?n body) s) = put body s" by (simp flip: put_append)
    ultimately show ?thesis using False c1 cut(1) by (subst exact.simps) (simp add: sink_put)
  qed
qed

lemma until_closed_quiet:
  assumes "quiet c"
  shows "\<exists>c'. until_closed sink (c, s) = (Inr (), c', put (unread c) s) \<and> quiet c' \<and> unread c' = [] \<and> cn_closing c'"
  using assms
proof (induction "pending c" arbitrary: c s rule: less_induct)
  case less
  let ?c = "c\<lparr>cn_closing := True, cn_buf := []\<rparr>"
  obtain n c1 where f: "fill ?c = (Inr n, c1)" "quiet c1" "unread c1 = unread ?c" "n = 0 \<longleftrightarrow> unread ?c = []" "cn_closing c1" "length (cn_buf c1) = n"
    using fill_quiet [of ?c] less.prems by auto
  have u: "unread c = cn_buf c @ unread ?c" by (simp add: unread_def)
  have s: "(if cn_buf c \<noteq> [] then sink (cn_buf c) s else (Inr (), s)) = (Inr (), put (cn_buf c) s)" by (simp add: sink_put put_Nil)
  show ?case
  proof (cases "n = 0")
    case True
    then have "unread ?c = []" "unread c1 = []" using f by simp_all
    then show ?thesis using True f s u by (subst until_closed.simps) simp
  next
    case False
    then have "pending c1 < pending c" using fill_progress(2) [OF f(1)] by (simp add: pending_def)
    from less.hyps [OF this f(2), of "put (cn_buf c) s"] show ?thesis
      using f s u False by (subst until_closed.simps) (auto simp: put_append)
  qed
qed

end

text \<open>A number in hexadecimal.\<close>

definition hex_char :: "nat \<Rightarrow> scalar" where
  "hex_char d = (if d < 10 then 48 + d else 87 + d)"

fun hexadecimal :: "nat \<Rightarrow> str" where
  "hexadecimal n = (if n < 16 then [hex_char n] else hexadecimal (n div 16) @ [hex_char (n mod 16)])"

declare hexadecimal.simps [simp del]

lemma hex_digit_char: "d < 16 \<Longrightarrow> hex_digit (hex_char d) = Some d"
  by (auto simp: hex_digit_def hex_char_def)

lemma hexadecimal_chars: "set (hexadecimal n) \<subseteq> {48..57} \<union> {97..102}"
proof (induction n rule: hexadecimal.induct)
  case (1 n)
  then show ?case by (subst hexadecimal.simps) (auto simp: hex_char_def)
qed

lemma hex_value_append: "hex_value_of v (a @ b) = Option.bind (hex_value_of v a) (\<lambda>w. hex_value_of w b)"
  by (induction a arbitrary: v) (auto split: Option.bind_splits)

lemma hex_value_hexadecimal: "n < 2 ^ 64 \<Longrightarrow> hex_value_of 0 (hexadecimal n) = Some n"
proof (induction n rule: hexadecimal.induct)
  case (1 n)
  then show ?case by (subst hexadecimal.simps) (auto simp: hex_digit_char hex_value_append)
qed

lemma hexadecimal_not_Nil [simp]: "hexadecimal n \<noteq> []"
  by (subst hexadecimal.simps) simp

lemma parse_hex_hexadecimal: "n < 2 ^ 64 \<Longrightarrow> parse_hex (hexadecimal n) = Some n"
proof -
  assume n: "n < 2 ^ 64"
  obtain c cs where "hexadecimal n = c # cs" by (cases "hexadecimal n") auto
  then have "(case hexadecimal n of c # cs \<Rightarrow> if c = 43 then cs else hexadecimal n | [] \<Rightarrow> hexadecimal n) = hexadecimal n"
    using hexadecimal_chars [of n] by auto
  then show ?thesis using hex_value_hexadecimal [OF n] by (simp add: parse_hex_def)
qed

lemma hexadecimal_plain:
  "str_ok (hexadecimal n)" "13 \<notin> set (hexadecimal n)" "59 \<notin> set (hexadecimal n)" "trim (hexadecimal n) = hexadecimal n"
proof -
  have plain: "c \<in> set (hexadecimal n) \<Longrightarrow> is_scalar c \<and> c \<noteq> 13 \<and> c \<noteq> 59 \<and> \<not> is_whitespace c" for c
    using hexadecimal_chars [of n] by (auto simp: is_scalar_def is_whitespace_def)
  then show "str_ok (hexadecimal n)" "13 \<notin> set (hexadecimal n)" "59 \<notin> set (hexadecimal n)" by (auto simp: str_ok_def list_all_iff)
  have "dropWhile is_whitespace xs = xs" if "set xs \<subseteq> set (hexadecimal n)" for xs using that plain by (cases xs) auto
  then show "trim (hexadecimal n) = hexadecimal n" by (simp add: trim_def)
qed

text \<open>A chunk: its length, an extension if there is one, and its bytes; a chunked body, with its trailers.\<close>

definition line_ok :: "str \<Rightarrow> bool" where
  "line_ok l \<longleftrightarrow> str_ok l \<and> 13 \<notin> set l \<and> length (to_utf8 l) + 2 \<le> MAX_HEAD"

definition chunk_line :: "str \<times> bytes \<Rightarrow> str" where
  "chunk_line = (\<lambda>(ext, bs). hexadecimal (length bs) @ ext)"

definition chunk_ok :: "str \<times> bytes \<Rightarrow> bool" where
  "chunk_ok = (\<lambda>(ext, bs). (ext = [] \<or> hd ext = 59) \<and> line_ok (chunk_line (ext, bs)) \<and> bs \<noteq> [] \<and> length bs < 2 ^ 64)"

definition chunk_wire :: "str \<times> bytes \<Rightarrow> bytes" where
  "chunk_wire x = to_utf8 (chunk_line x) @ [13, 10] @ snd x @ [13, 10]"

definition chunks_wire :: "(str \<times> bytes) list \<Rightarrow> str list \<Rightarrow> bytes" where
  "chunks_wire xs ts = concat (map chunk_wire xs) @ [48, 13, 10] @ concat (map (\<lambda>t. to_utf8 t @ [13, 10]) ts) @ [13, 10]"

lemma chunk_size_read:
  assumes "ext = [] \<or> hd ext = 59" "n < 2 ^ 64"
  shows "parse_hex (trim (hd (split_str 59 [] (hexadecimal n @ ext)))) = Some n"
proof -
  have "hd (split_str 59 [] (hexadecimal n @ ext)) = hexadecimal n"
    using assms(1) split_str_absent [of 59 "hexadecimal n"] split_str_at [of 59 "hexadecimal n" "[]"] hexadecimal_plain(3) [of n]
    by (cases ext) auto
  then show ?thesis by (simp only: hexadecimal_plain(4) parse_hex_hexadecimal [OF assms(2)])
qed

lemma trailers_quiet:
  assumes "quiet c" "unread c = concat (map (\<lambda>t. to_utf8 t @ [13, 10]) ts) @ [13, 10] @ rest" "list_all (\<lambda>t. t \<noteq> [] \<and> line_ok t) ts"
  shows "\<exists>c'. trailers c = (Inr (), c') \<and> quiet c' \<and> unread c' = rest \<and> cn_closing c' = cn_closing c"
  using assms
proof (induction ts arbitrary: c)
  case Nil
  obtain c' where "conn_line c = (Inr [], c')" "quiet c'" "unread c' = rest" "cn_closing c' = cn_closing c"
    using conn_line_quiet [of c "[]" rest] Nil by (auto simp: MAX_HEAD_def)
  then show ?case by (subst trailers.simps) simp
next
  case (Cons t ts)
  obtain c1 where c1: "conn_line c = (Inr t, c1)" "quiet c1" "unread c1 = concat (map (\<lambda>t. to_utf8 t @ [13, 10]) ts) @ [13, 10] @ rest" "cn_closing c1 = cn_closing c"
    using conn_line_quiet [of c t] Cons.prems by (auto simp: line_ok_def)
  show ?case using Cons.IH [OF c1(2,3)] Cons.prems(3) c1(1,4) by (subst trailers.simps) simp
qed

context body_sink
begin

lemma chunked_quiet:
  assumes "quiet c" "unread c = chunks_wire xs ts @ rest" "list_all chunk_ok xs" "list_all (\<lambda>t. t \<noteq> [] \<and> line_ok t) ts"
  shows "\<exists>c'. chunked sink (c, s) = (Inr (), c', put (concat (map snd xs)) s) \<and> quiet c' \<and> unread c' = rest \<and> cn_closing c' = cn_closing c"
  using assms
proof (induction xs arbitrary: c s)
  case Nil
  have "to_utf8 (hexadecimal 0) = [48]" by (simp add: hexadecimal.simps hex_char_def encode_utf8_def byte_def)
  then obtain c1 where c1: "conn_line c = (Inr (hexadecimal 0), c1)" "quiet c1"
      "unread c1 = concat (map (\<lambda>t. to_utf8 t @ [13, 10]) ts) @ [13, 10] @ rest" "cn_closing c1 = cn_closing c"
    using conn_line_quiet [of c "hexadecimal 0"] Nil hexadecimal_plain [of 0] by (auto simp: chunks_wire_def MAX_HEAD_def)
  from trailers_quiet [OF c1(2,3) Nil(4)] show ?case
    using c1(1,4) chunk_size_read [of "[]" 0] by (subst chunked.simps) (auto simp: put_Nil)
next
  case (Cons x xs)
  obtain ext bs where x: "x = (ext, bs)" by (meson surj_pair)
  have ok: "ext = [] \<or> hd ext = 59" "line_ok (chunk_line x)" "bs \<noteq> []" "length bs < 2 ^ 64" "list_all chunk_ok xs"
    using Cons.prems(3) x by (auto simp: chunk_ok_def)
  obtain c1 where c1: "conn_line c = (Inr (chunk_line x), c1)" "quiet c1" "unread c1 = bs @ [13, 10] @ chunks_wire xs ts @ rest" "cn_closing c1 = cn_closing c"
    using conn_line_quiet [of c "chunk_line x"] Cons.prems(1,2) ok(2) x by (auto simp: chunks_wire_def chunk_wire_def line_ok_def)
  obtain c2 where c2: "exact sink (length bs) (c1, s) = (Inr (), c2, put bs s)" "quiet c2" "unread c2 = [13, 10] @ chunks_wire xs ts @ rest" "cn_closing c2 = cn_closing c"
    using exact_quiet [OF c1(2,3)] c1(4) by metis
  obtain c3 where c3: "conn_line c2 = (Inr [], c3)" "quiet c3" "unread c3 = chunks_wire xs ts @ rest" "cn_closing c3 = cn_closing c"
    using conn_line_quiet [of c2 "[]"] c2 by (auto simp: MAX_HEAD_def)
  have "chunked sink (c, s) = chunked sink (c3, put bs s)"
    using c1(1) c2(1) c3(1) chunk_size_read [OF ok(1,4)] ok(3) x by (subst chunked.simps) (simp add: chunk_line_def)
  then show ?case using Cons.IH [OF c3(2,3) ok(5) Cons.prems(4), of "put bs s"] c3(4) x by (simp add: put_append)
qed

end

section \<open>Messages\<close>

text \<open>A response as a server writes it.\<close>

definition status_line :: "nat \<Rightarrow> str \<Rightarrow> str" where
  "status_line status reason = lit ''HTTP/1.1 '' @ decimal status @ 32 # reason"

definition header_line :: "str \<times> str \<Rightarrow> str" where
  "header_line = (\<lambda>(k, v). k @ 58 # v)"

definition head_lines :: "nat \<Rightarrow> str \<Rightarrow> (str \<times> str) list \<Rightarrow> str list" where
  "head_lines status reason headers = status_line status reason # map header_line headers"

definition head_wire :: "nat \<Rightarrow> str \<Rightarrow> (str \<times> str) list \<Rightarrow> bytes" where
  "head_wire status reason headers = concat (map (\<lambda>l. to_utf8 l @ [13, 10]) (head_lines status reason headers)) @ [13, 10]"

definition head_ok :: "nat \<Rightarrow> str \<Rightarrow> (str \<times> str) list \<Rightarrow> bool" where
  "head_ok status reason headers \<longleftrightarrow>
     status < 2 ^ 16 \<and> str_ok reason \<and> 13 \<notin> set reason \<and>
     list_all (\<lambda>(k, v). str_ok k \<and> str_ok v \<and> 13 \<notin> set k \<and> 58 \<notin> set k \<and> 13 \<notin> set v) headers \<and>
     length (head_wire status reason headers) \<le> MAX_HEAD"

definition response_of :: "nat \<Rightarrow> (str \<times> str) list \<Rightarrow> response" where
  "response_of status headers = \<lparr>rs_status = status, rs_headers = map (\<lambda>(k, v). (map ascii_lower (trim k), trim v)) headers\<rparr>"

lemma decimal_chars: "set (decimal n) \<subseteq> {48..57}"
proof (induction n rule: decimal.induct)
  case (1 n)
  then show ?case by (subst decimal.simps) auto
qed

lemma decimal_not_Nil [simp]: "decimal n \<noteq> []"
  by (subst decimal.simps) simp

lemma digits_value_append: "digits_value v (a @ b) = Option.bind (digits_value v a) (\<lambda>w. digits_value w b)"
  by (induction a arbitrary: v) auto

lemma digits_value_decimal: "n < 2 ^ 64 \<Longrightarrow> digits_value 0 (decimal n) = Some n"
proof (induction n rule: decimal.induct)
  case (1 n)
  then show ?case by (subst decimal.simps) (auto simp: digits_value_append)
qed

lemma parse_decimal: "n < 2 ^ 64 \<Longrightarrow> parse_usize (decimal n) = Some n"
proof -
  assume n: "n < 2 ^ 64"
  obtain c cs where "decimal n = c # cs" by (cases "decimal n") auto
  then have "(case decimal n of c # cs \<Rightarrow> if c = 43 then cs else decimal n | [] \<Rightarrow> decimal n) = decimal n"
    using decimal_chars [of n] by auto
  then show ?thesis using digits_value_decimal [OF n] by (simp add: parse_usize_def)
qed

text \<open>Lines joined by CRLF: their split, and the first empty line after them.\<close>

definition joined :: "str list \<Rightarrow> str" where
  "joined ls = concat (map (\<lambda>l. l @ [13, 10]) (butlast ls)) @ last ls"

lemma split_joined: "ls \<noteq> [] \<Longrightarrow> list_all (\<lambda>l. 13 \<notin> set l) ls \<Longrightarrow> split_str 13 [10] (joined ls) = ls"
proof (induction ls)
  case (Cons l ls)
  then show ?case
    using split_str_absent [of 13 l] split_str_at [of 13 l "[10]" "joined ls"] by (cases "ls = []") (simp_all add: joined_def)
qed simp

lemma joined_utf8: "ls \<noteq> [] \<Longrightarrow> concat (map (\<lambda>l. to_utf8 l @ [13, 10]) ls) = to_utf8 (joined ls) @ [13, 10]"
proof (induction ls)
  case (Cons l ls)
  have "to_utf8 [13, 10] = [13, 10]" by (simp add: encode_utf8_def byte_def)
  then show ?case using Cons by (cases "ls = []") (simp_all add: joined_def)
qed simp

lemma head_end:
  "ls \<noteq> [] \<Longrightarrow> list_all (\<lambda>l. l \<noteq> [] \<and> str_ok l \<and> 13 \<notin> set l) ls \<Longrightarrow>
     find_sub [13, 10, 13, 10] (concat (map (\<lambda>l. to_utf8 l @ [13, 10]) ls) @ [13, 10] @ rest) = Some (length (to_utf8 (joined ls)))"
proof (induction ls)
  case (Cons l ls)
  have no: "13 \<notin> set (to_utf8 l)" using Cons.prems by (intro utf8_no_cr) simp_all
  show ?case
  proof (cases "ls = []")
    case True
    then show ?thesis using find_sub_skip [OF no, of "[10, 13, 10]" "[13, 10, 13, 10] @ rest"] by (simp add: joined_def)
  next
    case False
    let ?more = "concat (map (\<lambda>l. to_utf8 l @ [13, 10]) ls) @ [13, 10] @ rest"
    obtain l1 ls1 where "ls = l1 # ls1" using False by (cases ls) auto
    moreover have "13 \<notin> set (to_utf8 l1)" using calculation Cons.prems(2) by (intro utf8_no_cr) simp_all
    moreover have "to_utf8 l1 \<noteq> []" using calculation(1) Cons.prems(2) by (cases l1) simp_all
    ultimately obtain b bs where b: "?more = b # bs" "b \<noteq> 13" by (cases "to_utf8 l1") auto
    have "find_sub [13, 10, 13, 10] ([13, 10] @ ?more) = map_option (\<lambda>i. i + 2) (find_sub [13, 10, 13, 10] ?more)"
      using b by (simp add: option.map_comp comp_def)
    moreover have "length (to_utf8 (joined (l # ls))) = length (to_utf8 l) + 2 + length (to_utf8 (joined ls))"
      using False by (simp add: joined_def encode_utf8_def)
    ultimately show ?thesis using find_sub_skip [OF no, of "[10, 13, 10]" "[13, 10] @ ?more"] Cons False by simp
  qed
qed simp

lemma status_line_ok:
  assumes "str_ok reason" "13 \<notin> set reason"
  shows "status_line status reason \<noteq> []" "str_ok (status_line status reason)" "13 \<notin> set (status_line status reason)"
proof -
  show "status_line status reason \<noteq> []" by (simp add: status_line_def)
  have "c \<in> set (decimal status) \<Longrightarrow> is_scalar c \<and> c \<noteq> 13" for c using decimal_chars [of status] by (auto simp: is_scalar_def)
  moreover have "str_ok (lit ''HTTP/1.1 '')" "13 \<notin> set (lit ''HTTP/1.1 '')" by (simp_all add: lit_def is_scalar_def)
  ultimately show "str_ok (status_line status reason)" "13 \<notin> set (status_line status reason)"
    using assms by (auto simp: status_line_def str_ok_def list_all_iff is_scalar_def)
qed

lemma head_lines_ok:
  assumes "head_ok status reason headers"
  shows "list_all (\<lambda>l. l \<noteq> [] \<and> str_ok l \<and> 13 \<notin> set l) (head_lines status reason headers)"
  using assms status_line_ok [of reason status]
  by (auto simp: head_ok_def head_lines_def header_line_def list_all_iff is_scalar_def)

lemma status_read:
  assumes "status < 2 ^ 16"
  shows "Option.bind (let ws = split_str 32 [] (status_line status reason) in if 1 < length ws then Some (ws ! 1) else None) parse_u16 = Some status"
proof -
  have "status_line status reason = lit ''HTTP/1.1'' @ [32] @ decimal status @ [32] @ reason" by (simp add: status_line_def lit_def)
  moreover have "32 \<notin> set (lit ''HTTP/1.1'')" "32 \<notin> set (decimal status)" using decimal_chars [of status] by (auto simp: lit_def)
  ultimately have "split_str 32 [] (status_line status reason) = lit ''HTTP/1.1'' # decimal status # split_str 32 [] reason"
    using split_str_at [of 32 "lit ''HTTP/1.1''" "[]"] split_str_at [of 32 "decimal status" "[]"] by simp
  then show ?thesis using assms by (simp add: parse_u16_def parse_decimal)
qed

lemma headers_read:
  "list_all (\<lambda>(k, v). 58 \<notin> set k) headers \<Longrightarrow> List.map_filter (split_at_first [58]) (map header_line headers) = headers"
proof (induction headers)
  case (Cons x headers)
  then show ?case using split_at_first_at [of 58 "fst x" "[]" "snd x"] by (cases x) (simp add: header_line_def List.map_filter_simps)
qed (simp add: List.map_filter_simps)

lemma parse_head_read:
  assumes "head_ok status reason headers"
  shows "parse_head (joined (head_lines status reason headers)) = Inr (response_of status headers)"
proof -
  have "split_str 13 [10] (joined (head_lines status reason headers)) = head_lines status reason headers"
    using head_lines_ok [OF assms] by (intro split_joined) (auto simp: head_lines_def list_all_iff)
  moreover have "List.map_filter (split_at_first [58]) (map header_line headers) = headers"
    using assms by (intro headers_read) (auto simp: head_ok_def list_all_iff)
  ultimately show ?thesis using status_read [of status reason] assms
    by (auto simp: parse_head_def head_lines_def Let_def response_of_def head_ok_def split: if_splits)
qed

lemma conn_head_quiet:
  assumes "quiet c" "unread c = head_wire status reason headers @ rest" "head_ok status reason headers"
  obtains c' where "conn_head c = (Inr (response_of status headers), c')" "quiet c'" "unread c' = rest"
proof -
  let ?ls = "head_lines status reason headers"
  let ?h = "to_utf8 (joined ?ls)"
  have ne: "?ls \<noteq> []" by (simp add: head_lines_def)
  have wire: "head_wire status reason headers = ?h @ [13, 10, 13, 10]" by (simp add: head_wire_def joined_utf8 [OF ne])
  have "find_sub [13, 10, 13, 10] (unread c) = Some (length ?h)"
    using head_end [OF ne head_lines_ok [OF assms(3)], of rest] assms(2) by (simp add: head_wire_def)
  moreover have "length ?h + 4 \<le> MAX_HEAD" using assms(3) wire by (simp add: head_ok_def)
  ultimately obtain c' where c': "until_found [13, 10, 13, 10] ''the server sent no complete response head'' c = (Inr (length ?h), c')" "quiet c'"
      "unread c' = unread c" "find_sub [13, 10, 13, 10] (cn_buf c') = Some (length ?h)"
    using until_found_quiet [OF assms(1), of "[13, 10, 13, 10]"] by auto
  have long: "length ?h + 4 \<le> length (cn_buf c')" using find_sub_bound [OF c'(4)] by simp
  then have "take (length ?h) (cn_buf c') = ?h" using unread_cut(1) [of c' ?h] c'(3) assms(2) wire by simp
  moreover have "unread (c'\<lparr>cn_buf := drop (length ?h + 4) (cn_buf c')\<rparr>) = rest"
    using unread_cut(2) [of c' "?h @ [13, 10, 13, 10]" rest] c'(3) assms(2) wire long by (simp add: eval_nat_numeral)
  moreover have "str_ok (joined ?ls)"
  proof -
    have "list_all str_ok ?ls" using head_lines_ok [OF assms(3)] by (simp add: list_all_iff)
    then show ?thesis using ne by (auto simp: joined_def str_ok_def list_all_iff is_scalar_def dest: in_set_butlastD)
  qed
  ultimately show ?thesis
    using that [of "c'\<lparr>cn_buf := drop (length ?h + 4) (cn_buf c')\<rparr>"] c' parse_head_read [OF assms(3)] by (simp add: conn_head_def lossy_to_utf8)
qed

text \<open>How a response's body ends, and the body on the wire: none, in chunks, of the length announced, or all there is.\<close>

datatype ending = No_body | Chunks | Sized nat | To_end

definition ending_of :: "response \<Rightarrow> ending" where
  "ending_of r =
     (if no_body (rs_status r) then No_body
      else if \<exists>te. rs_header r ''transfer-encoding'' = Some te \<and> eq_ignore_ascii_case te (lit ''chunked'') then Chunks
      else case rs_length r of Some n \<Rightarrow> Sized n | None \<Rightarrow> To_end)"

definition body_wire :: "response \<Rightarrow> bytes \<Rightarrow> bytes \<Rightarrow> bytes \<Rightarrow> bool" where
  "body_wire r wire body rest =
     (case ending_of r of
        No_body \<Rightarrow> wire = [] \<and> body = []
      | Chunks \<Rightarrow> \<exists>xs ts. list_all chunk_ok xs \<and> list_all (\<lambda>t. t \<noteq> [] \<and> line_ok t) ts \<and> wire = chunks_wire xs ts \<and> body = concat (map snd xs)
      | Sized n \<Rightarrow> wire = body \<and> length body = n
      | To_end \<Rightarrow> wire = body \<and> rest = [])"

interpretation dropped: body_sink "\<lambda>_ s. s" drop_body
  by unfold_locales (simp_all add: drop_body_def)

interpretation collected: body_sink "\<lambda>bs body. body @ bs" collect
  by unfold_locales (simp_all add: collect_def)

context body_sink
begin

lemma conn_body_quiet:
  assumes "quiet c" "unread c = wire @ rest" "body_wire r wire body rest" "\<not> no_body (rs_status r)"
  shows "\<exists>c'. conn_body r sink (c, s) = (Inr (), c', put body s) \<and> quiet c' \<and> unread c' = rest \<and>
    cn_closing c' = (cn_closing c \<or> ending_of r = To_end)"
proof (cases "ending_of r")
  case Chunks
  then have b: "conn_body r sink (c, s) = chunked sink (c, s)"
    using assms(4) by (auto simp: conn_body_def ending_of_def split: if_splits option.splits)
  obtain xs ts where "list_all chunk_ok xs" "list_all (\<lambda>t. t \<noteq> [] \<and> line_ok t) ts" "wire = chunks_wire xs ts" "body = concat (map snd xs)"
    using assms(3) Chunks by (auto simp: body_wire_def)
  then show ?thesis unfolding b using chunked_quiet [OF assms(1), of xs ts rest s] assms(2) Chunks by auto
next
  case (Sized n)
  then have b: "conn_body r sink (c, s) = exact sink n (c, s)"
    using assms(4) by (auto simp: conn_body_def ending_of_def split: if_splits option.splits)
  have "wire = body" "length body = n" using assms(3) Sized by (auto simp: body_wire_def)
  then show ?thesis unfolding b using exact_quiet [OF assms(1), of body rest s] assms(2) Sized by auto
next
  case To_end
  then have b: "conn_body r sink (c, s) = until_closed sink (c, s)"
    using assms(4) by (auto simp: conn_body_def ending_of_def split: if_splits option.splits)
  have "wire = body" "rest = []" using assms(3) To_end by (auto simp: body_wire_def)
  then show ?thesis unfolding b using until_closed_quiet [OF assms(1), of s] assms(2) To_end by auto
qed (use assms(4) in \<open>auto simp: ending_of_def split: if_splits option.splits\<close>)

lemma conn_get_quiet:
  assumes c: "quiet c" "unread c = head_wire status reason headers @ wire @ rest" "cn_writes c = []"
    and ok: "head_ok status reason headers" "body_wire r wire body rest" and r: "r = response_of status headers"
  shows "\<exists>c'. conn_get path asked sink c n s =
      (Inr r, c', n\<lparr>nt_log := nt_log n @ [(cn_url c, to_utf8 (request_head (cn_url c) path asked))]\<rparr>, if is_redirect status then s else put body s) \<and>
    quiet c' \<and> unread c' = rest \<and> cn_closing c' = (says_close r \<or> ending_of r = To_end)"
proof -
  have w: "write_all (to_utf8 (request_head (cn_url c) path asked)) c n =
      (Inr (), c, n\<lparr>nt_log := nt_log n @ [(cn_url c, to_utf8 (request_head (cn_url c) path asked))]\<rparr>)"
    using c(3) by (simp add: write_all_def)
  obtain c1 where h: "conn_head c = (Inr r, c1)" "quiet c1" "unread c1 = wire @ rest"
    using conn_head_quiet [OF c(1,2) ok(1)] r by metis
  let ?c = "c1\<lparr>cn_closing := says_close r\<rparr>"
  have st: "rs_status r = status" by (simp add: r response_of_def)
  show ?thesis
  proof (cases "no_body status")
    case True
    then have "wire = []" "body = []" "ending_of r = No_body" "\<not> is_redirect status"
      using ok(2) st by (auto simp: body_wire_def ending_of_def is_redirect_def no_body_def)
    then show ?thesis using w h True st by (simp add: conn_get_def put_Nil)
  next
    case False
    have b: "\<exists>c'. conn_body r (if is_redirect status then drop_body else sink) (?c, s) = (Inr (), c', if is_redirect status then s else put body s) \<and>
        quiet c' \<and> unread c' = rest \<and> cn_closing c' = (says_close r \<or> ending_of r = To_end)"
      using conn_body_quiet [of ?c wire rest r body s] dropped.conn_body_quiet [of ?c wire rest r body s] h(2,3) ok(2) False st by auto
    then show ?thesis using w h False st by (auto simp: conn_get_def)
  qed
qed

end

text \<open>C11. A \<open>GET\<close> writes one request, and the response is read as it was sent, in whatever pieces it arrives: its status, its headers (names in lower case, values
  trimmed), and its body, whether it comes in chunks with extensions and trailers, by its length, or up to the end of the connection; the
  bytes after it stay for the next response, and the connection is given up exactly if the server says so or the body ran to its end.
  The body of a redirect is dropped.\<close>

theorem get_reads_response:
  assumes "quiet c" "unread c = head_wire status reason headers @ wire @ rest" "cn_writes c = []"
    and "head_ok status reason headers" "body_wire (response_of status headers) wire body rest"
  shows "\<exists>c'. conn_get path asked collect c n got_before =
      (Inr (response_of status headers), c', n\<lparr>nt_log := nt_log n @ [(cn_url c, to_utf8 (request_head (cn_url c) path asked))]\<rparr>,
       if is_redirect status then got_before else got_before @ body) \<and>
    quiet c' \<and> unread c' = rest \<and>
    (cn_closing c' \<longleftrightarrow> says_close (response_of status headers) \<or> ending_of (response_of status headers) = To_end)"
  using collected.conn_get_quiet [OF assms refl] by (simp split: if_splits)

definition sample_url :: url where
  "sample_url = \<lparr>url_https = True, url_host = lit ''hub'', url_port = 443, url_path = lit ''/a''\<rparr>"

definition sample_headers :: "(str \<times> str) list" where
  "sample_headers = [(lit ''Transfer-Encoding'', lit '' chunked'')]"

definition sample_chunks :: "(str \<times> bytes) list" where
  "sample_chunks = [([], [97, 98, 99]), (lit '';x=1'', [100, 101])]"

definition sample_message :: bytes where
  "sample_message = head_wire 200 (lit ''OK'') sample_headers @ chunks_wire sample_chunks []"

definition sample_conn :: connection where
  "sample_conn = \<lparr>cn_url = sample_url, cn_reads = [Got (drop 30 sample_message)], cn_writes = [],
     cn_buf = take 30 sample_message, cn_closing = False\<rparr>"

lemma sample_head_ok: "head_ok 200 (lit ''OK'') sample_headers"
  by (simp add: head_ok_def sample_headers_def head_wire_def head_lines_def status_line_def header_line_def lit_def decimal.simps encode_utf8_def
      is_scalar_def MAX_HEAD_def)

lemma sample_chunks_ok: "list_all chunk_ok sample_chunks"
  by (simp add: sample_chunks_def chunk_ok_def line_ok_def chunk_line_def lit_def hexadecimal.simps hex_char_def encode_utf8_def is_scalar_def MAX_HEAD_def)

theorem get_reads_response_witness:
  "\<exists>c' n'. conn_get (lit ''/a'') [] collect sample_conn \<lparr>nt_opens = [], nt_log = []\<rparr> [] =
     (Inr (response_of 200 sample_headers), c', n', [97, 98, 99, 100, 101]) \<and> unread c' = [] \<and> \<not> cn_closing c'"
proof -
  let ?r = "response_of 200 sample_headers"
  have "drop 30 sample_message \<noteq> []"
    by (simp add: sample_message_def head_wire_def head_lines_def status_line_def header_line_def sample_headers_def lit_def decimal.simps encode_utf8_def
        chunks_wire_def)
  then have quiet: "quiet sample_conn" by (simp add: quiet_def sample_conn_def)
  have unread: "unread sample_conn = head_wire 200 (lit ''OK'') sample_headers @ chunks_wire sample_chunks [] @ []"
    using append_take_drop_id [of 30 sample_message] by (simp add: unread_def sample_conn_def got_def sample_message_def)
  have te: "rs_header ?r ''transfer-encoding'' = Some (lit ''chunked'')" by code_simp
  then have fin: "ending_of ?r = Chunks" by (auto simp: ending_of_def response_of_def no_body_def eq_ignore_ascii_case_def)
  have "concat (map snd sample_chunks) = [97, 98, 99, 100, 101]" by (simp add: sample_chunks_def)
  then have "body_wire ?r (chunks_wire sample_chunks []) [97, 98, 99, 100, 101] []"
    unfolding body_wire_def fin ending.case using sample_chunks_ok by (intro exI [of _ sample_chunks] exI [of _ "[]"]) simp
  moreover have "\<not> says_close ?r" by code_simp
  ultimately show ?thesis
    using get_reads_response [OF quiet unread _ sample_head_ok, of "[97, 98, 99, 100, 101]" "lit ''/a''" "[]" "\<lparr>nt_opens = [], nt_log = []\<rparr>" "[]"] fin
    by (simp add: sample_conn_def is_redirect_def) blast
qed

text \<open>A redirect from the Hub to another host, as \<open>fetch\<close> follows it.\<close>

definition moved_headers :: "(str \<times> str) list" where
  "moved_headers = [(lit ''Location'', lit ''http://cdn/f''), (lit ''Content-Length'', lit ''0''), (lit ''Connection'', lit ''close'')]"

definition sized_headers :: "(str \<times> str) list" where
  "sized_headers = [(lit ''Content-Length'', lit ''2'')]"

definition sample_net :: net where
  "sample_net = \<lparr>nt_opens = [Inr ([Got (head_wire 302 (lit ''Found'') moved_headers)], []),
     Inr ([Got (head_wire 200 (lit ''OK'') sized_headers @ [104, 105])], [])], nt_log = []\<rparr>"

definition cdn_url :: url where
  "cdn_url = \<lparr>url_https = False, url_host = lit ''cdn'', url_port = 80, url_path = lit ''/f''\<rparr>"

definition fresh_conn :: "url \<Rightarrow> bytes \<Rightarrow> connection" where
  "fresh_conn u bs = \<lparr>cn_url = u, cn_reads = [Got bs], cn_writes = [], cn_buf = [], cn_closing = False\<rparr>"

lemma fresh_get:
  assumes "head_ok status reason headers" "ending_of (response_of status headers) = Sized (length body)"
  shows "\<exists>c'. conn_get path asked collect (fresh_conn u (head_wire status reason headers @ body)) n s =
      (Inr (response_of status headers), c', n\<lparr>nt_log := nt_log n @ [(u, to_utf8 (request_head u path asked))]\<rparr>, if is_redirect status then s else s @ body) \<and>
    cn_closing c' = says_close (response_of status headers)"
proof -
  let ?c = "fresh_conn u (head_wire status reason headers @ body)"
  have "quiet ?c" "unread ?c = head_wire status reason headers @ body @ []" "cn_writes ?c = []" "cn_url ?c = u"
    by (simp_all add: fresh_conn_def quiet_def unread_def got_def head_wire_def)
  moreover have "body_wire (response_of status headers) body body []" using assms(2) by (simp add: body_wire_def)
  ultimately show ?thesis using collected.conn_get_quiet [OF _ _ _ assms(1) _ refl, of ?c body "[]" body path asked n s] assms(2) by auto
qed

lemma sample_responses:
  "rs_header (response_of 302 moved_headers) ''transfer-encoding'' = None" "rs_length (response_of 302 moved_headers) = Some 0"
  "rs_header (response_of 200 sized_headers) ''transfer-encoding'' = None" "rs_length (response_of 200 sized_headers) = Some 2"
  "says_close (response_of 302 moved_headers)"
  "Option.bind (rs_header (response_of 302 moved_headers) ''location'') (url_join sample_url) = Some cdn_url"
  by (simp_all add: rs_length_def rs_header_def response_of_def moved_headers_def sized_headers_def lit_def Http.ascii_lower_def trim_def is_whitespace_def
      parse_usize_def url_join_def url_parse_def split_at_first_def rsplit_once_def cdn_url_def says_close_def eq_ignore_ascii_case_def)

lemma sample_heads: "head_ok 302 (lit ''Found'') moved_headers" "head_ok 200 (lit ''OK'') sized_headers"
  by (simp_all add: head_ok_def moved_headers_def sized_headers_def head_wire_def head_lines_def status_line_def header_line_def lit_def decimal.simps
      encode_utf8_def is_scalar_def MAX_HEAD_def)

lemma sample_endings:
  "ending_of (response_of 302 moved_headers) = Sized (length [])" "ending_of (response_of 200 sized_headers) = Sized (length [104, 105 :: u8])"
  "is_redirect (rs_status (response_of 302 moved_headers))" "\<not> is_redirect (rs_status (response_of 200 sized_headers))"
  using sample_responses by (simp_all add: ending_of_def response_of_def no_body_def is_redirect_def)

lemma sample_fetch:
  "\<exists>conn' n'. fetch None sample_url hs collect sample_net [] = (Inr (response_of 200 sized_headers, cdn_url), conn', n', [104, 105]) \<and>
     map fst (nt_log n') = [sample_url, cdn_url]"
proof -
  let ?c1 = "fresh_conn sample_url (head_wire 302 (lit ''Found'') moved_headers @ [])"
  let ?c2 = "fresh_conn cdn_url (head_wire 200 (lit ''OK'') sized_headers @ [104, 105])"
  let ?origin = "url_host sample_url"
  obtain n1 where o1: "conn_for sample_url None sample_net = (Inr ?c1, n1)" "nt_log n1 = []" "nt_opens n1 = tl (nt_opens sample_net)"
    by (rule that [of "sample_net\<lparr>nt_opens := tl (nt_opens sample_net)\<rparr>"]) (simp_all add: conn_for_def conn_open_def sample_net_def fresh_conn_def)
  obtain c1 n2 where g1: "conn_get (url_path sample_url) (may_carry ?origin sample_url hs) collect ?c1 n1 [] = (Inr (response_of 302 moved_headers), c1, n2, [])"
      "cn_closing c1" "map fst (nt_log n2) = [sample_url]" "nt_opens n2 = nt_opens n1"
    using fresh_get [OF sample_heads(1) sample_endings(1), of _ _ sample_url n1] sample_responses(5) o1(2) by (fastforce simp: is_redirect_def)
  obtain n3 where o2: "conn_for cdn_url (Some c1) n2 = (Inr ?c2, n3)" "nt_log n3 = nt_log n2"
    using g1(2,4) o1(3) by (simp add: conn_for_def serves_def conn_open_def sample_net_def fresh_conn_def)
  obtain c2 n4 where g2: "conn_get (url_path cdn_url) (may_carry ?origin cdn_url hs) collect ?c2 n3 [] = (Inr (response_of 200 sized_headers), c2, n4, [104, 105])"
      "map fst (nt_log n4) = [sample_url, cdn_url]"
    using fresh_get [OF sample_heads(2) sample_endings(2), of "url_path cdn_url" "may_carry ?origin cdn_url hs" cdn_url n3 "[]"] o2(2) g1(3)
    by (auto simp: is_redirect_def)
  have "fetch None sample_url hs collect sample_net [] = fetch_loop (Suc (Suc 7)) ?origin sample_url hs collect None sample_net []"
    by (simp add: fetch_def MAX_REDIRECTS_def eval_nat_numeral)
  also have "\<dots> = fetch_loop (Suc 7) ?origin cdn_url hs collect (Some c1) n2 []"
    using o1(1) g1(1) sample_responses(6) sample_endings(3) by (subst fetch_loop.simps) simp
  also have "\<dots> = (Inr (response_of 200 sized_headers, cdn_url), Some c2, n4, [104, 105])"
    using o2(1) g2(1) sample_endings(4) by (subst fetch_loop.simps) simp
  finally show ?thesis using g2(2) by simp
qed


end
