(* ===== verification/Hub.thy ===== *)
theory Hub
  imports Http Sha Json
begin

text \<open>
  Downloads from the Hub (\<open>net/hub.rs\<close>): the list of a repository's files, small files, and large ones in chunks over several
  connections at once, resumed after an interruption and checked by their hash. The workers and the hasher of a chunked
  download are step functions, a step being what runs between two waits; what the server sends, which disk writes succeed and in
  which order the threads run are inputs. A request as such is \<open>Http.fetch\<close>: here its answer comes in pieces, and other threads
  run between them.
\<close>

definition CHUNK :: nat where "CHUNK = 8 * 2 ^ 20"

definition ATTEMPTS :: nat where "ATTEMPTS = 5"

definition CONNECTIONS :: nat where "CONNECTIONS = 8"

definition IN_FLIGHT :: nat where "IN_FLIGHT = 32"

section \<open>The Hub\<close>

record hub =
  hb_base :: str
  hb_auth :: "str option"
  hb_connections :: nat

record entry =
  en_path :: str
  en_len :: nat
  en_sha256 :: "bytes option"

text \<open>\<open>Hub::at\<close>, with the value of \<open>TACHYON_CONNECTIONS\<close>.\<close>

definition hub_at :: "str \<Rightarrow> str option \<Rightarrow> hub" where
  "hub_at base env =
     \<lparr>hb_base = rev (dropWhile (\<lambda>c. c = 47) (rev base)), hb_auth = None,
      hb_connections = (case Option.bind env parse_usize of Some n \<Rightarrow> n | None \<Rightarrow> CONNECTIONS)\<rparr>"

definition with_token :: "str option \<Rightarrow> hub \<Rightarrow> hub" where
  "with_token token h = h\<lparr>hb_auth := map_option (\<lambda>t. lit ''Bearer '' @ trim t) token\<rparr>"

text \<open>\<open>Hub::new\<close>, with the values of \<open>TACHYON_HUB\<close>, \<open>TACHYON_CONNECTIONS\<close> and \<open>HF_TOKEN\<close>.\<close>

definition hub_new :: "str option \<Rightarrow> str option \<Rightarrow> str option \<Rightarrow> hub" where
  "hub_new base env token =
     with_token (Option.bind token (\<lambda>t. if t = [] then None else Some t))
       (hub_at (case base of Some b \<Rightarrow> b | None \<Rightarrow> lit ''https://huggingface.co'') env)"

definition auth_headers :: "str option \<Rightarrow> (str \<times> str) list" where
  "auth_headers auth = (case auth of Some a \<Rightarrow> [(lit ''Authorization'', a)] | None \<Rightarrow> [])"

text \<open>\<open>u8::from_str_radix\<close> of at most two characters: a plus sign may come first.\<close>

fun unhex_pairs :: "nat \<Rightarrow> bytes \<Rightarrow> bytes option" where
  "unhex_pairs 0 s = Some []"
| "unhex_pairs (Suc n) s =
     (if s = [] then Some (replicate (Suc n) 0)
      else Option.bind (if from_utf8 (take 2 s) = None then None else from_hex (take 2 s)) (\<lambda>v.
        map_option (\<lambda>bs. byte v # bs) (unhex_pairs n (drop 2 s))))"

definition unhex :: "str \<Rightarrow> bytes option" where
  "unhex s = Option.bind (unhex_pairs 32 (to_utf8 s)) (\<lambda>out. if length (to_utf8 s) = 64 then Some out else None)"

text \<open>\<open>as_u64\<close> is the cast of a number to \<open>u64\<close>.\<close>

definition hub_entry :: "('f \<Rightarrow> nat) \<Rightarrow> 'f json \<Rightarrow> entry option" where
  "hub_entry as_u64 f =
     Option.bind (Option.bind (json_get (lit ''path'') f) json_str) (\<lambda>path.
     Option.bind (Option.bind (json_get (lit ''size'') f) json_num) (\<lambda>n.
       Some \<lparr>en_path = path, en_len = as_u64 n,
             en_sha256 = Option.bind (Option.bind (json_get (lit ''lfs'') f) (\<lambda>l. Option.bind (json_get (lit ''oid'') l) json_str)) unhex\<rparr>))"

text \<open>The list of files; \<open>None\<close> stands for a reading of the document that does not end (there is none), \<open>told\<close> for the text of its error.\<close>

definition listed_files :: "('f \<Rightarrow> nat) \<Rightarrow> 'f json \<Rightarrow> entry list" where
  "listed_files as_u64 j =
     List.map_filter (hub_entry as_u64)
       (filter (\<lambda>f. Option.bind (json_get (lit ''type'') f) json_str = Some (lit ''file'')) (case json_arr j of Some fs \<Rightarrow> fs | None \<Rightarrow> []))"

definition hub_files :: "(bytes \<Rightarrow> 'f option) \<Rightarrow> ('f \<Rightarrow> nat) \<Rightarrow> (json_error \<Rightarrow> str) \<Rightarrow> str \<Rightarrow> hub \<Rightarrow> net \<Rightarrow> ((io_error + entry list) \<times> net) option" where
  "hub_files rd as_u64 told repo h n =
     (case http_get (hb_base h @ lit ''/api/models/'' @ repo @ lit ''/tree/main?recursive=true'') (auth_headers (hb_auth h)) n of
        (Inl e, n) \<Rightarrow> Some (Inl e, n)
      | (Inr body, n) \<Rightarrow>
          map_option (\<lambda>r. (case r of Inl e \<Rightarrow> Inl (Invalid_data (lit ''the Hub's file list: '' @ told e)) | Inr j \<Rightarrow> Inr (listed_files as_u64 j), n))
            (json_parse rd body))"

text \<open>\<open>small\<close>, and what it leaves at the target; \<open>written\<close> is the outcome of writing it.\<close>

definition small_file :: "url \<Rightarrow> entry \<Rightarrow> str option \<Rightarrow> io_error option \<Rightarrow> net \<Rightarrow> (io_error + bytes) \<times> net" where
  "small_file u f auth written n =
     (case fetch None u (auth_headers auth) collect n [] of
        (Inl e, _, n, _) \<Rightarrow> (Inl e, n)
      | (Inr (r, _), _, n, body) \<Rightarrow>
          (if rs_status r \<noteq> 200 \<or> length body \<noteq> en_len f
           then Inl (Other (en_path f @ lit '': status '' @ decimal (rs_status r) @ lit '', '' @ decimal (length body) @ lit '' of '' @
             decimal (en_len f) @ lit '' bytes''))
           else case written of Some e \<Rightarrow> Inl e | None \<Rightarrow> Inr body, n))"

text \<open>What \<open>download\<close> does: \<open>there\<close> is the length of a file already at the target, \<open>made\<close> the outcome of making its directory.\<close>

datatype plan = Already | Small url | In_chunks url bytes

definition hub_download :: "str \<Rightarrow> entry \<Rightarrow> nat option \<Rightarrow> io_error option \<Rightarrow> hub \<Rightarrow> io_error + plan" where
  "hub_download repo f there made h =
     (if there = Some (en_len f) then Inr Already
      else case made of
        Some e \<Rightarrow> Inl e
      | None \<Rightarrow>
          (case url_parse (hb_base h @ lit ''/'' @ repo @ lit ''/resolve/main/'' @ en_path f) of
             None \<Rightarrow> Inl (Other (lit ''the Hub's address is not a URL''))
           | Some u \<Rightarrow> Inr (case en_sha256 f of None \<Rightarrow> Small u | Some sha \<Rightarrow> In_chunks u sha)))"

section \<open>A chunked download\<close>

record dl =
  dl_url :: "url option"
  dl_first :: url
  dl_size :: nat
  dl_part :: bytes
  dl_state :: bytes
  dl_done :: "bool list"
  dl_next :: nat
  dl_received :: nat
  dl_failed :: "io_error option"
  dl_auth :: "str option"

definition span :: "nat \<Rightarrow> nat \<Rightarrow> nat \<times> nat" where
  "span i len = (i * CHUNK, min CHUNK (len - i * CHUNK))"

definition span_end :: "nat \<Rightarrow> nat \<Rightarrow> nat" where
  "span_end i len = fst (span i len) + snd (span i len)"

text \<open>\<open>Chunked::start\<close> on the part and state files as they are; \<open>have_flags\<close> is how many bytes reading the state file
  gave. The signal, the target's name and the TLS configuration are not part of the model.\<close>

definition chunk_count :: "nat \<Rightarrow> nat" where
  "chunk_count len = (len + CHUNK - 1) div CHUNK"

definition chunked_start :: "url \<Rightarrow> nat \<Rightarrow> bytes \<Rightarrow> bytes \<Rightarrow> nat \<Rightarrow> str option \<Rightarrow> dl" where
  "chunked_start u len part state have_flags auth =
     (let flags = take (min have_flags (chunk_count len)) state;
          flags = flags @ replicate (chunk_count len - length flags) 0;
          dn = map (\<lambda>f. f = 1) flags
      in \<lparr>dl_url = None, dl_first = u, dl_size = len, dl_part = take len part @ replicate (len - length part) 0, dl_state = state,
          dl_done = dn, dl_next = 0,
          dl_received = sum_list (map (\<lambda>(i, _). snd (span i len)) (filter snd (enumerate 0 dn))),
          dl_failed = None, dl_auth = auth\<rparr>)"

definition missing :: "bool list \<Rightarrow> nat \<Rightarrow> nat \<Rightarrow> (nat \<times> nat) option" where
  "missing dn from till =
     map_option (\<lambda>first. (first, case find (\<lambda>i. dn ! i) [first..<till] of Some t \<Rightarrow> t | None \<Rightarrow> till))
       (find (\<lambda>i. \<not> dn ! i) [from..<till])"

text \<open>\<open>write_all_at\<close>: nothing is written for no bytes.\<close>

definition pwrite :: "bytes \<Rightarrow> nat \<Rightarrow> bytes \<Rightarrow> bytes" where
  "pwrite bs i f = (if bs = [] then f else write_at bs i f)"

text \<open>\<open>mark\<close>; \<open>ok\<close> is whether the state file could be written.\<close>

definition mark :: "bool \<Rightarrow> nat \<Rightarrow> dl \<Rightarrow> dl" where
  "mark ok i d =
     (if ok then d\<lparr>dl_state := pwrite [1] i (dl_state d), dl_received := dl_received d + snd (span i (dl_size d)), dl_done := (dl_done d)[i := True]\<rparr>
      else d)"

function mark_passed :: "(nat \<Rightarrow> bool) \<Rightarrow> nat \<Rightarrow> nat \<Rightarrow> nat \<Rightarrow> dl \<Rightarrow> nat \<times> dl" where
  "mark_passed oks till pos chunk d =
     (if chunk < till \<and> span_end chunk (dl_size d) \<le> pos then mark_passed oks till pos (chunk + 1) (mark (oks chunk) chunk d) else (chunk, d))"
  by pat_completeness auto
termination
  by (relation "measure (\<lambda>(oks, till, pos, chunk, d). till - chunk)") auto

declare mark_passed.simps [simp del]

text \<open>The sink of \<open>try_run\<close>, on the download, the position and the next chunk to mark: what it does with a piece that could be written.\<close>

definition range_sink :: "(nat \<Rightarrow> bool) \<Rightarrow> nat \<Rightarrow> bytes \<Rightarrow> dl \<times> nat \<times> nat \<Rightarrow> dl \<times> nat \<times> nat" where
  "range_sink oks till bs = (\<lambda>(d, pos, chunk).
     let pos' = pos + length bs;
         (chunk, d) = mark_passed oks till pos' chunk (d\<lparr>dl_part := pwrite bs pos (dl_part d)\<rparr>)
     in (d, pos', chunk))"

text \<open>The request for chunks \<open>from..till\<close>: the URL and the headers.\<close>

definition range_text :: "nat \<Rightarrow> nat \<Rightarrow> nat \<Rightarrow> str" where
  "range_text len from till = lit ''bytes='' @ decimal (fst (span from len)) @ 45 # decimal (span_end (till - 1) len - 1)"

definition range_request :: "dl \<Rightarrow> nat \<Rightarrow> nat \<Rightarrow> url \<times> (str \<times> str) list" where
  "range_request d from till =
     (let u = (case dl_url d of Some u \<Rightarrow> u | None \<Rightarrow> dl_first d) in
      (u, (lit ''Range'', range_text (dl_size d) from till) #
          auth_headers (if url_host u = url_host (dl_first d) then dl_auth d else None)))"

section \<open>Workers\<close>

text \<open>
  A run being fetched (\<open>fetch_run\<close>): its first chunk and the end of the claim it is in, where the worker goes on after it, and the
  attempt. A worker claims chunks, looks for a missing run in its claim, begins an attempt, or is in the body of an answer, having
  written up to \<open>pos\<close>, with \<open>chunk\<close> the next to be marked.
\<close>

record attempt =
  at_from :: nat
  at_end :: nat
  at_then :: nat
  at_count :: nat

datatype phase =
    Claiming
  | Looking nat nat
  | Trying attempt
  | Receiving attempt nat nat nat nat
  | Stopped

text \<open>What happens to a worker: nothing (it goes on), a piece of the body, with the outcomes of writing it and of marking
  chunks, the end of the answer, or an error.\<close>

datatype happens =
    Goes_on
  | Piece bytes "(nat \<times> io_error) option" "nat \<Rightarrow> bool"
  | Answered nat url
  | Broke io_error

definition claim :: "nat \<Rightarrow> dl \<Rightarrow> dl \<times> phase" where
  "claim rl d =
     (let first = dl_next d; d = d\<lparr>dl_next := first + rl\<rparr> in
      if length (dl_done d) \<le> first \<or> dl_failed d \<noteq> None then (d, Stopped)
      else (d, Looking first (min (first + rl) (length (dl_done d)))))"

definition look :: "nat \<Rightarrow> nat \<Rightarrow> dl \<Rightarrow> phase" where
  "look i till d =
     (case missing (dl_done d) i till of
        None \<Rightarrow> Claiming
      | Some (from, to) \<Rightarrow> Trying \<lparr>at_from = from, at_end = till, at_then = to, at_count = 1\<rparr>)"

definition begin_try :: "attempt \<Rightarrow> dl \<Rightarrow> phase" where
  "begin_try a d =
     (case missing (dl_done d) (at_from a) (at_end a) of
        None \<Rightarrow> Looking (at_then a) (at_end a)
      | Some (from, to) \<Rightarrow> Receiving a from to (fst (span from (dl_size d))) from)"

definition attempt_failed :: "io_error \<Rightarrow> attempt \<Rightarrow> dl \<Rightarrow> dl \<times> phase" where
  "attempt_failed e a d =
     (if at_count a = ATTEMPTS then (d\<lparr>dl_failed := Some (case dl_failed d of Some e \<Rightarrow> e | None \<Rightarrow> e)\<rparr>, Stopped)
      else (d, Trying (a\<lparr>at_count := at_count a + 1\<rparr>)))"

definition receive :: "bytes \<Rightarrow> (nat \<times> io_error) option \<Rightarrow> (nat \<Rightarrow> bool) \<Rightarrow> attempt \<Rightarrow> nat \<Rightarrow> nat \<Rightarrow> nat \<Rightarrow> nat \<Rightarrow> dl \<Rightarrow> dl \<times> phase" where
  "receive bs wrote oks a from till pos chunk d =
     (case wrote of
        Some (k, e) \<Rightarrow> attempt_failed e a (d\<lparr>dl_part := pwrite (take k bs) pos (dl_part d)\<rparr>)
      | None \<Rightarrow>
          (case range_sink oks till bs (d, pos, chunk) of (d, pos, chunk) \<Rightarrow> (d, Receiving a from till pos chunk)))"

definition answered :: "nat \<Rightarrow> url \<Rightarrow> attempt \<Rightarrow> nat \<Rightarrow> nat \<Rightarrow> nat \<Rightarrow> dl \<Rightarrow> dl \<times> phase" where
  "answered status final a from till pos d =
     (let expired = status \<in> {401, 403, 410};
          d = d\<lparr>dl_url := (if expired then None else Some final)\<rparr>;
          start = fst (span from (dl_size d)); fin = span_end (till - 1) (dl_size d)
      in if status \<noteq> 206 \<or> pos \<noteq> fin
         then attempt_failed (Other (lit ''range '' @ range_text (dl_size d) from till @ lit '': status '' @ decimal status @ lit '', '' @
                decimal (pos - start) @ lit '' of '' @ decimal (fin - start) @ lit '' bytes'')) a d
         else (d, Looking (at_then a) (at_end a)))"

fun worker_step :: "nat \<Rightarrow> happens \<Rightarrow> dl \<Rightarrow> phase \<Rightarrow> (dl \<times> phase) option" where
  "worker_step rl Goes_on d Claiming = Some (claim rl d)"
| "worker_step rl Goes_on d (Looking i till) = Some (d, look i till d)"
| "worker_step rl Goes_on d (Trying a) = Some (d, begin_try a d)"
| "worker_step rl (Piece bs wrote oks) d (Receiving a from till pos chunk) = Some (receive bs wrote oks a from till pos chunk d)"
| "worker_step rl (Answered status final) d (Receiving a from till pos chunk) = Some (answered status final a from till pos d)"
| "worker_step rl (Broke e) d (Receiving a from till pos chunk) = Some (attempt_failed e a d)"
| "worker_step rl h d ph = None"

section \<open>The hasher and the end\<close>

datatype hashing = Hashing nat sha256 | Hashed "io_error + bytes"

text \<open>One chunk: it waits (no step) while the chunk is missing and nothing has failed. \<open>bad\<close> is an error of the read.\<close>

fun hash_step :: "bool \<Rightarrow> io_error option \<Rightarrow> dl \<Rightarrow> hashing \<Rightarrow> hashing option" where
  "hash_step ni bad d (Hashing i h) =
     (if length (dl_done d) \<le> i then Some (Hashed (Inr (sha_finish ni h)))
      else if dl_done d ! i then
        (let (start, len) = span i (dl_size d) in
         Some (case (bad, slice (dl_part d) start len) of
                 (Some e, _) \<Rightarrow> Hashed (Inl e)
               | (None, None) \<Rightarrow> Hashed (Inl (Unexpected_eof (lit ''failed to fill whole buffer'')))
               | (None, Some bs) \<Rightarrow> Hashing (i + 1) (sha_update ni bs h)))
      else if dl_failed d \<noteq> None then Some (Hashed (Inr (replicate 32 0)))
      else None)"
| "hash_step ni bad d (Hashed r) = None"

text \<open>The end of \<open>run\<close>, after all threads: the file at the target, if it takes its name there. The arguments are the outcomes
  of flushing, of removing the state file, of syncing and of renaming.\<close>

record ending_io =
  eo_flush :: "io_error option"
  eo_remove :: "io_error option"
  eo_sync :: "io_error option"
  eo_rename :: "io_error option"

definition io_result :: "io_error option \<Rightarrow> io_error + unit" where
  "io_result e = (case e of Some e \<Rightarrow> Inl e | None \<Rightarrow> Inr ())"

definition run_end :: "str \<Rightarrow> bytes \<Rightarrow> io_error + bytes \<Rightarrow> ending_io \<Rightarrow> dl \<Rightarrow> (io_error + unit) \<times> bytes option" where
  "run_end target sha hash eo d =
     (case rbind hash (\<lambda>hash. rmap (\<lambda>_. hash) (io_result (eo_flush eo))) of
        Inl e \<Rightarrow> (Inl e, None)
      | Inr hash \<Rightarrow>
          (case dl_failed d of
             Some e \<Rightarrow> (Inl e, None)
           | None \<Rightarrow>
               if hash \<noteq> sha then
                 (rbind (io_result (eo_remove eo)) (\<lambda>_. Inl (Invalid_data (target @ lit '': the SHA-256 does not match the Hub's''))), None)
               else
                 (case rbind (io_result (eo_sync eo)) (\<lambda>_. io_result (eo_rename eo)) of
                    Inl e \<Rightarrow> (Inl e, None)
                  | Inr _ \<Rightarrow> (io_result (eo_remove eo), Some (dl_part d)))))"

section \<open>All threads\<close>

record sys =
  sy_dl :: dl
  sy_workers :: "phase list"
  sy_hash :: hashing

definition sys_start :: "dl \<Rightarrow> nat \<Rightarrow> sys" where
  "sys_start d n = \<lparr>sy_dl = d, sy_workers = replicate n Claiming, sy_hash = Hashing 0 sha_default\<rparr>"

definition run_workers :: "nat \<Rightarrow> nat" where
  "run_workers connections = max 1 (min 64 connections)"

definition run_length :: "nat \<Rightarrow> nat" where
  "run_length connections = max 1 (IN_FLIGHT div run_workers connections)"

definition run_start :: "nat \<Rightarrow> dl \<Rightarrow> sys" where
  "run_start connections d = sys_start d (run_workers connections)"

text \<open>Any worker, or the hasher, takes a step. \<open>may\<close> restricts what happens to a worker.\<close>

inductive sys_step :: "(dl \<Rightarrow> phase \<Rightarrow> happens \<Rightarrow> bool) \<Rightarrow> bool \<Rightarrow> nat \<Rightarrow> sys \<Rightarrow> sys \<Rightarrow> bool" for may ni rl where
  step_worker: "i < length (sy_workers s) \<Longrightarrow> may (sy_dl s) (sy_workers s ! i) h \<Longrightarrow> worker_step rl h (sy_dl s) (sy_workers s ! i) = Some (d, ph) \<Longrightarrow>
     sys_step may ni rl s (s\<lparr>sy_dl := d, sy_workers := (sy_workers s)[i := ph]\<rparr>)"
| step_hasher: "hash_step ni bad (sy_dl s) (sy_hash s) = Some ha \<Longrightarrow> sys_step may ni rl s (s\<lparr>sy_hash := ha\<rparr>)"

inductive sys_reach :: "(dl \<Rightarrow> phase \<Rightarrow> happens \<Rightarrow> bool) \<Rightarrow> bool \<Rightarrow> nat \<Rightarrow> sys \<Rightarrow> sys \<Rightarrow> bool" for may ni rl s0 where
  reach_start: "sys_reach may ni rl s0 s0"
| reach_step: "sys_reach may ni rl s0 s \<Longrightarrow> sys_step may ni rl s s' \<Longrightarrow> sys_reach may ni rl s0 s'"

section \<open>Claims\<close>

lemma chunk_pos [simp]: "0 < CHUNK"
  by (simp add: CHUNK_def)

lemma span_end_min: "i * CHUNK \<le> len \<Longrightarrow> span_end i len = min ((i + 1) * CHUNK) len"
  by (simp add: span_end_def span_def)

lemma span_end_mono:
  assumes "k \<le> m" "m * CHUNK \<le> len"
  shows "span_end k len \<le> span_end m len"
proof -
  have "k * CHUNK \<le> m * CHUNK" using assms(1) by (rule mult_le_mono1)
  then have "k * CHUNK \<le> len" "(k + 1) * CHUNK \<le> (m + 1) * CHUNK" using assms le_trans by (blast, simp)
  then show ?thesis using assms(2) by (simp only: span_end_min)
qed

lemma chunk_in: "i < chunk_count len \<longleftrightarrow> i * CHUNK < len"
proof -
  have "i < chunk_count len \<longleftrightarrow> i + 1 \<le> (len + CHUNK - 1) div CHUNK" by (auto simp: chunk_count_def)
  also have "\<dots> \<longleftrightarrow> (i + 1) * CHUNK \<le> len + CHUNK - 1" by (simp add: less_eq_div_iff_mult_less_eq)
  also have "\<dots> \<longleftrightarrow> i * CHUNK < len" using chunk_pos by (simp only: add_mult_distrib) linarith
  finally show ?thesis .
qed

lemma missing_Some:
  assumes "missing dn from till = Some (f, t)"
  shows "from \<le> f" "f < t" "t \<le> till" "\<And>c. from \<le> c \<Longrightarrow> c < f \<Longrightarrow> dn ! c" "\<And>c. f \<le> c \<Longrightarrow> c < t \<Longrightarrow> \<not> dn ! c"
    "t = till \<or> dn ! t"
proof -
  obtain i where i: "i < till - from" "\<not> dn ! (from + i)" "f = from + i" "\<forall>j < i. dn ! (from + j)"
    using assms by (auto simp: missing_def find_Some_iff)
  then show "from \<le> f" by simp
  have f: "f < till" "\<not> dn ! f" using i by auto
  show "dn ! c" if "from \<le> c" "c < f" for c using i(3,4) that by (auto dest!: spec [of _ "c - from"])
  have t: "t = (case find (\<lambda>i. dn ! i) [f..<till] of Some t \<Rightarrow> t | None \<Rightarrow> till)" using assms by (auto simp: missing_def)
  have "f < t \<and> t \<le> till \<and> (\<forall>c. f \<le> c \<and> c < t \<longrightarrow> \<not> dn ! c) \<and> (t = till \<or> dn ! t)"
  proof (cases "find (\<lambda>i. dn ! i) [f..<till]")
    case None
    then have "t = till" using t by simp
    then show ?thesis using None f by (auto simp: find_None_iff)
  next
    case (Some u)
    then obtain k where k: "k < till - f" "dn ! (f + k)" "u = f + k" "\<forall>j < k. \<not> dn ! (f + j)" by (auto simp: find_Some_iff)
    have "k \<noteq> 0" using k(2) f(2) by (cases k) auto
    moreover have "\<not> dn ! c" if "f \<le> c" "c < u" for c using k(3,4) that by (auto dest!: spec [of _ "c - f"])
    ultimately show ?thesis using t Some k by auto
  qed
  then show "f < t" "t \<le> till" "\<And>c. f \<le> c \<Longrightarrow> c < t \<Longrightarrow> \<not> dn ! c" "t = till \<or> dn ! t" by auto
qed

lemma missing_None: "missing dn from till = None \<Longrightarrow> from \<le> c \<Longrightarrow> c < till \<Longrightarrow> dn ! c"
  by (auto simp: missing_def find_None_iff)

text \<open>The chunks a worker alone may mark, and what holds of its phase.\<close>

fun owns :: "phase \<Rightarrow> nat \<Rightarrow> bool" where
  "owns (Looking i till) c \<longleftrightarrow> i \<le> c \<and> c < till"
| "owns (Trying a) c \<longleftrightarrow> at_from a \<le> c \<and> c < at_end a"
| "owns (Receiving a from till pos chunk) c \<longleftrightarrow> at_from a \<le> c \<and> c < at_end a"
| "owns ph c \<longleftrightarrow> False"

definition attempt_ok :: "dl \<Rightarrow> attempt \<Rightarrow> bool" where
  "attempt_ok d a \<longleftrightarrow> at_from a \<le> at_then a \<and> at_then a \<le> at_end a \<and> at_end a \<le> length (dl_done d) \<and> at_end a \<le> dl_next d"

fun phase_ok :: "dl \<Rightarrow> phase \<Rightarrow> bool" where
  "phase_ok d (Looking i till) \<longleftrightarrow> till \<le> length (dl_done d) \<and> till \<le> dl_next d"
| "phase_ok d (Trying a) \<longleftrightarrow> attempt_ok d a"
| "phase_ok d (Receiving a from till pos chunk) \<longleftrightarrow>
     attempt_ok d a \<and> at_from a \<le> from \<and> from < till \<and> till \<le> at_end a \<and> from \<le> chunk \<and> chunk \<le> till \<and> from * CHUNK \<le> pos \<and>
     (\<forall>c. from \<le> c \<and> c < chunk \<longrightarrow> span_end c (dl_size d) \<le> pos) \<and> (chunk < till \<longrightarrow> pos < span_end chunk (dl_size d)) \<and>
     (\<forall>c. chunk \<le> c \<and> c < till \<longrightarrow> \<not> dl_done d ! c)"
| "phase_ok d ph \<longleftrightarrow> True"

text \<open>What a worker's step leaves of the download to the others.\<close>

definition leaves :: "(nat \<Rightarrow> bool) \<Rightarrow> dl \<Rightarrow> dl \<Rightarrow> bool" where
  "leaves own d d' \<longleftrightarrow>
     dl_size d' = dl_size d \<and> length (dl_done d') = length (dl_done d) \<and> dl_next d \<le> dl_next d' \<and>
     (\<forall>c < length (dl_done d). \<not> own c \<longrightarrow> dl_done d' ! c = dl_done d ! c) \<and> (\<forall>c < length (dl_done d). dl_done d ! c \<longrightarrow> dl_done d' ! c) \<and> (dl_failed d \<noteq> None \<longrightarrow> dl_failed d' \<noteq> None)"

lemma phase_ok_other:
  assumes "phase_ok d ph" "leaves own d d'" "\<And>c. owns ph c \<Longrightarrow> \<not> own c"
  shows "phase_ok d' ph"
  using assms by (cases ph) (auto simp: leaves_def attempt_ok_def)

lemma mark_simps [simp]: "length (dl_done (mark ok i d)) = length (dl_done d)" "dl_size (mark ok i d) = dl_size d"
  by (simp_all add: mark_def)

lemma mark_passed_keeps:
  "mark_passed oks till pos chunk d = (k, d') \<Longrightarrow> chunk \<le> till \<Longrightarrow>
     chunk \<le> k \<and> k \<le> till \<and> (\<forall>c. chunk \<le> c \<and> c < k \<longrightarrow> span_end c (dl_size d) \<le> pos) \<and> (k < till \<longrightarrow> pos < span_end k (dl_size d)) \<and>
     leaves (\<lambda>c. chunk \<le> c \<and> c < k) d d' \<and> dl_part d' = dl_part d \<and> dl_failed d' = dl_failed d \<and> dl_next d' = dl_next d \<and>
     ((\<forall>c. oks c) \<longrightarrow> till \<le> length (dl_done d) \<longrightarrow> (\<forall>c. chunk \<le> c \<and> c < k \<longrightarrow> dl_done d' ! c))"
proof (induction oks till pos chunk d rule: mark_passed.induct)
  case (1 oks till pos chunk d)
  show ?case
  proof (cases "chunk < till \<and> span_end chunk (dl_size d) \<le> pos")
    case False
    then show ?thesis using 1(2,3) by (subst (asm) mark_passed.simps) (auto simp: leaves_def)
  next
    case True
    let ?d = "mark (oks chunk) chunk d"
    have m: "mark_passed oks till pos (chunk + 1) ?d = (k, d')" using 1(2) True by (subst (asm) mark_passed.simps) simp
    have d: "dl_size ?d = dl_size d" "length (dl_done ?d) = length (dl_done d)" "dl_next ?d = dl_next d" "dl_failed ?d = dl_failed d" "dl_part ?d = dl_part d"
      "\<And>c. c \<noteq> chunk \<Longrightarrow> dl_done ?d ! c = dl_done d ! c" "\<And>c. c < length (dl_done d) \<Longrightarrow> dl_done d ! c \<Longrightarrow> dl_done ?d ! c"
      "oks chunk \<Longrightarrow> chunk < length (dl_done d) \<Longrightarrow> dl_done ?d ! chunk"
      by (auto simp: mark_def) (metis nth_list_update_eq nth_list_update_neq)
    have ih: "chunk + 1 \<le> k \<and> k \<le> till \<and> (\<forall>c. chunk + 1 \<le> c \<and> c < k \<longrightarrow> span_end c (dl_size d) \<le> pos) \<and> (k < till \<longrightarrow> pos < span_end k (dl_size d)) \<and>
        leaves (\<lambda>c. chunk + 1 \<le> c \<and> c < k) ?d d' \<and> dl_part d' = dl_part d \<and> dl_failed d' = dl_failed d \<and> dl_next d' = dl_next d \<and>
        ((\<forall>c. oks c) \<longrightarrow> till \<le> length (dl_done d) \<longrightarrow> (\<forall>c. chunk + 1 \<le> c \<and> c < k \<longrightarrow> dl_done d' ! c))"
      using 1(1) [OF True m] True d(1-5) by simp
    have le: "leaves (\<lambda>c. chunk \<le> c \<and> c < k) d d'" unfolding leaves_def
    proof (intro conjI allI impI)
      fix c assume c: "c < length (dl_done d)"
      show "dl_done d' ! c" if "dl_done d ! c" using ih d(2) d(7) [OF c that] c by (simp add: leaves_def)
      show "dl_done d' ! c = dl_done d ! c" if "\<not> (chunk \<le> c \<and> c < k)"
      proof -
        have "c \<noteq> chunk" "\<not> (chunk + 1 \<le> c \<and> c < k)" using that ih by auto
        then show ?thesis using ih d(2) d(6) [of c] c by (simp add: leaves_def)
      qed
    qed (use ih d in \<open>simp_all add: leaves_def\<close>)
    have done': "dl_done d' ! c" if "\<forall>c. oks c" "till \<le> length (dl_done d)" "chunk \<le> c" "c < k" for c
    proof (cases "c = chunk")
      case True
      then have "dl_done ?d ! c" "c < length (dl_done ?d)" using d(2,8) that ih by simp_all
      then show ?thesis using ih by (simp add: leaves_def)
    qed (use ih that in simp)
    have "span_end c (dl_size d) \<le> pos" if "chunk \<le> c" "c < k" for c using ih True that by (cases "c = chunk") auto
    then show ?thesis using ih le done' by auto
  qed
qed

lemma leaves_refl: "leaves own d d"
  by (simp add: leaves_def)

lemma attempt_failed_ok:
  assumes "attempt_failed e a d = (d', ph')" "attempt_ok d a"
  shows "phase_ok d' ph'" "leaves own d d'" "owns ph' c \<Longrightarrow> at_from a \<le> c \<and> c < at_end a" "dl_done d' = dl_done d" "dl_part d' = dl_part d"
  using assms by (auto simp: attempt_failed_def attempt_ok_def leaves_def split: if_splits)

lemma claim_ok:
  assumes "claim rl d = (d', ph')"
  shows "phase_ok d' ph'" "leaves own d d'" "owns ph' c \<Longrightarrow> dl_next d \<le> c" "dl_part d' = dl_part d" "dl_done d' = dl_done d"
  using assms by (auto simp: claim_def Let_def leaves_def split: if_splits)

lemma look_ok:
  assumes "phase_ok d (Looking i till)"
  shows "phase_ok d (look i till d)" "owns (look i till d) c \<Longrightarrow> i \<le> c \<and> c < till"
  using assms missing_Some [of "dl_done d" i till]
  by (auto simp: look_def attempt_ok_def split: option.splits)

lemma begin_try_ok:
  assumes "attempt_ok d a" "length (dl_done d) = chunk_count (dl_size d)"
  shows "phase_ok d (begin_try a d)" "owns (begin_try a d) c \<Longrightarrow> at_from a \<le> c \<and> c < at_end a"
proof -
  have "phase_ok d (begin_try a d) \<and> (owns (begin_try a d) c \<longrightarrow> at_from a \<le> c \<and> c < at_end a)"
  proof (cases "missing (dl_done d) (at_from a) (at_end a)")
    case None
    then show ?thesis using assms(1) by (auto simp: begin_try_def attempt_ok_def)
  next
    case (Some ft)
    then obtain f t where ft: "missing (dl_done d) (at_from a) (at_end a) = Some (f, t)" by (cases ft) auto
    note m = missing_Some [OF ft]
    have "f < chunk_count (dl_size d)" using m(2,3) assms by (simp add: attempt_ok_def)
    then have "f * CHUNK < span_end f (dl_size d)" using chunk_in [of f] by (simp add: span_end_min)
    then show ?thesis using ft m assms(1) by (auto simp: begin_try_def span_def)
  qed
  then show "phase_ok d (begin_try a d)" "owns (begin_try a d) c \<Longrightarrow> at_from a \<le> c \<and> c < at_end a" by auto
qed

lemma receive_ok:
  assumes r: "receive bs wrote oks a f t pos chunk d = (d', ph')" and ok: "phase_ok d (Receiving a f t pos chunk)"
  shows "phase_ok d' ph'" "leaves (owns (Receiving a f t pos chunk)) d d'" "owns ph' c \<Longrightarrow> at_from a \<le> c \<and> c < at_end a"
    "\<exists>k. dl_part d' = pwrite (take k bs) pos (dl_part d)"
proof -
  let ?goal = "phase_ok d' ph' \<and> leaves (owns (Receiving a f t pos chunk)) d d' \<and> (owns ph' c \<longrightarrow> at_from a \<le> c \<and> c < at_end a) \<and>
    (\<exists>k. dl_part d' = pwrite (take k bs) pos (dl_part d))"
  have ?goal
  proof (cases wrote)
    case (Some ke)
    obtain k e where ke: "ke = (k, e)" by (meson surj_pair)
    let ?d = "d\<lparr>dl_part := pwrite (take k bs) pos (dl_part d)\<rparr>"
    have "attempt_failed e a ?d = (d', ph')" "attempt_ok ?d a" using r ok Some ke by (auto simp: receive_def attempt_ok_def)
    moreover have "leaves own ?d d' \<Longrightarrow> leaves own d d'" for own by (simp add: leaves_def)
    ultimately show ?thesis using attempt_failed_ok [of e a ?d d' ph'] by auto
  next
    case None
    let ?d = "d\<lparr>dl_part := pwrite bs pos (dl_part d)\<rparr>"
    obtain k d1 where m: "mark_passed oks t (pos + length bs) chunk ?d = (k, d1)" by (meson surj_pair)
    then have d': "d' = d1" "ph' = Receiving a f t (pos + length bs) k" using r None by (auto simp: receive_def range_sink_def Let_def)
    note mp = mark_passed_keeps [OF m]
    have le: "leaves (\<lambda>c. chunk \<le> c \<and> c < k) d d1" using mp ok by (auto simp: leaves_def)
    have "dl_done d1 ! c = dl_done d ! c" if "k \<le> c" "c < t" for c
      using le that ok by (auto simp: leaves_def attempt_ok_def)
    moreover have "span_end c (dl_size d) \<le> pos + length bs" if "f \<le> c" "c < k" for c
      using that mp ok by (cases "c < chunk") auto
    ultimately have "phase_ok d' ph'" using mp ok d' by (auto simp: attempt_ok_def leaves_def)
    moreover have "leaves (owns (Receiving a f t pos chunk)) d d'" using le ok mp d' by (auto simp: leaves_def)
    moreover have "\<exists>k. dl_part d' = pwrite (take k bs) pos (dl_part d)" using mp ok d' by (intro exI [of _ "length bs"]) simp
    ultimately show ?thesis using d' by auto
  qed
  then show "phase_ok d' ph'" "leaves (owns (Receiving a f t pos chunk)) d d'" "owns ph' c \<Longrightarrow> at_from a \<le> c \<and> c < at_end a"
    "\<exists>k. dl_part d' = pwrite (take k bs) pos (dl_part d)" by auto
qed

lemma answered_ok:
  assumes "answered status u a f t pos d = (d', ph')" "attempt_ok d a"
  shows "phase_ok d' ph'" "leaves own d d'" "owns ph' c \<Longrightarrow> at_from a \<le> c \<and> c < at_end a" "dl_part d' = dl_part d" "dl_done d' = dl_done d"
  using assms by (auto simp: answered_def attempt_failed_def attempt_ok_def leaves_def Let_def split: if_splits)

lemma worker_step_ok:
  assumes "worker_step rl h d ph = Some (d', ph')" "phase_ok d ph" "length (dl_done d) = chunk_count (dl_size d)"
  shows "phase_ok d' ph'" "leaves (owns ph) d d'" "owns ph' c \<Longrightarrow> owns ph c \<or> dl_next d \<le> c"
proof -
  have "phase_ok d' ph' \<and> leaves (owns ph) d d' \<and> (owns ph' c \<longrightarrow> owns ph c \<or> dl_next d \<le> c)"
  proof (cases ph)
    case Claiming
    then show ?thesis using assms(1) claim_ok [of rl d d' ph'] by (cases h) auto
  next
    case (Looking i till)
    then show ?thesis using assms(1,2) look_ok [of d i till] leaves_refl by (cases h) auto
  next
    case (Trying a)
    then show ?thesis using assms begin_try_ok [of d a] leaves_refl by (cases h) auto
  next
    case (Receiving a f t pos chunk)
    then have a: "attempt_ok d a" using assms(2) by simp
    show ?thesis
    proof (cases h)
      case (Piece bs wrote oks)
      then show ?thesis using Receiving assms(1,2) receive_ok [of bs wrote oks a f t pos chunk d d' ph'] by auto
    next
      case (Answered status u)
      then show ?thesis using Receiving assms(1) answered_ok [OF _ a, of status u f t pos d' ph'] by auto
    next
      case (Broke e)
      then show ?thesis using Receiving assms(1) attempt_failed_ok [OF _ a, of e d' ph'] by auto
    qed (use Receiving assms(1) in simp)
  qed (use assms(1) in \<open>cases h; simp\<close>)
  then show "phase_ok d' ph'" "leaves (owns ph) d d'" "owns ph' c \<Longrightarrow> owns ph c \<or> dl_next d \<le> c" by auto
qed

section \<open>What is verified is what is kept\<close>

definition sys_ok :: "sys \<Rightarrow> bool" where
  "sys_ok s \<longleftrightarrow> length (dl_done (sy_dl s)) = chunk_count (dl_size (sy_dl s)) \<and>
     (\<forall>i < length (sy_workers s). phase_ok (sy_dl s) (sy_workers s ! i)) \<and>
     (\<forall>i < length (sy_workers s). \<forall>j < length (sy_workers s). i \<noteq> j \<longrightarrow> (\<forall>c. \<not> (owns (sy_workers s ! i) c \<and> owns (sy_workers s ! j) c)))"

lemma owns_claimed: "phase_ok d ph \<Longrightarrow> owns ph c \<Longrightarrow> c < dl_next d \<and> c < length (dl_done d)"
  by (cases ph) (auto simp: attempt_ok_def)

lemma sys_ok_step:
  assumes "sys_step may ni rl s s'" "sys_ok s"
  shows "sys_ok s'"
  using assms(1)
proof cases
  case (step_worker i h d ph)
  let ?ws = "sy_workers s" and ?d = "sy_dl s"
  have ok: "length (dl_done ?d) = chunk_count (dl_size ?d)" "\<And>j. j < length ?ws \<Longrightarrow> phase_ok ?d (?ws ! j)"
    "\<And>j k c. j < length ?ws \<Longrightarrow> k < length ?ws \<Longrightarrow> j \<noteq> k \<Longrightarrow> owns (?ws ! j) c \<Longrightarrow> \<not> owns (?ws ! k) c"
    using assms(2) by (auto simp: sys_ok_def)
  note st = worker_step_ok [OF step_worker(4) ok(2) [OF step_worker(2)] ok(1)]
  have others: "phase_ok d (?ws ! j)" if "j < length ?ws" "j \<noteq> i" for j
    using phase_ok_other [OF ok(2) [OF that(1)] st(2)] ok(3) that step_worker(2) by blast
  have apart: "\<not> (owns ph c \<and> owns (?ws ! j) c)" if "j < length ?ws" "j \<noteq> i" for j c
    using st(3) [of c] ok(3) [OF step_worker(2) that(1)] that(2) owns_claimed [OF ok(2) [OF that(1)]] by fastforce
  have "length (dl_done d) = chunk_count (dl_size d)" using st(2) ok(1) by (simp add: leaves_def)
  moreover have "phase_ok d (?ws[i := ph] ! j)" if "j < length ?ws" for j
    using st(1) others [OF that] that by (cases "j = i") simp_all
  moreover have "\<not> (owns (?ws[i := ph] ! j) c \<and> owns (?ws[i := ph] ! k) c)" if "j < length ?ws" "k < length ?ws" "j \<noteq> k" for j k c
    using apart [OF that(1)] apart [OF that(2)] ok(3) [OF that] that by (cases "j = i"; cases "k = i") auto
  ultimately show ?thesis unfolding step_worker(1) sys_ok_def by simp
next
  case (step_hasher bad ha)
  then show ?thesis using assms(2) by (simp add: sys_ok_def)
qed

text \<open>A server that sends no more than it was asked for.\<close>

fun asked :: "dl \<Rightarrow> phase \<Rightarrow> happens \<Rightarrow> bool" where
  "asked d (Receiving a f t pos chunk) (Piece bs wrote oks) \<longleftrightarrow> pos + length bs \<le> span_end (t - 1) (dl_size d)"
| "asked d ph h \<longleftrightarrow> True"

lemma span_end_le: "span_end c len \<le> len \<or> len < c * CHUNK"
  by (auto simp: span_end_def span_def)

lemma step_part:
  assumes "worker_step rl h d ph = Some (d', ph')" "phase_ok d ph" "asked d ph h" "length (dl_done d) = chunk_count (dl_size d)" "length (dl_part d) = dl_size d"
  shows "length (dl_part d') = dl_size d" "\<And>p. p < dl_size d \<Longrightarrow> dl_done d ! (p div CHUNK) \<Longrightarrow> dl_part d' ! p = dl_part d ! p"
proof -
  have "length (dl_part d') = dl_size d \<and> (\<forall>p < dl_size d. dl_done d ! (p div CHUNK) \<longrightarrow> dl_part d' ! p = dl_part d ! p)"
  proof (cases "\<exists>bs wrote oks a f t pos chunk. h = Piece bs wrote oks \<and> ph = Receiving a f t pos chunk")
    case True
    then obtain bs wrote oks a f t pos chunk where h: "h = Piece bs wrote oks" "ph = Receiving a f t pos chunk" by blast
    have ph: "attempt_ok d a" "at_from a \<le> f" "f < t" "t \<le> at_end a" "f \<le> chunk" "chunk \<le> t" "f * CHUNK \<le> pos"
      "\<And>c. f \<le> c \<Longrightarrow> c < chunk \<Longrightarrow> span_end c (dl_size d) \<le> pos" "\<And>c. chunk \<le> c \<Longrightarrow> c < t \<Longrightarrow> \<not> dl_done d ! c"
      using assms(2) h(2) by auto
    obtain k where k: "dl_part d' = pwrite (take k bs) pos (dl_part d)"
      using receive_ok(4) [of bs wrote oks a f t pos chunk d d' ph'] assms(1,2) h by auto
    have "t - 1 < chunk_count (dl_size d)" using ph(1,3,4) assms(4) by (auto simp: attempt_ok_def)
    then have last: "(t - 1) * CHUNK < dl_size d" by (simp add: chunk_in)
    then have fin: "span_end (t - 1) (dl_size d) = min (t * CHUNK) (dl_size d)" using ph(3) by (simp add: span_end_min)
    then have inside: "pos + length (take k bs) \<le> dl_size d" "pos + length bs \<le> t * CHUNK" using assms(3) h by auto
    then have w: "dl_part d' = overwrite (dl_part d) pos (take k bs)" using k assms(5) by (simp add: pwrite_def write_at_def overwrite_def)
    have "dl_part d' ! p = dl_part d ! p" if p: "p < dl_size d" "dl_done d ! (p div CHUNK)" for p
    proof (rule ccontr)
      assume "dl_part d' ! p \<noteq> dl_part d ! p"
      then have p': "pos \<le> p" "p < pos + length (take k bs)" unfolding w using overwrite_nth_outside [of pos "take k bs" "dl_part d" p] inside(1) assms(5) p(1) by force+
      then have "p < t * CHUNK" using inside(2) by simp
      then have hi: "p div CHUNK < t" by (simp add: less_mult_imp_div_less)
      have lo: "f \<le> p div CHUNK" using ph(7) p'(1) by (simp add: less_eq_div_iff_mult_less_eq)
      have "p < span_end (p div CHUNK) (dl_size d)"
      proof -
        have "p < (p div CHUNK + 1) * CHUNK" using dividend_less_div_times [of CHUNK p] by (simp add: algebra_simps)
        moreover have "p div CHUNK * CHUNK \<le> dl_size d" using div_times_less_eq_dividend [of p CHUNK] p(1) by linarith
        ultimately show ?thesis using p(1) by (simp add: span_end_min)
      qed
      then have "chunk \<le> p div CHUNK" using ph(8) [of "p div CHUNK"] lo p'(1) by linarith
      then show False using ph(9) hi p(2) by blast
    qed
    then show ?thesis using w inside(1) assms(5) by simp
  next
    case False
    then have "dl_part d' = dl_part d"
      using assms(1) by (induction rl h d ph rule: worker_step.induct) (auto simp: claim_def answered_def attempt_failed_def Let_def split: if_splits)
    then show ?thesis using assms(5) by simp
  qed
  then show "length (dl_part d') = dl_size d" "\<And>p. p < dl_size d \<Longrightarrow> dl_done d ! (p div CHUNK) \<Longrightarrow> dl_part d' ! p = dl_part d ! p" by auto
qed

fun hash_ok :: "dl \<Rightarrow> hashing \<Rightarrow> bool" where
  "hash_ok d (Hashing i h) \<longleftrightarrow> i \<le> length (dl_done d) \<and> (\<forall>c < i. dl_done d ! c) \<and> fed (take (i * CHUNK) (dl_part d)) h"
| "hash_ok d (Hashed (Inr v)) \<longleftrightarrow> dl_failed d \<noteq> None \<or> (\<forall>c < length (dl_done d). dl_done d ! c) \<and> v = sha_spec (dl_part d)"
| "hash_ok d (Hashed (Inl e)) \<longleftrightarrow> True"

lemma hash_ok_worker:
  assumes ok: "hash_ok d ha" and le: "leaves own d d'" and len: "length (dl_done d) = chunk_count (dl_size d)" "length (dl_part d) = dl_size d" "length (dl_part d') = dl_size d"
    and part: "\<And>p. p < dl_size d \<Longrightarrow> dl_done d ! (p div CHUNK) \<Longrightarrow> dl_part d' ! p = dl_part d ! p"
  shows "hash_ok d' ha"
proof (cases ha)
  case (Hashing i h)
  have "dl_done d ! (p div CHUNK)" if "p < i * CHUNK" for p using that ok Hashing by (simp add: less_mult_imp_div_less)
  then have "take (i * CHUNK) (dl_part d') = take (i * CHUNK) (dl_part d)"
    using len(2,3) part by (intro nth_equalityI) auto
  then show ?thesis using ok Hashing le by (auto simp: leaves_def)
next
  case (Hashed r)
  show ?thesis
  proof (cases "\<exists>v. r = Inr v \<and> dl_failed d = None")
    case True
    then have all: "\<forall>c < length (dl_done d). dl_done d ! c" using ok Hashed by auto
    have "p div CHUNK < length (dl_done d)" if "p < dl_size d" for p
      unfolding len(1) chunk_in using that div_times_less_eq_dividend [of p CHUNK] by linarith
    then have "dl_part d' = dl_part d" using all len(2,3) part by (intro nth_equalityI) auto
    then show ?thesis using True ok Hashed le by (auto simp: leaves_def)
  next
    case False
    then show ?thesis using Hashed le by (cases r) (auto simp: leaves_def)
  qed
qed

lemma hash_ok_hasher:
  assumes st: "hash_step ni bad d ha = Some ha'" and ok: "hash_ok d ha" and len: "length (dl_done d) = chunk_count (dl_size d)" "length (dl_part d) = dl_size d" "dl_size d < 2 ^ 61"
  shows "hash_ok d ha'"
proof -
  obtain i h where ha: "ha = Hashing i h" using st by (cases ha) auto
  have i: "i \<le> length (dl_done d)" "\<And>c. c < i \<Longrightarrow> dl_done d ! c" "fed (take (i * CHUNK) (dl_part d)) h" using ok ha by auto
  consider "length (dl_done d) \<le> i" | "i < length (dl_done d)" "dl_done d ! i" | "i < length (dl_done d)" "\<not> dl_done d ! i" by linarith
  then show ?thesis
  proof cases
    case 1
    then have "dl_size d \<le> i * CHUNK" using chunk_in [of i "dl_size d"] by (simp add: len(1))
    then have "sha_finish ni h = sha_spec (dl_part d)" using sha_finish_fed [OF i(3)] len(2,3) by simp
    then show ?thesis using 1 i st ha by auto
  next
    case 2
    then have "i * CHUNK < dl_size d" using chunk_in [of i "dl_size d"] by (simp add: len(1))
    then have sl: "slice (dl_part d) (i * CHUNK) (min CHUNK (dl_size d - i * CHUNK)) = Some (take CHUNK (drop (i * CHUNK) (dl_part d)))"
      using len(2) by (auto simp: slice_def min_def)
    have "take (Suc i * CHUNK) (dl_part d) = take (i * CHUNK) (dl_part d) @ take CHUNK (drop (i * CHUNK) (dl_part d))"
      using take_add [of "i * CHUNK" CHUNK] by (simp add: add.commute)
    then have "fed (take (Suc i * CHUNK) (dl_part d)) (sha_update ni (take CHUNK (drop (i * CHUNK) (dl_part d))) h)" using fed_update [OF i(3)] by simp
    then show ?thesis using 2 i st ha sl by (auto simp: span_def less_Suc_eq split: option.splits)
  next
    case 3
    then show ?thesis using st ha by (auto split: if_splits)
  qed
qed

definition verified_inv :: "nat \<Rightarrow> sys \<Rightarrow> bool" where
  "verified_inv len s \<longleftrightarrow> sys_ok s \<and> dl_size (sy_dl s) = len \<and> length (dl_part (sy_dl s)) = len \<and> hash_ok (sy_dl s) (sy_hash s)"

lemma verified_inv_step:
  assumes "sys_step asked ni rl s s'" "verified_inv len s" "len < 2 ^ 61"
  shows "verified_inv len s'"
proof -
  have ok: "sys_ok s'" using sys_ok_step [OF assms(1)] assms(2) by (simp add: verified_inv_def)
  from assms(1) show ?thesis
  proof cases
    case (step_worker i h d ph)
    let ?d = "sy_dl s" and ?w = "sy_workers s ! i"
    have w: "phase_ok ?d ?w" "length (dl_done ?d) = chunk_count (dl_size ?d)" "length (dl_part ?d) = dl_size ?d" "hash_ok ?d (sy_hash s)" "dl_size ?d = len"
      using assms(2) step_worker(2) by (auto simp: verified_inv_def sys_ok_def)
    note le = worker_step_ok(2) [OF step_worker(4) w(1,2)] and part = step_part [OF step_worker(4) w(1) step_worker(3) w(2,3)]
    have "hash_ok d (sy_hash s)" using hash_ok_worker [OF w(4) le w(2,3) part] .
    moreover have "dl_size d = len" "length (dl_part d) = len" using le part(1) w(5) by (simp_all add: leaves_def)
    ultimately show ?thesis using ok unfolding verified_inv_def step_worker(1) by simp
  next
    case (step_hasher bad ha)
    have "hash_ok (sy_dl s) ha" using hash_ok_hasher [OF step_hasher(2)] assms(2,3) by (simp add: verified_inv_def sys_ok_def)
    then show ?thesis using assms(2) ok unfolding verified_inv_def step_hasher(1) by simp
  qed
qed

lemma start_inv: "verified_inv len (run_start n (chunked_start u len part state k auth))"
  by (auto simp: verified_inv_def sys_ok_def run_start_def sys_start_def chunked_start_def Let_def fed_default)

lemma reach_verified:
  "sys_reach asked ni rl s0 s \<Longrightarrow> verified_inv len s0 \<Longrightarrow> len < 2 ^ 61 \<Longrightarrow> verified_inv len s"
  by (induction rule: sys_reach.induct) (auto intro: verified_inv_step)

text \<open>C7. A chunked download verifies what it keeps. Whatever the part and state files of an earlier attempt hold, however the
  workers and the hasher interleave, whatever the servers answer as long as no answer is longer than asked for, and whichever
  writes and marks fail: a file takes the target's name only if it has the size announced and its SHA-256 is the Hub's, and
  success means that it has.\<close>

theorem download_verified:
  assumes "sys_reach asked ni (run_length n) (run_start n (chunked_start u len part state k auth)) s" "sy_hash s = Hashed hash" "len < 2 ^ 61"
    and "run_end target sha hash eo (sy_dl s) = (result, kept)"
  shows "(\<forall>f. kept = Some f \<longrightarrow> length f = len \<and> sha_spec f = sha) \<and> (result = Inr () \<longrightarrow> kept \<noteq> None)"
proof -
  have "verified_inv len s" using reach_verified [OF assms(1) start_inv assms(3)] .
  then have "hash_ok (sy_dl s) (Hashed hash)" "length (dl_part (sy_dl s)) = len" using assms(2) by (auto simp: verified_inv_def)
  then show ?thesis
    using assms(4) by (cases hash) (auto simp: run_end_def io_result_def split: sum.splits option.splits if_splits)
qed

section \<open>No chunk is forgotten\<close>

text \<open>A state file that takes every mark.\<close>

fun marks_kept :: "dl \<Rightarrow> phase \<Rightarrow> happens \<Rightarrow> bool" where
  "marks_kept d ph (Piece bs wrote oks) \<longleftrightarrow> (\<forall>c. oks c)"
| "marks_kept d ph h \<longleftrightarrow> True"

text \<open>Of the run being fetched, a first part is there and the rest is missing.\<close>

definition begun_run :: "dl \<Rightarrow> attempt \<Rightarrow> bool" where
  "begun_run d a \<longleftrightarrow> (\<exists>k. \<forall>c. at_from a \<le> c \<and> c < at_then a \<longrightarrow> dl_done d ! c = (c < k))"

fun tidy :: "dl \<Rightarrow> phase \<Rightarrow> bool" where
  "tidy d (Trying a) \<longleftrightarrow> begun_run d a"
| "tidy d (Receiving a f t pos k) \<longleftrightarrow> (f < at_then a \<longrightarrow> at_then a \<le> t) \<and> (\<forall>c. at_from a \<le> c \<and> c < k \<longrightarrow> dl_done d ! c)"
| "tidy d ph \<longleftrightarrow> True"

lemma tidy_other:
  assumes "tidy d ph" "phase_ok d ph" "leaves own d d'" "\<And>c. owns ph c \<Longrightarrow> \<not> own c"
  shows "tidy d' ph"
proof (cases ph)
  case (Trying a)
  then have "\<forall>c. at_from a \<le> c \<and> c < at_then a \<longrightarrow> dl_done d' ! c = dl_done d ! c" using assms(2-4) by (auto simp: leaves_def attempt_ok_def)
  then show ?thesis using assms(1) Trying by (auto simp: begun_run_def)
next
  case (Receiving a f t pos k)
  then have "\<forall>c. at_from a \<le> c \<and> c < k \<longrightarrow> c < length (dl_done d)" using assms(2) by (auto simp: attempt_ok_def)
  then show ?thesis using assms(1,3) Receiving by (auto simp: leaves_def)
qed simp_all

text \<open>A worker's step leaves no chunk that it owned, or claimed, both missing and without an owner.\<close>

definition looked_after :: "dl \<Rightarrow> phase \<Rightarrow> dl \<Rightarrow> phase \<Rightarrow> bool" where
  "looked_after d ph d' ph' \<longleftrightarrow>
     tidy d' ph' \<and>
     (dl_failed d' \<noteq> None \<or> (\<forall>c < length (dl_done d). (owns ph c \<or> dl_next d \<le> c \<and> c < dl_next d') \<longrightarrow> dl_done d' ! c \<or> owns ph' c)) \<and>
     (ph' = Stopped \<longrightarrow> dl_failed d' \<noteq> None \<or> length (dl_done d) \<le> dl_next d')"

lemma claim_after: "claim rl d = (d', ph') \<Longrightarrow> looked_after d Claiming d' ph'"
  by (auto simp: claim_def Let_def looked_after_def split: if_splits)

lemma look_after: "looked_after d (Looking i till) d (look i till d)"
proof (cases "missing (dl_done d) i till")
  case None
  then show ?thesis using missing_None [OF None] by (auto simp: looked_after_def look_def)
next
  case (Some ft)
  then obtain f t where m: "missing (dl_done d) i till = Some (f, t)" by (cases ft) auto
  note ms = missing_Some [OF m]
  have "begun_run d \<lparr>at_from = f, at_end = till, at_then = t, at_count = 1\<rparr>" using ms(5) by (auto simp: begun_run_def intro: exI [of _ f])
  moreover have "f \<le> c" if "i \<le> c" "\<not> dl_done d ! c" for c using ms(4) [of c] that by (meson leI)
  ultimately show ?thesis using m by (auto simp: looked_after_def look_def)
qed

lemma begin_after:
  assumes "begun_run d a" "attempt_ok d a"
  shows "looked_after d (Trying a) d (begin_try a d)"
proof (cases "missing (dl_done d) (at_from a) (at_end a)")
  case None
  then show ?thesis using missing_None [OF None] by (auto simp: looked_after_def begin_try_def)
next
  case (Some ft)
  then obtain f t where m: "missing (dl_done d) (at_from a) (at_end a) = Some (f, t)" by (cases ft) auto
  note ms = missing_Some [OF m]
  obtain k where k: "\<And>c. at_from a \<le> c \<Longrightarrow> c < at_then a \<Longrightarrow> dl_done d ! c = (c < k)" using assms(1) by (auto simp: begun_run_def)
  have "at_then a \<le> t" if "f < at_then a"
  proof (rule ccontr)
    assume t: "\<not> at_then a \<le> t"
    then have "dl_done d ! t" using ms(3,6) assms(2) by (auto simp: attempt_ok_def)
    then have "t < k" using k t ms(1,2) by simp
    then have "dl_done d ! f" using k [of f] that ms(1,2) by simp
    then show False using ms(2) ms(5) [of f] by simp
  qed
  then show ?thesis using m ms(4) by (auto simp: looked_after_def begin_try_def)
qed

lemma received_run:
  assumes "phase_ok d (Receiving a f t pos k)" "tidy d (Receiving a f t pos k)"
  shows "begun_run d a"
proof -
  have "dl_done d ! c = (c < k)" if "at_from a \<le> c" "c < at_then a" for c
    using assms that by (cases "c < k") auto
  then show ?thesis by (auto simp: begun_run_def)
qed

lemma failed_after:
  assumes "attempt_failed e a d = (d', ph')" "begun_run d a"
  shows "looked_after d (Receiving a f t pos k) d' ph'"
  using assms by (auto simp: attempt_failed_def looked_after_def begun_run_def split: if_splits)

lemma receive_after:
  assumes r: "receive bs wrote oks a f t pos k d = (d', ph')" and ok: "phase_ok d (Receiving a f t pos k)" "tidy d (Receiving a f t pos k)" "\<forall>c. oks c"
  shows "looked_after d (Receiving a f t pos k) d' ph'"
proof (cases wrote)
  case (Some je)
  obtain j e where je: "je = (j, e)" by (meson surj_pair)
  have "begun_run d a" using received_run [OF ok(1,2)] .
  then show ?thesis using r Some je by (auto simp: receive_def attempt_failed_def looked_after_def begun_run_def split: if_splits)
next
  case None
  let ?d = "d\<lparr>dl_part := pwrite bs pos (dl_part d)\<rparr>"
  obtain j d1 where m: "mark_passed oks t (pos + length bs) k ?d = (j, d1)" by (meson surj_pair)
  then have d': "d' = d1" "ph' = Receiving a f t (pos + length bs) j" using r None by (auto simp: receive_def range_sink_def Let_def)
  have mp: "k \<le> j" "j \<le> t" "leaves (\<lambda>c. k \<le> c \<and> c < j) ?d d1" "dl_next d1 = dl_next d" "\<And>c. k \<le> c \<Longrightarrow> c < j \<Longrightarrow> dl_done d1 ! c"
    using mark_passed_keeps [OF m] ok by (auto simp: attempt_ok_def)
  have "dl_done d1 ! c" if "at_from a \<le> c" "c < j" for c
    using mp(3,5) ok(1,2) that by (cases "c < k") (auto simp: leaves_def attempt_ok_def)
  then show ?thesis using d' mp(4) ok(2) by (auto simp: looked_after_def)
qed

lemma answered_after:
  assumes r: "answered status u a f t pos d = (d', ph')" and ok: "phase_ok d (Receiving a f t pos k)" "tidy d (Receiving a f t pos k)"
    and len: "length (dl_done d) = chunk_count (dl_size d)"
  shows "looked_after d (Receiving a f t pos k) d' ph'"
proof (cases "status \<noteq> 206 \<or> pos \<noteq> span_end (t - 1) (dl_size d)")
  case True
  have "begun_run d a" using received_run [OF ok] .
  then show ?thesis using r True by (auto simp: answered_def attempt_failed_def looked_after_def begun_run_def Let_def split: if_splits)
next
  case False
  have "k = t"
  proof (rule ccontr)
    assume "k \<noteq> t"
    then have k: "k < t" "pos < span_end k (dl_size d)" using ok(1) by auto
    moreover have "span_end k (dl_size d) \<le> span_end (t - 1) (dl_size d)"
    proof -
      have "t - 1 < chunk_count (dl_size d)" using ok(1) len by (auto simp: attempt_ok_def)
      then have "(t - 1) * CHUNK < dl_size d" by (simp add: chunk_in)
      then show ?thesis using k(1) by (intro span_end_mono) auto
    qed
    ultimately show False using False by simp
  qed
  then have "dl_done d ! c" if "at_from a \<le> c" "c < at_then a" for c using ok that by auto
  then show ?thesis using r False ok(1) by (auto simp: answered_def looked_after_def Let_def not_less)
qed

lemma worker_after:
  assumes "worker_step rl h d ph = Some (d', ph')" "phase_ok d ph" "tidy d ph" "marks_kept d ph h" "length (dl_done d) = chunk_count (dl_size d)"
  shows "looked_after d ph d' ph'"
proof (cases ph)
  case Claiming
  then show ?thesis using assms(1) claim_after by (cases h) auto
next
  case (Looking i till)
  then show ?thesis using assms(1) look_after by (cases h) auto
next
  case (Trying a)
  then show ?thesis using assms begin_after [of d a] by (cases h) auto
next
  case (Receiving a f t pos k)
  show ?thesis
  proof (cases h)
    case (Piece bs wrote oks)
    then show ?thesis using Receiving assms(1-4) receive_after by auto
  next
    case (Answered status u)
    then show ?thesis using Receiving assms(1-3,5) answered_after by auto
  next
    case (Broke e)
    have "begun_run d a" using received_run [of d a f t pos k] Receiving assms(2,3) by simp
    then show ?thesis using Receiving Broke assms(1) failed_after by simp
  qed (use Receiving assms(1) in simp)
qed (use assms(1) in \<open>cases h; simp\<close>)

definition kept_inv :: "sys \<Rightarrow> bool" where
  "kept_inv s \<longleftrightarrow> sys_ok s \<and> (\<forall>i < length (sy_workers s). tidy (sy_dl s) (sy_workers s ! i)) \<and>
     (dl_failed (sy_dl s) = None \<longrightarrow>
        (\<forall>c < length (dl_done (sy_dl s)). c < dl_next (sy_dl s) \<longrightarrow> dl_done (sy_dl s) ! c \<or> (\<exists>i < length (sy_workers s). owns (sy_workers s ! i) c)) \<and>
        (Stopped \<in> set (sy_workers s) \<longrightarrow> length (dl_done (sy_dl s)) \<le> dl_next (sy_dl s)))"

lemma kept_inv_step:
  assumes "sys_step marks_kept ni rl s s'" "kept_inv s"
  shows "kept_inv s'"
  using assms(1)
proof cases
  case (step_hasher bad ha)
  then show ?thesis using assms sys_ok_step [OF assms(1)] by (simp add: kept_inv_def)
next
  case (step_worker i h d ph)
  let ?ws = "sy_workers s" and ?d = "sy_dl s"
  have ok: "sys_ok s" "\<And>j. j < length ?ws \<Longrightarrow> phase_ok ?d (?ws ! j)" "length (dl_done ?d) = chunk_count (dl_size ?d)"
      "\<And>j c. j < length ?ws \<Longrightarrow> j \<noteq> i \<Longrightarrow> owns (?ws ! j) c \<Longrightarrow> \<not> owns (?ws ! i) c" "\<And>j. j < length ?ws \<Longrightarrow> tidy ?d (?ws ! j)"
    using assms(2) step_worker(2) by (auto simp: kept_inv_def sys_ok_def)
  have af: "looked_after ?d (?ws ! i) d ph"
    using worker_after [OF step_worker(4) ok(2) [OF step_worker(2)] ok(5) [OF step_worker(2)] step_worker(3) ok(3)] .
  have le: "leaves (owns (?ws ! i)) ?d d" using worker_step_ok(2) [OF step_worker(4) ok(2) [OF step_worker(2)] ok(3)] .
  have tidy: "tidy d (?ws[i := ph] ! j)" if "j < length ?ws" for j
    using af tidy_other [OF ok(5) [OF that] ok(2) [OF that] le] ok(4) [OF that] that by (cases "j = i") (auto simp: looked_after_def)
  have cov: "dl_done d ! c \<or> (\<exists>j < length ?ws. owns (?ws[i := ph] ! j) c)"
    if f: "dl_failed d = None" and c: "c < length (dl_done d)" "c < dl_next d" for c
  proof -
    have c': "c < length (dl_done ?d)" and none: "dl_failed ?d = None" using le c f by (auto simp: leaves_def)
    consider "dl_next ?d \<le> c \<or> owns (?ws ! i) c" | "dl_done ?d ! c" | j where "j < length ?ws" "j \<noteq> i" "owns (?ws ! j) c"
      using assms(2) none c' unfolding kept_inv_def by (metis not_le)
    then show ?thesis
    proof cases
      case 1
      then have "dl_done d ! c \<or> owns ph c" using af f c' c(2) by (auto simp: looked_after_def)
      then show ?thesis using step_worker(2) by (metis nth_list_update_eq)
    next
      case 2
      then show ?thesis using le c' by (simp add: leaves_def)
    next
      case (3 j)
      then show ?thesis by (metis nth_list_update_neq)
    qed
  qed
  have "length (dl_done d) \<le> dl_next d" if f: "dl_failed d = None" and st: "Stopped \<in> set (?ws[i := ph])"
  proof (cases "ph = Stopped")
    case True
    then show ?thesis using af le f by (auto simp: looked_after_def leaves_def)
  next
    case False
    then have "Stopped \<in> set ?ws" using st step_worker(2) by (metis in_set_conv_nth length_list_update nth_list_update_eq nth_list_update_neq)
    moreover have "dl_failed ?d = None" using le f by (auto simp: leaves_def)
    ultimately show ?thesis using assms(2) le by (auto simp: kept_inv_def leaves_def)
  qed
  then show ?thesis using sys_ok_step [OF assms(1) ok(1)] tidy cov unfolding kept_inv_def step_worker(1) by simp
qed

lemma start_kept: "kept_inv (run_start n (chunked_start u len part state k auth))"
  by (auto simp: kept_inv_def sys_ok_def run_start_def sys_start_def chunked_start_def Let_def)

lemma reach_kept: "sys_reach marks_kept ni rl s0 s \<Longrightarrow> kept_inv s0 \<Longrightarrow> kept_inv s"
  by (induction rule: sys_reach.induct) (auto intro: kept_inv_step)

text \<open>C16. A chunked download does not wait for a chunk that nobody fetches: if the state file takes every mark, then once every worker
  has stopped, whatever the servers answered, every chunk is there or the download has failed, and the hasher can go on to its end.\<close>

theorem download_ends:
  assumes "sys_reach marks_kept ni (run_length n) (run_start n (chunked_start u len part state k auth)) s" "set (sy_workers s) = {Stopped}"
  shows "(dl_failed (sy_dl s) \<noteq> None \<or> (\<forall>c < length (dl_done (sy_dl s)). dl_done (sy_dl s) ! c)) \<and>
    ((\<exists>r. sy_hash s = Hashed r) \<or> hash_step ni None (sy_dl s) (sy_hash s) \<noteq> None)"
proof -
  have inv: "kept_inv s" using reach_kept [OF assms(1) start_kept] .
  have "\<not> owns (sy_workers s ! i) c" if "i < length (sy_workers s)" for i c
    using nth_mem [OF that] assms(2) by (metis owns.simps(5) singletonD)
  then have "dl_failed (sy_dl s) \<noteq> None \<or> (\<forall>c < length (dl_done (sy_dl s)). dl_done (sy_dl s) ! c)"
    using inv assms(2) unfolding kept_inv_def by (metis insertI1 less_le_trans)
  moreover have "hash_step ni None (sy_dl s) (Hashing i h) \<noteq> None"
    if "dl_failed (sy_dl s) \<noteq> None \<or> (\<forall>c < length (dl_done (sy_dl s)). dl_done (sy_dl s) ! c)" for i h
    using that by (cases "length (dl_done (sy_dl s)) \<le> i") (auto simp: Let_def split: prod.splits)
  ultimately show ?thesis by (cases "sy_hash s") auto
qed

section \<open>An answer in pieces\<close>

lemma overwrite_append:
  "pos \<le> length g \<Longrightarrow> overwrite g pos (a @ b) = overwrite (overwrite g pos a) (pos + length a) b"
  "pos \<le> length g \<Longrightarrow> pos + length a \<le> length (overwrite g pos a)"
  by (simp_all add: overwrite_def add.assoc add.commute [of "length b"])

lemma pwrite_append: "pwrite (a @ b) pos f = pwrite b (pos + length a) (pwrite a pos f)"
proof (cases "a = [] \<or> b = []")
  case False
  then show ?thesis
    using overwrite_append(1) [of pos "f @ replicate (pos - length f) 0" a b] overwrite_append(2) [of pos "f @ replicate (pos - length f) 0" a]
    by (simp add: pwrite_def write_at_def)
qed (auto simp: pwrite_def)

lemma mark_part: "mark ok i (d\<lparr>dl_part := x\<rparr>) = (mark ok i d)\<lparr>dl_part := x\<rparr>"
  by (simp add: mark_def)

lemma mark_passed_part:
  "mark_passed oks t pos k (d\<lparr>dl_part := x\<rparr>) = (case mark_passed oks t pos k d of (j, d') \<Rightarrow> (j, d'\<lparr>dl_part := x\<rparr>))"
proof (induction oks t pos k d rule: mark_passed.induct)
  case (1 oks t pos k d)
  then show ?case by (subst (1 2) mark_passed.simps) (simp add: mark_part)
qed

lemma mark_passed_twice:
  "p \<le> q \<Longrightarrow> (case mark_passed oks t p k d of (j, d') \<Rightarrow> mark_passed oks t q j d') = mark_passed oks t q k d"
proof (induction oks t p k d rule: mark_passed.induct)
  case (1 oks t p k d)
  show ?case
  proof (cases "k < t \<and> span_end k (dl_size d) \<le> p")
    case True
    then have "mark_passed oks t p k d = mark_passed oks t p (k + 1) (mark (oks k) k d)" "mark_passed oks t q k d = mark_passed oks t q (k + 1) (mark (oks k) k d)"
      using 1(2) by (subst mark_passed.simps, simp)+
    then show ?thesis using 1 True by simp
  next
    case False
    then have "mark_passed oks t p k d = (k, d)" by (subst mark_passed.simps) auto
    then show ?thesis by simp
  qed
qed

lemma range_sink_append: "range_sink oks t (a @ b) st = range_sink oks t b (range_sink oks t a st)"
proof -
  obtain d pos k where st: "st = (d, pos, k)" by (cases st)
  obtain j d1 where m: "mark_passed oks t (pos + length a) k d = (j, d1)" by (meson surj_pair)
  have "mark_passed oks t (pos + length a + length b) j d1 = mark_passed oks t (pos + length a + length b) k d"
    using mark_passed_twice [of "pos + length a" "pos + length a + length b" oks t k d] m by simp
  then show ?thesis using m by (simp add: range_sink_def st Let_def mark_passed_part pwrite_append add.assoc split: prod.splits)
qed

definition range_put :: "(nat \<Rightarrow> bool) \<Rightarrow> nat \<Rightarrow> bytes \<Rightarrow> dl \<times> nat \<times> nat \<Rightarrow> dl \<times> nat \<times> nat" where
  "range_put oks t bs st = (if bs = [] then st else range_sink oks t bs st)"

interpretation ranged: body_sink "range_put oks t" "\<lambda>bs st. (Inr (), range_sink oks t bs st)" for oks t
  by unfold_locales (simp_all add: range_put_def range_sink_append [symmetric])

text \<open>C39. One range request, end to end: if the server answers \<open>206\<close> with the bytes of the range, in whatever pieces and with whichever
  framing, the part file has them in their place and nothing else is changed in it, every chunk of the range is marked and no
  other, and the position is the end of the range.\<close>

theorem range_fetched:
  assumes "quiet c" "unread c = head_wire 206 reason headers @ wire @ rest" "cn_writes c = []"
    and "head_ok 206 reason headers" "body_wire (response_of 206 headers) wire body rest"
    and "f < t" "t \<le> length (dl_done d)" "length (dl_done d) = chunk_count (dl_size d)" "length (dl_part d) = dl_size d"
    and "length body = span_end (t - 1) (dl_size d) - fst (span f (dl_size d))"
  shows "\<exists>c' n' d'. conn_get path hs (\<lambda>bs st. (Inr (), range_sink (\<lambda>_. True) t bs st)) c n (d, fst (span f (dl_size d)), f) =
      (Inr (response_of 206 headers), c', n', d', span_end (t - 1) (dl_size d), t) \<and>
    dl_part d' = overwrite (dl_part d) (fst (span f (dl_size d))) body \<and>
    (\<forall>i < length (dl_done d). dl_done d' ! i = (dl_done d ! i \<or> f \<le> i \<and> i < t))"
proof -
  let ?len = "dl_size d" and ?d = "d\<lparr>dl_part := pwrite body (f * CHUNK) (dl_part d)\<rparr>"
  have last: "(t - 1) * CHUNK < ?len" using assms(6-8) by (simp flip: chunk_in)
  have le: "f * CHUNK \<le> (t - 1) * CHUNK" using assms(6) by (intro mult_le_mono1) simp
  have "span_end (t - 1) ?len = min ((t - 1) * CHUNK + CHUNK) ?len" using last by (simp add: span_end_min)
  then have start: "f * CHUNK < span_end (t - 1) ?len" using last le chunk_pos by linarith
  then have ne: "body \<noteq> []" and pos: "f * CHUNK + length body = span_end (t - 1) ?len" using assms(10) by (auto simp: span_def)
  have inside: "f * CHUNK + length body \<le> length (dl_part d)" using pos last assms(9) by (simp add: span_end_min)
  obtain k d' where m: "mark_passed (\<lambda>_. True) t (span_end (t - 1) ?len) f ?d = (k, d')" by (meson surj_pair)
  note mp = mark_passed_keeps [OF m]
  have "k = t"
  proof (rule ccontr)
    assume "k \<noteq> t"
    then have "k < t" "span_end (t - 1) ?len < span_end k ?len" using mp assms(6) by auto
    moreover have "span_end k ?len \<le> span_end (t - 1) ?len" using calculation(1) last by (intro span_end_mono) auto
    ultimately show False by simp
  qed
  then have "range_put (\<lambda>_. True) t body (d, fst (span f ?len), f) = (d', span_end (t - 1) ?len, t)"
    using m ne pos by (simp add: range_put_def range_sink_def span_def)
  moreover have "dl_part d' = overwrite (dl_part d) (f * CHUNK) body" using mp assms(6) inside ne by (simp add: pwrite_def write_at_def)
  moreover have "dl_done d' ! i = (dl_done d ! i \<or> f \<le> i \<and> i < t)" if "i < length (dl_done d)" for i
    using mp assms(6,7) \<open>k = t\<close> that by (auto simp: leaves_def)
  moreover have "\<not> is_redirect 206" by (simp add: is_redirect_def)
  ultimately show ?thesis
    using ranged.conn_get_quiet [OF assms(1-5) refl, of path hs "\<lambda>_. True" t n "(d, fst (span f ?len), f)"] by (auto simp: span_def)
qed

theorem range_fetched_witness:
  "\<exists>c' n' d'. conn_get (lit ''/f'') [] (\<lambda>bs st. (Inr (), range_sink (\<lambda>_. True) 1 bs st))
      (fresh_conn cdn_url (head_wire 206 (lit ''P'') sized_headers @ [104, 105])) sample_net (chunked_start sample_url 2 [] [] 0 None, 0, 0) =
      (Inr (response_of 206 sized_headers), c', n', d', 2, 1) \<and> dl_part d' = [104, 105] \<and> dl_done d' ! 0"
proof -
  let ?c = "fresh_conn cdn_url (head_wire 206 (lit ''P'') sized_headers @ [104, 105])" and ?d = "chunked_start sample_url 2 [] [] 0 None"
  have d: "dl_size ?d = 2" "dl_part ?d = [0, 0]" "dl_done ?d = [False]" "chunk_count 2 = 1"
    by (simp_all add: chunked_start_def chunk_count_def CHUNK_def Let_def) (simp add: numeral_2_eq_2)
  have sp: "span_end 0 2 = 2" "fst (span 0 2) = 0" by (simp_all add: span_end_def span_def CHUNK_def)
  have head: "head_ok 206 (lit ''P'') sized_headers"
    by (simp add: head_ok_def sized_headers_def head_wire_def head_lines_def status_line_def header_line_def lit_def decimal.simps encode_utf8_def is_scalar_def MAX_HEAD_def)
  have "rs_header (response_of 206 sized_headers) ''transfer-encoding'' = None" "rs_length (response_of 206 sized_headers) = Some 2"
    using sample_responses(3,4) by (simp_all add: rs_length_def rs_header_def response_of_def)
  then have body: "body_wire (response_of 206 sized_headers) [104, 105] [104, 105] []"
    by (simp add: body_wire_def ending_of_def response_of_def no_body_def)
  have c: "quiet ?c" "unread ?c = head_wire 206 (lit ''P'') sized_headers @ [104, 105] @ []" "cn_writes ?c = []"
    by (simp_all add: fresh_conn_def quiet_def unread_def got_def)
  show ?thesis
    using range_fetched [OF c head body, of 0 1 ?d "lit ''/f''" "[]" sample_net] by (auto simp: d sp overwrite_def)
qed

text \<open>The token goes to the Hub's host only, also on a connection that was redirected before.\<close>

lemma range_token:
  assumes "range_request d f t = (u, hs)" "fetch conn u hs sink n s = (r, conn', n', s')"
  shows "\<exists>sent. nt_log n' = nt_log n @ sent \<and> (\<forall>(v, bs) \<in> set sent. url_host v \<noteq> url_host (dl_first d) \<longrightarrow>
    (\<exists>path. prefix bs (to_utf8 (request_head v path [(lit ''Range'', range_text (dl_size d) f t)]))))"
proof -
  have keep: "filter (\<lambda>(k, _). \<not> eq_ignore_ascii_case k (lit ''authorization'')) hs = [(lit ''Range'', range_text (dl_size d) f t)]"
    using assms(1) by (auto simp: range_request_def Let_def auth_headers_def eq_ignore_ascii_case_def lit_def Http.ascii_lower_def split: option.splits if_splits)
  have only: "hs = [(lit ''Range'', range_text (dl_size d) f t)]" if "url_host u \<noteq> url_host (dl_first d)"
    using assms(1) that by (auto simp: range_request_def Let_def auth_headers_def)
  obtain sent where "nt_log n' = nt_log n @ sent" "list_all (request_to (url_host u) hs) sent"
    using fetch_loop_log [OF assms(2) [unfolded fetch_def]] by blast
  then show ?thesis using keep only by (intro exI [of _ sent]) (fastforce simp: list_all_iff request_to_def split: if_splits)
qed

section \<open>Schedules\<close>

text \<open>A schedule of the threads, run.\<close>

datatype act = Worker nat happens | Hasher "io_error option"

fun run_script :: "(dl \<Rightarrow> phase \<Rightarrow> happens \<Rightarrow> bool) \<Rightarrow> bool \<Rightarrow> nat \<Rightarrow> act list \<Rightarrow> sys \<Rightarrow> sys option" where
  "run_script may ni rl [] s = Some s"
| "run_script may ni rl (Worker i h # acts) s =
     (if i < length (sy_workers s) \<and> may (sy_dl s) (sy_workers s ! i) h then
        Option.bind (worker_step rl h (sy_dl s) (sy_workers s ! i)) (\<lambda>(d, ph).
          run_script may ni rl acts (s\<lparr>sy_dl := d, sy_workers := (sy_workers s)[i := ph]\<rparr>))
      else None)"
| "run_script may ni rl (Hasher bad # acts) s =
     Option.bind (hash_step ni bad (sy_dl s) (sy_hash s)) (\<lambda>ha. run_script may ni rl acts (s\<lparr>sy_hash := ha\<rparr>))"

lemma script_reach: "run_script may ni rl acts s = Some s' \<Longrightarrow> sys_reach may ni rl s0 s \<Longrightarrow> sys_reach may ni rl s0 s'"
proof (induction may ni rl acts s rule: run_script.induct)
  case (2 may ni rl i h acts s)
  then obtain d ph where w: "i < length (sy_workers s)" "may (sy_dl s) (sy_workers s ! i) h" "worker_step rl h (sy_dl s) (sy_workers s ! i) = Some (d, ph)"
      "run_script may ni rl acts (s\<lparr>sy_dl := d, sy_workers := (sy_workers s)[i := ph]\<rparr>) = Some s'"
    by (auto split: if_splits Option.bind_splits)
  have "sys_step may ni rl s (s\<lparr>sy_dl := d, sy_workers := (sy_workers s)[i := ph]\<rparr>)" using w(1-3) by (rule step_worker)
  then show ?case using 2(1) [OF conjI [OF w(1,2)] w(3) refl w(4)] reach_step [OF 2(3)] by blast
next
  case (3 may ni rl bad acts s)
  then obtain ha where "hash_step ni bad (sy_dl s) (sy_hash s) = Some ha" "run_script may ni rl acts (s\<lparr>sy_hash := ha\<rparr>) = Some s'"
    by (auto split: Option.bind_splits)
  then show ?case using 3 reach_step [OF 3(3) step_hasher] by simp
qed simp

text \<open>A file of one byte over one connection: the body of the answer is \<open>bs\<close>, and marking succeeds as \<open>ok\<close> says.\<close>

definition one_byte :: sys where
  "one_byte = run_start 1 (chunked_start sample_url 1 [] [] 0 None)"

definition one_answer :: "bytes \<Rightarrow> bool \<Rightarrow> act list" where
  "one_answer bs ok = [Worker 0 Goes_on, Worker 0 Goes_on, Worker 0 Goes_on, Worker 0 (Piece bs None (\<lambda>_. ok)), Worker 0 (Answered 206 cdn_url)]"

definition no_errors :: ending_io where
  "no_errors = \<lparr>eo_flush = None, eo_remove = None, eo_sync = None, eo_rename = None\<rparr>"

lemmas one_byte_simps = one_byte_def run_start_def run_workers_def run_length_def IN_FLIGHT_def sys_start_def chunked_start_def chunk_count_def CHUNK_def
  one_answer_def claim_def look_def missing_def begin_try_def span_def span_end_def receive_def mark_passed.simps mark_def range_sink_def pwrite_def write_at_def overwrite_def
  answered_def attempt_failed_def ATTEMPTS_def slice_def Let_def

lemma one_byte_run:
  "\<exists>s. run_script may False (run_length 1) (one_answer [65] True @ [Worker 0 Goes_on, Worker 0 Goes_on, Hasher None, Hasher None]) one_byte = Some s \<and>
     set (sy_workers s) = {Stopped} \<and> dl_failed (sy_dl s) = None \<and> dl_part (sy_dl s) = [65] \<and> sy_hash s = Hashed (Inr (sha_finish False (sha_update False [65] sha_default)))"
  if "may = asked \<or> may = marks_kept"
  using that by (auto simp: one_byte_simps)

lemma one_byte_hash: "sha_finish False (sha_update False [65] sha_default) = sha_spec [65]"
  using sha.one_piece [of "[65]" False] by simp

theorem download_verified_witness:
  "\<exists>s. sys_reach asked False (run_length 1) one_byte s \<and> sy_hash s = Hashed (Inr (sha_spec [65])) \<and>
     run_end [] (sha_spec [65]) (Inr (sha_spec [65])) no_errors (sy_dl s) = (Inr (), Some [65]) \<and>
     length [65 :: u8] = 1 \<and> sha_spec [65] = sha_spec [65]"
proof -
  obtain s where s: "run_script asked False (run_length 1) (one_answer [65] True @ [Worker 0 Goes_on, Worker 0 Goes_on, Hasher None, Hasher None]) one_byte = Some s"
      "dl_failed (sy_dl s) = None" "dl_part (sy_dl s) = [65]" "sy_hash s = Hashed (Inr (sha_spec [65]))"
    using one_byte_run [of asked] unfolding one_byte_hash by blast
  have r: "sys_reach asked False (run_length 1) one_byte s" using script_reach [OF s(1) reach_start] .
  have e: "run_end [] (sha_spec [65]) (Inr (sha_spec [65])) no_errors (sy_dl s) = (Inr (), Some [65])"
    using s(2,3) by (simp add: run_end_def no_errors_def io_result_def)
  show ?thesis
    using download_verified [OF r [unfolded one_byte_def] s(4) _ e] r s(4) e by auto
qed

theorem download_ends_witness:
  "\<exists>s. sys_reach marks_kept False (run_length 1) one_byte s \<and> set (sy_workers s) = {Stopped} \<and> dl_failed (sy_dl s) = None \<and>
     (\<forall>c < length (dl_done (sy_dl s)). dl_done (sy_dl s) ! c)"
proof -
  obtain s where s: "run_script marks_kept False (run_length 1) (one_answer [65] True @ [Worker 0 Goes_on, Worker 0 Goes_on, Hasher None, Hasher None]) one_byte = Some s"
      "set (sy_workers s) = {Stopped}" "dl_failed (sy_dl s) = None"
    using one_byte_run [of marks_kept] by blast
  have r: "sys_reach marks_kept False (run_length 1) one_byte s" using script_reach [OF s(1) reach_start] .
  then show ?thesis using download_ends [OF r [unfolded one_byte_def] s(2)] s by blast
qed


text \<open>A chunk that arrived whole but whose mark could not be written is neither fetched again nor reported: the workers stop
  without an error, and the hasher waits for it without end.\<close>

lemma lost_mark_waits:
  "\<exists>s. sys_reach (\<lambda>_ _ _. True) False (run_length 1) one_byte s \<and> set (sy_workers s) = {Stopped} \<and> dl_failed (sy_dl s) = None \<and>
     (\<exists>i h. sy_hash s = Hashing i h) \<and> hash_step False None (sy_dl s) (sy_hash s) = None"
proof -
  have "\<exists>s. run_script (\<lambda>_ _ _. True) False (run_length 1) (one_answer [65] False @ [Worker 0 Goes_on, Worker 0 Goes_on]) one_byte = Some s \<and>
      set (sy_workers s) = {Stopped} \<and> dl_failed (sy_dl s) = None \<and> (\<exists>i h. sy_hash s = Hashing i h) \<and> hash_step False None (sy_dl s) (sy_hash s) = None"
    by (auto simp: one_byte_simps)
  then show ?thesis using script_reach [OF _ reach_start] by blast
qed

end
